(* ===== verification/Js_Prelude.thy ===== *)
theory Js_Prelude
  imports Main "HOL-Library.Multiset"
begin

text \<open>
  Shared material of the development: the JavaScript values the components use
  (errors, strings as lists of Latin-1 code units, the remainder operator, \<open>indexOf\<close>,
  splitting and joining), the generic lemmas on lists and maps, the collection of facts
  that operations keep a state well formed, and the locales of step invariants and of
  caches that the components interpret.
\<close>

named_theorems wf_intros \<open>operations keep a state well formed\<close>

section \<open>Errors\<close>

text \<open>
  \<open>TypeError\<close> is the engine's own exception (a property of \<open>null\<close> or
  \<open>undefined\<close>); \<open>JsError m\<close> is an exception the source raises with a message
  (\<open>throw new Error(m)\<close>, \<open>$.error(m)\<close>).
\<close>

datatype js_error = TypeError | JsError string

type_synonym 'a js = "js_error + 'a"

fun js_bind :: "'a js \<Rightarrow> ('a \<Rightarrow> 'b js) \<Rightarrow> 'b js" where
  "js_bind (Inl e) f = Inl e"
| "js_bind (Inr x) f = f x"

lemma js_bind_Inr_iff: "js_bind m f = Inr y \<longleftrightarrow> (\<exists>x. m = Inr x \<and> f x = Inr y)"
  by (cases m) auto

section \<open>JSON values\<close>

text \<open>
  What the code stores and receives as JSON; \<open>JData\<close> stands for an object or an array,
  which is always truthy.
\<close>

datatype 'a json = JNull | JNum int | JStr string | JBool bool | JData 'a

fun js_truthy :: "'a json \<Rightarrow> bool" where
  "js_truthy JNull = False"
| "js_truthy (JNum n) = (n \<noteq> 0)"
| "js_truthy (JStr s) = (s \<noteq> [])"
| "js_truthy (JBool b) = b"
| "js_truthy (JData d) = True"

section \<open>Numbers\<close>

text \<open>The \<open>%\<close> operator takes the sign of the dividend (for a positive divisor).\<close>

definition js_rem :: "int \<Rightarrow> int \<Rightarrow> int" where
  "js_rem a b = (if a < 0 then - ((- a) mod b) else a mod b)"

lemma js_rem_nonneg [simp]: "0 \<le> a \<Longrightarrow> js_rem a b = a mod b"
  by (simp add: js_rem_def)

lemma js_rem_neg: "a < 0 \<Longrightarrow> js_rem a b = - ((- a) mod b)"
  by (simp add: js_rem_def)

section \<open>Strings\<close>

text \<open>
  A string is a list of characters, one per code unit of the Latin-1 range.
  \<open>js_lower\<close> is \<open>toLowerCase\<close> on that range: the letters A-Z and the accented
  capitals 0xC0-0xDE other than the multiplication sign move up by 32.
\<close>

definition char_code :: "char \<Rightarrow> nat" where
  "char_code c = of_char c"

definition js_lower_char :: "char \<Rightarrow> char" where
  "js_lower_char c =
     (let n = char_code c
      in if 65 \<le> n \<and> n \<le> 90 \<or> 192 \<le> n \<and> n \<le> 222 \<and> n \<noteq> 215 then char_of (n + 32) else c)"

definition js_lower :: "string \<Rightarrow> string" where
  "js_lower = map js_lower_char"

definition is_js_space :: "char \<Rightarrow> bool" where
  "is_js_space c \<longleftrightarrow> (let n = char_code c in 9 \<le> n \<and> n \<le> 13 \<or> n = 32 \<or> n = 160)"

definition is_js_word :: "char \<Rightarrow> bool" where
  "is_js_word c \<longleftrightarrow>
     (let n = char_code c
      in 48 \<le> n \<and> n \<le> 57 \<or> 65 \<le> n \<and> n \<le> 90 \<or> n = 95 \<or> 97 \<le> n \<and> n \<le> 122)"

definition is_digit_char :: "char \<Rightarrow> bool" where
  "is_digit_char c \<longleftrightarrow> (let n = char_code c in 48 \<le> n \<and> n \<le> 57)"

text \<open>\<open>s.split(/X+/)\<close> for a character class X: the pieces between maximal runs of X.\<close>

function split_runs :: "('a \<Rightarrow> bool) \<Rightarrow> 'a list \<Rightarrow> 'a list list" where
  "split_runs P s =
     (let r = dropWhile (\<lambda>c. \<not> P c) s
      in if r = [] then [s] else takeWhile (\<lambda>c. \<not> P c) s # split_runs P (dropWhile P r))"
  by pat_completeness auto
termination
proof (relation "measure (\<lambda>(P, s). length s)")
  fix P :: "'a \<Rightarrow> bool" and s r
  assume r: "r = dropWhile (\<lambda>c. \<not> P c) s" and ne: "r \<noteq> []"
  from ne have "P (hd r)" unfolding r using hd_dropWhile [of "\<lambda>c. \<not> P c" s] by blast
  with ne obtain x xs where xs: "r = x # xs" "P x" by (cases r) auto
  then have "length (dropWhile P r) < length r"
    using length_dropWhile_le [of P xs] by simp
  moreover have "length r \<le> length s" by (simp add: r length_dropWhile_le)
  ultimately show "((P, dropWhile P r), P, s) \<in> measure (\<lambda>(P, s). length s)"
    by simp
qed simp

declare split_runs.simps [simp del]

lemma split_runs_clean: "w \<in> set (split_runs P s) \<Longrightarrow> c \<in> set w \<Longrightarrow> \<not> P c"
proof (induction P s rule: split_runs.induct)
  case (1 P s)
  show ?case
  proof (cases "dropWhile (\<lambda>c. \<not> P c) s = []")
    case True
    with 1 show ?thesis by (auto simp: split_runs.simps [of P s] dropWhile_eq_Nil_conv)
  next
    case False
    with 1 show ?thesis
      by (auto simp: split_runs.simps [of P s] dest: set_takeWhileD split: if_splits)
  qed
qed

text \<open>\<open>s.split(c)\<close>, \<open>a.join(sep)\<close> and \<open>$.trim\<close>.\<close>

fun js_split :: "'a \<Rightarrow> 'a list \<Rightarrow> 'a list list" where
  "js_split c [] = [[]]"
| "js_split c (x # xs) =
     (if x = c then [] # js_split c xs
      else (case js_split c xs of [] \<Rightarrow> [[x]] | w # ws \<Rightarrow> (x # w) # ws))"

fun join :: "'a list \<Rightarrow> 'a list list \<Rightarrow> 'a list" where
  "join sep [] = []"
| "join sep [x] = x"
| "join sep (x # y # xs) = x @ sep @ join sep (y # xs)"

definition js_trim :: "string \<Rightarrow> string" where
  "js_trim s = rev (dropWhile is_js_space (rev (dropWhile is_js_space s)))"

lemma js_split_nonempty [simp]: "js_split c s \<noteq> []"
  by (cases s) (auto split: list.splits)

lemma js_split_plain: "c \<notin> set w \<Longrightarrow> js_split c w = [w]"
  by (induction w) auto

lemma js_split_append: "c \<notin> set w \<Longrightarrow> js_split c (w @ c # s) = w # js_split c s"
  by (induction w) auto

lemma js_split_clean: "w \<in> set (js_split c s) \<Longrightarrow> c \<notin> set w"
  by (induction s arbitrary: w) (auto split: if_splits list.splits)

lemma split_join: "ws \<noteq> [] \<Longrightarrow> \<forall>w\<in>set ws. c \<notin> set w \<Longrightarrow> js_split c (join [c] ws) = ws"
  by (induction "[c]" ws rule: join.induct) (simp_all add: js_split_plain js_split_append)

lemma join_js_split: "join [c] (js_split c s) = s"
proof (induction s)
  case (Cons x s)
  then show ?case by (cases "js_split c s" rule: list.exhaust; cases "tl (js_split c s)") auto
qed simp

lemma join_concat: "join [c] (w # ws) = w @ concat (map ((#) c) ws)"
  by (induction ws arbitrary: w) simp_all

lemma join_snoc: "ws \<noteq> [] \<Longrightarrow> join sep (ws @ [w]) = join sep ws @ sep @ w"
proof (induction sep ws rule: join.induct)
  case (3 sep x y xs)
  then show ?case by (cases xs) auto
qed auto

section \<open>Arrays\<close>

fun js_indexOf :: "'a \<Rightarrow> 'a list \<Rightarrow> int" where
  "js_indexOf x [] = -1"
| "js_indexOf x (y # ys) =
     (if x = y then 0 else let i = js_indexOf x ys in if i = -1 then -1 else i + 1)"

lemma js_indexOf_ge: "-1 \<le> js_indexOf x xs"
  by (induction xs) (auto simp: Let_def)

lemma js_indexOf_absent [simp]: "js_indexOf x xs = -1 \<longleftrightarrow> x \<notin> set xs"
proof (induction xs)
  case (Cons y ys)
  then show ?case using js_indexOf_ge [of x ys] by (auto simp: Let_def)
qed simp

lemma js_indexOf_present:
  "x \<in> set xs \<Longrightarrow> 0 \<le> js_indexOf x xs \<and> nat (js_indexOf x xs) < length xs \<and>
     xs ! nat (js_indexOf x xs) = x"
proof (induction xs)
  case (Cons y ys)
  show ?case
  proof (cases "x = y")
    case False
    with Cons have "x \<in> set ys" by simp
    with Cons.IH False show ?thesis
      by (auto simp: Let_def nat_add_distrib nth_Cons')
  qed simp
qed simp

section \<open>Step invariants\<close>

text \<open>
  A component is a state and a step function on events; the run over a list of events
  is \<open>foldl step\<close>. A predicate kept by every step holds after every run.
\<close>

locale step_invariant =
  fixes step :: "'s \<Rightarrow> 'e \<Rightarrow> 's"
    and inv :: "'s \<Rightarrow> bool"
  assumes step_keeps: "inv s \<Longrightarrow> inv (step s e)"
begin

lemma run_keeps: "inv s \<Longrightarrow> inv (foldl step s es)"
  by (induction es arbitrary: s) (auto intro: step_keeps)

end

section \<open>Caches of responses\<close>

text \<open>
  What a client of a cache relies on. \<open>agrees W c\<close> relates the cache to the last value
  written under each key: storing succeeds and records the value, reading keeps the
  relation, and an answer is the value last written. A cache may forget; it may not lie.
\<close>

locale response_cache =
  fixes get :: "'k \<Rightarrow> 'c \<Rightarrow> 'v option \<times> 'c"
    and set :: "'k \<Rightarrow> 'v \<Rightarrow> 'c \<Rightarrow> 'c js"
    and agrees :: "('k \<rightharpoonup> 'v) \<Rightarrow> 'c \<Rightarrow> bool"
  assumes set_agrees: "agrees W c \<Longrightarrow> \<exists>c'. set k v c = Inr c' \<and> agrees (W(k \<mapsto> v)) c'"
    and get_agrees: "agrees W c \<Longrightarrow> agrees W (snd (get k c))"
    and get_sound: "agrees W c \<Longrightarrow> fst (get k c) = Some v \<Longrightarrow> W k = Some v"
begin

lemma set_total: "agrees W c \<Longrightarrow> set k v c \<noteq> Inl e"
  using set_agrees [of W c k v] by auto

end

end
