(* ===== verification/Lru_Cache.thy ===== *)
theory Lru_Cache
  imports Js_Prelude
begin

text \<open>
  The response cache of the suggestion engine, \<open>LruCache\<close> of
  \<open>typeahead.bundle.js\<close>: a hash of nodes and a doubly linked list of the same nodes
  in order of use. The nodes are objects shared by the hash and the list and mutated
  through both, so they live in an explicit store addressed by references.
  \<open>null\<close> and an absent hash entry are \<open>None\<close> (keys are not names that every object
  inherits, such as \<open>constructor\<close>); reading a property of
  \<open>null\<close> is \<open>TypeError\<close>.
\<close>

section \<open>Nodes, list and cache\<close>

type_synonym ref = nat

record 'v Node =
  node_key :: string
  node_val :: 'v
  node_prev :: "ref option"
  node_next :: "ref option"

record 'v LruCache =
  lru_maxSize :: int
  lru_size :: int
  lru_hash :: "string \<rightharpoonup> ref"
  lru_head :: "ref option"
  lru_tail :: "ref option"
  lru_heap :: "ref \<rightharpoonup> 'v Node"
  lru_fresh :: ref

definition new_Node :: "string \<Rightarrow> 'v \<Rightarrow> 'v Node" where
  "new_Node k v = \<lparr>node_key = k, node_val = v, node_prev = None, node_next = None\<rparr>"

definition node_at :: "'v LruCache \<Rightarrow> ref \<Rightarrow> 'v Node" where
  "node_at c r = the (lru_heap c r)"

definition upd_node :: "ref \<Rightarrow> ('v Node \<Rightarrow> 'v Node) \<Rightarrow> 'v LruCache \<Rightarrow> 'v LruCache" where
  "upd_node r f c = c\<lparr>lru_heap := (lru_heap c)(r \<mapsto> f (node_at c r))\<rparr>"

definition List_add :: "ref \<Rightarrow> 'v LruCache \<Rightarrow> 'v LruCache" where
  "List_add node c =
     (let c1 = (case lru_head c of
                  Some h \<Rightarrow> upd_node h (\<lambda>x. x\<lparr>node_prev := Some node\<rparr>)
                             (upd_node node (\<lambda>x. x\<lparr>node_next := Some h\<rparr>) c)
                | None \<Rightarrow> c)
      in c1\<lparr>lru_head := Some node,
            lru_tail := (case lru_tail c1 of Some t \<Rightarrow> Some t | None \<Rightarrow> Some node)\<rparr>)"

text \<open>
  The two statements of \<open>remove\<close> run in order: the second one reads the fields of the
  node after the first one's assignment.
\<close>

definition List_remove :: "ref \<Rightarrow> 'v LruCache \<Rightarrow> 'v LruCache" where
  "List_remove node c =
     (let c1 = (case node_prev (node_at c node) of
                  Some p \<Rightarrow> upd_node p (\<lambda>x. x\<lparr>node_next := node_next (node_at c node)\<rparr>) c
                | None \<Rightarrow> c\<lparr>lru_head := node_next (node_at c node)\<rparr>)
      in case node_next (node_at c1 node) of
           Some q \<Rightarrow> upd_node q (\<lambda>x. x\<lparr>node_prev := node_prev (node_at c1 node)\<rparr>) c1
         | None \<Rightarrow> c1\<lparr>lru_tail := node_prev (node_at c1 node)\<rparr>)"

definition List_moveToFront :: "ref \<Rightarrow> 'v LruCache \<Rightarrow> 'v LruCache" where
  "List_moveToFront node c = List_add node (List_remove node c)"

definition LruCache_reset :: "'v LruCache \<Rightarrow> 'v LruCache" where
  "LruCache_reset c =
     c\<lparr>lru_size := 0, lru_hash := Map.empty, lru_head := None, lru_tail := None\<rparr>"

definition LruCache :: "int option \<Rightarrow> 'v LruCache" where
  "LruCache m = LruCache_reset
     \<lparr>lru_maxSize = (case m of Some n \<Rightarrow> n | None \<Rightarrow> 100), lru_size = 0,
      lru_hash = Map.empty, lru_head = None, lru_tail = None,
      lru_heap = Map.empty, lru_fresh = 0\<rparr>"

text \<open>\<open>new Node(key, val)\<close>: a fresh reference.\<close>

definition alloc_Node :: "string \<Rightarrow> 'v \<Rightarrow> 'v LruCache \<Rightarrow> ref \<times> 'v LruCache" where
  "alloc_Node k v c =
     (lru_fresh c, c\<lparr>lru_heap := (lru_heap c)(lru_fresh c \<mapsto> new_Node k v),
                     lru_fresh := Suc (lru_fresh c)\<rparr>)"

text \<open>The eviction at the start of \<open>set\<close>, on the list's tail.\<close>

definition LruCache_evict :: "'v LruCache \<Rightarrow> 'v LruCache js" where
  "LruCache_evict c =
     (if lru_size c \<ge> lru_maxSize c
      then (case lru_tail c of
              None \<Rightarrow> Inl TypeError
            | Some t \<Rightarrow>
                (let c1 = List_remove t c
                 in Inr (c1\<lparr>lru_hash := (lru_hash c1)(node_key (node_at c1 t) := None)\<rparr>)))
      else Inr c)"

definition LruCache_store :: "string \<Rightarrow> 'v \<Rightarrow> 'v LruCache \<Rightarrow> 'v LruCache" where
  "LruCache_store k v c =
     (case lru_hash c k of
        Some node \<Rightarrow> List_moveToFront node (upd_node node (\<lambda>x. x\<lparr>node_val := v\<rparr>) c)
      | None \<Rightarrow>
          (let (node, c1) = alloc_Node k v c;
               c2 = List_add node c1
           in c2\<lparr>lru_hash := (lru_hash c2)(k \<mapsto> node), lru_size := lru_size c2 + 1\<rparr>))"

text \<open>A cache built with \<open>maxSize <= 0\<close> has \<open>noop\<close> for both operations.\<close>

definition LruCache_set :: "string \<Rightarrow> 'v \<Rightarrow> 'v LruCache \<Rightarrow> 'v LruCache js" where
  "LruCache_set k v c =
     (if lru_maxSize c \<le> 0 then Inr c
      else js_bind (LruCache_evict c) (\<lambda>c1. Inr (LruCache_store k v c1)))"

definition LruCache_get :: "string \<Rightarrow> 'v LruCache \<Rightarrow> 'v option \<times> 'v LruCache" where
  "LruCache_get k c =
     (if lru_maxSize c \<le> 0 then (None, c)
      else (case lru_hash c k of
              None \<Rightarrow> (None, c)
            | Some node \<Rightarrow>
                (let c1 = List_moveToFront node c in (Some (node_val (node_at c1 node)), c1))))"

text \<open>Histories of calls, and what a cache may answer after one.\<close>

datatype 'v lru_call = LSet string 'v | LGet string | LReset

fun lru_step :: "'v LruCache js \<Rightarrow> 'v lru_call \<Rightarrow> 'v LruCache js" where
  "lru_step s (LSet k v) = js_bind s (LruCache_set k v)"
| "lru_step s (LGet k) = js_bind s (\<lambda>c. Inr (snd (LruCache_get k c)))"
| "lru_step s LReset = js_bind s (\<lambda>c. Inr (LruCache_reset c))"

definition lru_run :: "int option \<Rightarrow> 'v lru_call list \<Rightarrow> 'v LruCache js" where
  "lru_run m calls = foldl lru_step (Inr (LruCache m)) calls"

fun written :: "(string \<rightharpoonup> 'v) \<Rightarrow> 'v lru_call \<Rightarrow> (string \<rightharpoonup> 'v)" where
  "written W (LSet k v) = W(k \<mapsto> v)"
| "written W (LGet k) = W"
| "written W LReset = Map.empty"

definition last_written :: "'v lru_call list \<Rightarrow> string \<rightharpoonup> 'v" where
  "last_written calls = foldl written Map.empty calls"

section \<open>Frame lemmas\<close>

lemma upd_node_frame [simp]:
  "lru_maxSize (upd_node r f c) = lru_maxSize c" "lru_size (upd_node r f c) = lru_size c"
  "lru_hash (upd_node r f c) = lru_hash c" "lru_head (upd_node r f c) = lru_head c"
  "lru_tail (upd_node r f c) = lru_tail c" "lru_fresh (upd_node r f c) = lru_fresh c"
  by (simp_all add: upd_node_def)

lemma node_at_upd_node [simp]:
  "node_at (upd_node r f c) q = (if q = r then f (node_at c r) else node_at c q)"
  by (simp add: node_at_def upd_node_def)

lemma node_at_field [simp]:
  "node_at (c\<lparr>lru_size := n\<rparr>) r = node_at c r" "node_at (c\<lparr>lru_hash := h\<rparr>) r = node_at c r"
  "node_at (c\<lparr>lru_head := x\<rparr>) r = node_at c r" "node_at (c\<lparr>lru_tail := x\<rparr>) r = node_at c r"
  by (simp_all add: node_at_def)

lemma List_add_frame [simp]:
  "lru_maxSize (List_add r c) = lru_maxSize c" "lru_size (List_add r c) = lru_size c"
  "lru_hash (List_add r c) = lru_hash c" "lru_fresh (List_add r c) = lru_fresh c"
  "lru_head (List_add r c) = Some r"
  by (simp_all add: List_add_def Let_def split: option.split)

lemma List_remove_frame [simp]:
  "lru_maxSize (List_remove r c) = lru_maxSize c" "lru_size (List_remove r c) = lru_size c"
  "lru_hash (List_remove r c) = lru_hash c" "lru_fresh (List_remove r c) = lru_fresh c"
  by (simp_all add: List_remove_def Let_def split: option.split)

lemma List_add_tail: "lru_tail (List_add r c) \<noteq> None"
  by (simp add: List_add_def Let_def split: option.split)

text \<open>The list operations change neither the key nor the value of any node.\<close>

lemma List_add_node [simp]:
  "node_key (node_at (List_add r c) q) = node_key (node_at c q)"
  "node_val (node_at (List_add r c) q) = node_val (node_at c q)"
  by (simp_all add: List_add_def Let_def split: option.split)

lemma List_remove_node [simp]:
  "node_key (node_at (List_remove r c) q) = node_key (node_at c q)"
  "node_val (node_at (List_remove r c) q) = node_val (node_at c q)"
  by (simp_all add: List_remove_def Let_def split: option.split)

lemma moveToFront_frame [simp]:
  "lru_maxSize (List_moveToFront r c) = lru_maxSize c"
  "lru_size (List_moveToFront r c) = lru_size c"
  "lru_hash (List_moveToFront r c) = lru_hash c"
  "lru_fresh (List_moveToFront r c) = lru_fresh c"
  "node_key (node_at (List_moveToFront r c) q) = node_key (node_at c q)"
  "node_val (node_at (List_moveToFront r c) q) = node_val (node_at c q)"
  by (simp_all add: List_moveToFront_def)

lemma alloc_Node_frame [simp]:
  "fst (alloc_Node k v c) = lru_fresh c"
  "lru_maxSize (snd (alloc_Node k v c)) = lru_maxSize c"
  "lru_size (snd (alloc_Node k v c)) = lru_size c"
  "lru_hash (snd (alloc_Node k v c)) = lru_hash c"
  "lru_head (snd (alloc_Node k v c)) = lru_head c"
  "lru_tail (snd (alloc_Node k v c)) = lru_tail c"
  "lru_fresh (snd (alloc_Node k v c)) = Suc (lru_fresh c)"
  "node_at (snd (alloc_Node k v c)) q =
     (if q = lru_fresh c then new_Node k v else node_at c q)"
  by (simp_all add: alloc_Node_def node_at_def)

section \<open>The invariant of every history\<close>

text \<open>
  \<open>agrees W c\<close>: whatever the hash still holds is the value last written under that
  key, references in the hash are allocated, a cache with a positive count has a tail, and
  a cache of capacity zero holds nothing.
\<close>

definition agrees :: "(string \<rightharpoonup> 'v) \<Rightarrow> 'v LruCache \<Rightarrow> bool" where
  "agrees W c \<longleftrightarrow>
     (\<forall>k r. lru_hash c k = Some r \<longrightarrow>
        r < lru_fresh c \<and> node_key (node_at c r) = k \<and> W k = Some (node_val (node_at c r))) \<and>
     0 \<le> lru_size c \<and> (lru_tail c = None \<longrightarrow> lru_size c = 0) \<and>
     (lru_maxSize c \<le> 0 \<longrightarrow> lru_hash c = Map.empty)"

lemma agreesI:
  assumes "\<And>k r. lru_hash c k = Some r \<Longrightarrow>
        r < lru_fresh c \<and> node_key (node_at c r) = k \<and> W k = Some (node_val (node_at c r))"
    and "0 \<le> lru_size c" and "lru_tail c \<noteq> None" and "0 < lru_maxSize c"
  shows "agrees W c"
  using assms by (auto simp: agrees_def)

lemma agrees_hashD:
  "agrees W c \<Longrightarrow> lru_hash c k = Some r \<Longrightarrow>
     r < lru_fresh c \<and> node_key (node_at c r) = k \<and> W k = Some (node_val (node_at c r))"
  by (simp add: agrees_def)

lemma agrees_sizeD: "agrees W c \<Longrightarrow> 0 \<le> lru_size c" 
  and agrees_tailD: "agrees W c \<Longrightarrow> lru_size c \<noteq> 0 \<Longrightarrow> lru_tail c \<noteq> None"
  by (auto simp: agrees_def)

lemma agrees_new: "agrees Map.empty (LruCache m)"
  by (simp add: agrees_def LruCache_def LruCache_reset_def)

lemma agrees_reset: "agrees Map.empty (LruCache_reset c)"
  by (simp add: agrees_def LruCache_reset_def)

lemma agrees_moveToFront: "agrees W c \<Longrightarrow> agrees W (List_moveToFront r c)"
  using List_add_tail [of r "List_remove r c"]
  by (auto simp: agrees_def) (auto simp: List_moveToFront_def)

lemma agrees_get: "agrees W c \<Longrightarrow> agrees W (snd (LruCache_get k c))"
  by (auto simp: LruCache_get_def Let_def agrees_moveToFront split: option.split)

text \<open>After the eviction the tail may be gone; the store that follows restores it.\<close>

lemma evict_Inr:
  assumes "agrees W c" "0 < lru_maxSize c"
  obtains c1 where "LruCache_evict c = Inr c1"
    "\<And>k r. lru_hash c1 k = Some r \<Longrightarrow> lru_hash c k = Some r"
    "\<And>r. node_key (node_at c1 r) = node_key (node_at c r)"
    "\<And>r. node_val (node_at c1 r) = node_val (node_at c r)"
    "lru_fresh c1 = lru_fresh c" "lru_size c1 = lru_size c" "lru_maxSize c1 = lru_maxSize c"
proof (cases "lru_size c \<ge> lru_maxSize c")
  case True
  with assms have "lru_size c \<noteq> 0" by simp
  with assms obtain t where "lru_tail c = Some t" using agrees_tailD by fast
  with True show ?thesis
    by (intro that [of "(List_remove t c)\<lparr>lru_hash :=
          (lru_hash c)(node_key (node_at c t) := None)\<rparr>"])
       (auto simp: LruCache_evict_def Let_def split: if_splits)
next
  case False
  then show ?thesis by (intro that [of c]) (auto simp: LruCache_evict_def)
qed

lemma evict_total:
  assumes "agrees W c" "0 < lru_maxSize c"
  shows "\<exists>c1. LruCache_evict c = Inr c1 \<and> lru_maxSize c1 = lru_maxSize c"
  by (rule evict_Inr [OF assms]) simp

lemma agrees_store:
  assumes hash: "\<And>k r. lru_hash c k = Some r \<Longrightarrow>
        r < lru_fresh c \<and> node_key (node_at c r) = k \<and> W k = Some (node_val (node_at c r))"
    and size: "0 \<le> lru_size c" and max: "0 < lru_maxSize c"
  shows "agrees (W(k \<mapsto> v)) (LruCache_store k v c)"
proof (cases "lru_hash c k")
  case None
  let ?c1 = "snd (alloc_Node k v c)"
  have "LruCache_store k v c = (List_add (lru_fresh c) ?c1)
      \<lparr>lru_hash := (lru_hash c)(k \<mapsto> lru_fresh c), lru_size := lru_size c + 1\<rparr>"
    using None by (simp add: LruCache_store_def Let_def case_prod_beta)
  moreover have "lru_tail (List_add (lru_fresh c) ?c1) \<noteq> None" by (rule List_add_tail)
  moreover have "r < Suc (lru_fresh c)" "r \<noteq> lru_fresh c" if "lru_hash c k' = Some r" for k' r
    using hash [OF that] by auto
  ultimately show ?thesis using hash size max
    by (intro agreesI) (auto simp: new_Node_def split: if_splits)
next
  case (Some r)
  let ?c1 = "upd_node r (\<lambda>x. x\<lparr>node_val := v\<rparr>) c"
  have "LruCache_store k v c = List_moveToFront r ?c1"
    using Some by (simp add: LruCache_store_def)
  moreover have "lru_tail (List_moveToFront r ?c1) \<noteq> None"
    by (simp add: List_moveToFront_def List_add_tail)
  moreover have "r' \<noteq> r" if "lru_hash c k' = Some r'" "k' \<noteq> k" for k' r'
    using hash that Some by metis
  ultimately show ?thesis using hash Some size max
    by (intro agreesI) (auto split: if_splits)
qed

lemma set_Inr:
  assumes A: "agrees W c"
  obtains c' where "LruCache_set k v c = Inr c'" "agrees (W(k \<mapsto> v)) c'"
proof (cases "lru_maxSize c \<le> 0")
  case True
  with A show ?thesis by (intro that [of c]) (auto simp: LruCache_set_def agrees_def)
next
  case False
  then have max: "0 < lru_maxSize c" by simp
  from evict_Inr [OF A max] obtain c1 where c1: "LruCache_evict c = Inr c1"
    "\<And>k r. lru_hash c1 k = Some r \<Longrightarrow> lru_hash c k = Some r"
    "\<And>r. node_key (node_at c1 r) = node_key (node_at c r)"
    "\<And>r. node_val (node_at c1 r) = node_val (node_at c r)"
    "lru_fresh c1 = lru_fresh c" "lru_size c1 = lru_size c" "lru_maxSize c1 = lru_maxSize c"
    by blast
  have "agrees (W(k \<mapsto> v)) (LruCache_store k v c1)"
  proof (rule agrees_store)
    fix k r assume "lru_hash c1 k = Some r"
    then show "r < lru_fresh c1 \<and> node_key (node_at c1 r) = k \<and>
        W k = Some (node_val (node_at c1 r))"
      using agrees_hashD [OF A c1(2)] c1(3,4,5) by simp
  qed (use c1 max agrees_sizeD [OF A] in auto)
  with False c1(1) show ?thesis by (intro that) (auto simp: LruCache_set_def)
qed

lemma store_lookup:
  "\<exists>r. lru_hash (LruCache_store k v c) k = Some r \<and>
     node_val (node_at (LruCache_store k v c) r) = v \<and>
     lru_maxSize (LruCache_store k v c) = lru_maxSize c"
  by (cases "lru_hash c k")
     (simp_all add: LruCache_store_def Let_def case_prod_beta new_Node_def)

lemma lru_step_agrees:
  assumes "agrees W c"
  obtains c' where "lru_step (Inr c) e = Inr c'" "agrees (written W e) c'"
proof (cases e)
  case (LSet k v)
  with assms show ?thesis using set_Inr [of W c k v] that by auto
next
  case (LGet k)
  with assms show ?thesis using that agrees_get by auto
next
  case LReset
  with assms show ?thesis using that agrees_reset by auto
qed

lemma lru_run_agrees:
  "agrees W c \<Longrightarrow>
     \<exists>c'. foldl lru_step (Inr c) calls = Inr c' \<and> agrees (foldl written W calls) c'"
proof (induction calls arbitrary: W c)
  case (Cons e calls)
  from lru_step_agrees [OF Cons.prems, of e] obtain c1
    where "lru_step (Inr c) e = Inr c1" "agrees (written W e) c1" by blast
  with Cons.IH [of "written W e" c1] show ?case by simp
qed simp

lemma run_agrees: "lru_run m calls = Inr c \<Longrightarrow> agrees (last_written calls) c"
  using lru_run_agrees [OF agrees_new, of m calls] unfolding lru_run_def last_written_def by simp

section \<open>The list as a chain of references\<close>

text \<open>
  \<open>dll c p rs\<close>: the nodes of \<open>rs\<close> point to each other in that order, the first one's
  \<open>prev\<close> being \<open>p\<close>. \<open>chain c rs\<close>: the cache's list is exactly \<open>rs\<close>.
\<close>

fun first_ref :: "ref list \<Rightarrow> ref option" where
  "first_ref [] = None"
| "first_ref (r # rs) = Some r"

fun last_ref :: "ref list \<Rightarrow> ref option" where
  "last_ref [] = None"
| "last_ref (r # rs) = (if rs = [] then Some r else last_ref rs)"

fun dll :: "'v LruCache \<Rightarrow> ref option \<Rightarrow> ref list \<Rightarrow> bool" where
  "dll c p [] = True"
| "dll c p (r # rs) =
     (node_prev (node_at c r) = p \<and> node_next (node_at c r) = first_ref rs \<and> dll c (Some r) rs)"

definition chain :: "'v LruCache \<Rightarrow> ref list \<Rightarrow> bool" where
  "chain c rs \<longleftrightarrow> distinct rs \<and> (\<forall>r \<in> set rs. r < lru_fresh c) \<and>
     lru_head c = first_ref rs \<and> lru_tail c = last_ref rs \<and> dll c None rs"

lemma last_ref_snoc [simp]: "last_ref (rs @ [r]) = Some r"
  by (induction rs) auto

lemma last_ref_None [simp]: "last_ref rs = None \<longleftrightarrow> rs = []"
  by (induction rs) auto

lemma first_ref_None [simp]: "first_ref rs = None \<longleftrightarrow> rs = []"
  by (cases rs) auto

lemma first_ref_append [simp]:
  "first_ref (xs @ ys) = (case first_ref xs of None \<Rightarrow> first_ref ys | Some r \<Rightarrow> Some r)"
  by (cases xs) auto

lemma dll_cong:
  "(\<And>r. r \<in> set rs \<Longrightarrow> node_at c' r = node_at c r) \<Longrightarrow> dll c' p rs = dll c p rs"
  by (induction rs arbitrary: p) auto

lemma dll_frame [simp]:
  "dll (c\<lparr>lru_hash := h\<rparr>) p rs = dll c p rs" "dll (c\<lparr>lru_size := n\<rparr>) p rs = dll c p rs"
  by (rule dll_cong, simp)+

lemma chain_frame [simp]:
  "chain (c\<lparr>lru_hash := h\<rparr>) rs = chain c rs" "chain (c\<lparr>lru_size := n\<rparr>) rs = chain c rs"
  by (simp_all add: chain_def)

lemma dll_last:
  "dll c p (rs @ [t]) \<Longrightarrow> node_next (node_at c t) = None \<and>
     node_prev (node_at c t) = (if rs = [] then p else last_ref rs)"
  by (induction rs arbitrary: p) auto

lemma dll_cut:
  assumes "dll c p (rs @ [u, t])" and "distinct (rs @ [u, t])"
    and "\<And>r. r \<in> set rs \<Longrightarrow> node_at c' r = node_at c r"
    and "node_at c' u = (node_at c u)\<lparr>node_next := None\<rparr>"
  shows "dll c' p (rs @ [u])"
  using assms by (induction rs arbitrary: p) (auto split: option.splits)

lemma chain_add:
  assumes C: "chain c rs" and n: "n \<notin> set rs" "n < lru_fresh c"
    and nd: "node_prev (node_at c n) = None" "node_next (node_at c n) = None"
  shows "chain (List_add n c) (n # rs)"
proof (cases rs)
  case Nil
  with assms show ?thesis by (auto simp: chain_def List_add_def)
next
  case (Cons h hs)
  let ?c = "upd_node h (\<lambda>x. x\<lparr>node_prev := Some n\<rparr>)
              (upd_node n (\<lambda>x. x\<lparr>node_next := Some h\<rparr>) c)"
  let ?d = "?c\<lparr>lru_head := Some n, lru_tail := last_ref rs\<rparr>"
  have eq: "List_add n c = ?d"
    using C Cons by (auto simp: chain_def List_add_def Let_def split: option.split)
  have "node_at ?d r = node_at c r" if "r \<in> set hs" for r
    using that C n Cons by (auto simp: chain_def)
  then have "dll ?d (Some h) hs = dll c (Some h) hs" by (rule dll_cong)
  with assms Cons show ?thesis by (auto simp: eq chain_def)
qed

lemma chain_remove_last:
  assumes C: "chain c (rs @ [t])"
  shows "chain (List_remove t c) rs"
proof (cases rs rule: rev_cases)
  case Nil
  with C show ?thesis by (simp add: chain_def List_remove_def)
next
  case (snoc us u)
  from C have t: "node_next (node_at c t) = None" "node_prev (node_at c t) = Some u" "u \<noteq> t"
    using dll_last [of c None rs t] snoc by (auto simp: chain_def)
  let ?d = "(upd_node u (\<lambda>x. x\<lparr>node_next := None\<rparr>) c)\<lparr>lru_tail := Some u\<rparr>"
  have eq: "List_remove t c = ?d"
    using t by (auto simp: List_remove_def Let_def split: option.split)
  have "dll ?d None (us @ [u])"
    using C snoc by (intro dll_cut [of c]) (auto simp: chain_def)
  with C snoc show ?thesis by (auto simp: eq chain_def split: option.splits)
qed

text \<open>
  \<open>fifo c ks\<close>: the cache holds exactly the keys \<open>ks\<close>, newest first, and the counter
  is exact below capacity.
\<close>

definition fifo :: "'v LruCache \<Rightarrow> string list \<Rightarrow> bool" where
  "fifo c ks \<longleftrightarrow>
     (\<exists>rs. chain c rs \<and> map (\<lambda>r. node_key (node_at c r)) rs = ks \<and> distinct ks \<and>
        (\<forall>k r. lru_hash c k = Some r \<longleftrightarrow> r \<in> set rs \<and> node_key (node_at c r) = k)) \<and>
     0 < lru_maxSize c \<and>
     (if lru_size c < lru_maxSize c then lru_size c = int (length ks)
      else int (length ks) = lru_maxSize c)"

lemma fifo_dom: "fifo c ks \<Longrightarrow> dom (lru_hash c) = set ks"
  unfolding fifo_def by (auto simp: dom_def)

lemma chain_alloc:
  "chain c rs \<Longrightarrow> chain (snd (alloc_Node k v c)) rs"
proof -
  assume C: "chain c rs"
  then have "dll (snd (alloc_Node k v c)) None rs = dll c None rs"
    by (intro dll_cong) (auto simp: chain_def)
  with C show ?thesis by (auto simp: chain_def)
qed

lemma fifo_store:
  fixes c :: "'v LruCache" and v :: 'v
  assumes C: "chain c rs" and k: "k \<notin> dom (lru_hash c)"
    and H: "\<And>k r. lru_hash c k = Some r \<longleftrightarrow> r \<in> set rs \<and> node_key (node_at c r) = k"
  defines "c' \<equiv> LruCache_store k v c"
  shows "chain c' (lru_fresh c # rs)"
    and "map (\<lambda>r. node_key (node_at c' r)) (lru_fresh c # rs) =
           k # map (\<lambda>r. node_key (node_at c r)) rs"
    and "lru_hash c' k' = Some r \<longleftrightarrow> r \<in> set (lru_fresh c # rs) \<and> node_key (node_at c' r) = k'"
    and "lru_size c' = lru_size c + 1" and "lru_maxSize c' = lru_maxSize c"
proof -
  let ?n = "lru_fresh c"
  let ?c1 = "snd (alloc_Node k v c)"
  have eq: "c' = (List_add ?n ?c1)\<lparr>lru_hash := (lru_hash c)(k \<mapsto> ?n), lru_size := lru_size c + 1\<rparr>"
    using k by (auto simp: c'_def LruCache_store_def Let_def case_prod_beta dom_def)
  have fresh: "?n \<notin> set rs" using C by (auto simp: chain_def)
  have "chain (List_add ?n ?c1) (?n # rs)"
    using C fresh by (intro chain_add chain_alloc) (auto simp: new_Node_def)
  then show "chain c' (?n # rs)" by (simp add: eq)
  show "map (\<lambda>r. node_key (node_at c' r)) (?n # rs) = k # map (\<lambda>r. node_key (node_at c r)) rs"
    using fresh by (auto simp: eq new_Node_def)
  show "lru_hash c' k' = Some r \<longleftrightarrow> r \<in> set (?n # rs) \<and> node_key (node_at c' r) = k'"
    using fresh H k by (auto simp: eq new_Node_def)
  show "lru_size c' = lru_size c + 1" "lru_maxSize c' = lru_maxSize c"
    by (simp_all add: eq)
qed

text \<open>Storing a new key drops the oldest one when the cache is at capacity.\<close>

lemma fifo_set:
  assumes F: "fifo c ks" and k: "k \<notin> set ks"
  shows "\<exists>c'. LruCache_set k v c = Inr c' \<and> lru_maxSize c' = lru_maxSize c \<and>
           fifo c' (take (nat (lru_maxSize c)) (k # ks))"
proof -
  from F obtain rs where C: "chain c rs" and ks: "map (\<lambda>r. node_key (node_at c r)) rs = ks"
    and H: "\<And>k r. lru_hash c k = Some r \<longleftrightarrow> r \<in> set rs \<and> node_key (node_at c r) = k"
    and dk: "distinct ks" and max: "0 < lru_maxSize c"
    and sz: "if lru_size c < lru_maxSize c then lru_size c = int (length ks)
             else int (length ks) = lru_maxSize c"
    by (auto simp: fifo_def)
  have dom: "k \<notin> dom (lru_hash c)" using fifo_dom [OF F] k by simp
  show ?thesis
  proof (cases "lru_size c < lru_maxSize c")
    case True
    let ?c = "LruCache_store k v c"
    note st = fifo_store [OF C dom H, of v]
    have "take (nat (lru_maxSize c)) (k # ks) = k # ks" using True sz by simp
    moreover have "fifo ?c (k # ks)"
      unfolding fifo_def using True sz k dk max st ks
      by (intro conjI exI [of _ "lru_fresh c # rs"]) auto
    ultimately show ?thesis using True max st by (auto simp: LruCache_set_def LruCache_evict_def)
  next
    case False
    with sz max have "ks \<noteq> []" by auto
    then obtain us t where rs: "rs = us @ [t]" using ks by (cases rs rule: rev_cases) auto
    define c1 where "c1 = (List_remove t c)\<lparr>lru_hash :=
        (lru_hash c)(node_key (node_at c t) := None)\<rparr>"
    let ?us = "map (\<lambda>r. node_key (node_at c r)) us"
    have ks': "ks = ?us @ [node_key (node_at c t)]" using ks rs by simp
    have evict: "LruCache_evict c = Inr c1"
      using False C rs by (simp add: LruCache_evict_def chain_def c1_def Let_def)
    have C1: "chain c1 us" using C rs by (simp add: c1_def chain_remove_last)
    have nt: "node_key (node_at c r) \<noteq> node_key (node_at c t)" if "r \<in> set us" for r
      using dk [unfolded ks'] that by (metis (no_types, lifting) disjoint_iff distinct_append
          image_eqI list.set_intros(1) set_map)
    have H1: "lru_hash c1 k' = Some r \<longleftrightarrow> r \<in> set us \<and> node_key (node_at c1 r) = k'" for k' r
      using H nt rs by (auto simp: c1_def)
    have dom1: "k \<notin> dom (lru_hash c1)" using dom by (auto simp: c1_def dom_def)
    note st = fifo_store [OF C1 dom1 H1, of v]
    have "take (nat (lru_maxSize c)) (k # ks) = k # ?us"
      using False sz ks' by (auto simp: nat_eq_iff take_Cons' length_Suc_conv)
    moreover have "fifo (LruCache_store k v c1) (k # ?us)"
      unfolding fifo_def using False sz k dk max st ks'
      by (intro conjI exI [of _ "lru_fresh c1 # us"]) (auto simp: c1_def)
    ultimately show ?thesis
      using max st evict by (auto simp: LruCache_set_def c1_def)
  qed
qed

lemma fifo_new: "0 < n \<Longrightarrow> fifo (LruCache (Some n)) []"
  by (auto simp: fifo_def LruCache_def LruCache_reset_def chain_def)

lemma fifo_run:
  assumes "fifo c ks" "lru_maxSize c = int n" "distinct (map fst kvs)" "set (map fst kvs) \<inter> set js = {}"
    and "ks = take n js"
  shows "\<exists>c'. foldl lru_step (Inr c) (map (\<lambda>(k, v). LSet k v) kvs) = Inr c' \<and>
           fifo c' (take n (rev (map fst kvs) @ js))"
  using assms
proof (induction kvs arbitrary: c ks js)
  case (Cons kv kvs)
  obtain k v where kv: "kv = (k, v)" by force
  have k: "k \<notin> set ks" using Cons.prems kv by (auto dest: in_set_takeD)
  have tk: "take n (k # ks) = take n (k # js)" using Cons.prems(5) by (cases n) auto
  from fifo_set [OF Cons.prems(1) k, of v] obtain c1 where c1: "LruCache_set k v c = Inr c1"
      "lru_maxSize c1 = int n" "fifo c1 (take n (k # js))"
    using Cons.prems(2) tk by auto
  have "\<exists>c'. foldl lru_step (Inr c1) (map (\<lambda>(k, v). LSet k v) kvs) = Inr c' \<and>
          fifo c' (take n (rev (map fst kvs) @ (k # js)))"
    by (rule Cons.IH [OF c1(3) c1(2)]) (use Cons.prems kv in auto)
  with kv c1(1) show ?case by simp
qed auto

section \<open>A corrupted list\<close>

text \<open>
  \<open>stuck c t\<close>: the tail node points to itself in both directions and is not in the
  hash, and it is not the head. Removing it changes nothing, so the eviction no longer
  frees anything.
\<close>

definition stuck :: "'v LruCache \<Rightarrow> ref \<Rightarrow> bool" where
  "stuck c t \<longleftrightarrow> lru_tail c = Some t \<and> t < lru_fresh c \<and>
     node_prev (node_at c t) = Some t \<and> node_next (node_at c t) = Some t \<and>
     lru_head c \<noteq> None \<and> lru_head c \<noteq> Some t \<and>
     0 < lru_maxSize c \<and> lru_maxSize c \<le> lru_size c"

lemma stuck_set:
  assumes S: "stuck c t" and k: "lru_hash c k = None" and kt: "k \<noteq> node_key (node_at c t)"
  shows "\<exists>c'. LruCache_set k v c = Inr c' \<and> stuck c' t \<and>
     node_key (node_at c' t) = node_key (node_at c t) \<and>
     dom (lru_hash c') = insert k (dom (lru_hash c) - {node_key (node_at c t)})"
proof -
  from S obtain h where h: "lru_head c = Some h" "h \<noteq> t" by (auto simp: stuck_def)
  define c1 where "c1 = (List_remove t c)\<lparr>lru_hash :=
        (lru_hash c)(node_key (node_at c t) := None)\<rparr>"
  have rm: "node_at (List_remove t c) r = node_at c r" "lru_tail (List_remove t c) = Some t"
    "lru_head (List_remove t c) = lru_head c" for r
    using S by (auto simp: stuck_def List_remove_def Let_def)
  have c1 [simp]: "lru_hash c1 = (lru_hash c)(node_key (node_at c t) := None)"
    "lru_fresh c1 = lru_fresh c" "lru_maxSize c1 = lru_maxSize c" "lru_size c1 = lru_size c"
    by (simp_all add: c1_def)
  have ev: "LruCache_evict c = Inr c1"
    using S by (simp add: stuck_def LruCache_evict_def c1_def Let_def)
  let ?n = "lru_fresh c"
  let ?a = "List_add ?n (snd (alloc_Node k v c1))"
  have st: "LruCache_store k v c1 =
      ?a\<lparr>lru_hash := (lru_hash c1)(k \<mapsto> ?n), lru_size := lru_size c + 1\<rparr>"
    using k by (simp add: LruCache_store_def Let_def case_prod_beta)
  have "node_at ?a t = node_at c t" "lru_tail ?a = Some t"
    using S h rm by (auto simp: stuck_def List_add_def c1_def)
  with S have "stuck (LruCache_store k v c1) t"
    by (auto simp: st stuck_def)
  moreover have "dom (lru_hash (LruCache_store k v c1)) =
      insert k (dom (lru_hash c) - {node_key (node_at c t)})"
    by (auto simp: st)
  moreover have "node_key (node_at (LruCache_store k v c1) t) = node_key (node_at c t)"
    using \<open>node_at ?a t = node_at c t\<close> by (simp add: st)
  ultimately show ?thesis
    using S ev by (auto simp: LruCache_set_def stuck_def)
qed

lemma stuck_run:
  assumes "stuck c t" "distinct ks" "set ks \<inter> dom (lru_hash c) = {}"
    "node_key (node_at c t) \<notin> set ks"
  shows "\<exists>c'. foldl lru_step (Inr c) (map (\<lambda>k. LSet k v) ks) = Inr c' \<and>
           dom (lru_hash c) - {node_key (node_at c t)} \<union> set ks \<subseteq> dom (lru_hash c')"
  using assms
proof (induction ks arbitrary: c)
  case (Cons k ks)
  have "lru_hash c k = None" "k \<noteq> node_key (node_at c t)" using Cons.prems by auto
  from stuck_set [OF Cons.prems(1) this, of v] obtain c1 where c1: "LruCache_set k v c = Inr c1"
      "stuck c1 t" "node_key (node_at c1 t) = node_key (node_at c t)"
      "dom (lru_hash c1) = insert k (dom (lru_hash c) - {node_key (node_at c t)})"
    by auto
  have "\<exists>c'. foldl lru_step (Inr c1) (map (\<lambda>k. LSet k v) ks) = Inr c' \<and>
           dom (lru_hash c1) - {node_key (node_at c1 t)} \<union> set ks \<subseteq> dom (lru_hash c')"
    by (rule Cons.IH) (use Cons.prems c1 in auto)
  with c1 Cons.prems show ?case by auto
qed auto

text \<open>Two reads of the older of two entries corrupt the list.\<close>

definition two_reads :: "string \<Rightarrow> string \<Rightarrow> 'v \<Rightarrow> 'v lru_call list" where
  "two_reads a b v = [LSet a v, LSet b v, LGet a, LGet a]"

lemmas lru_eval =
  LruCache_def LruCache_reset_def LruCache_set_def LruCache_evict_def LruCache_store_def
  LruCache_get_def alloc_Node_def new_Node_def List_add_def List_remove_def
  List_moveToFront_def upd_node_def node_at_def Let_def

lemma two_reads_stuck:
  assumes "a \<noteq> b"
  shows "\<exists>c. lru_run (Some 2) (two_reads a b v) = Inr c \<and> stuck c 1 \<and>
           node_key (node_at c 1) = b \<and> dom (lru_hash c) = {a, b}"
  using assms by (auto simp: lru_run_def two_reads_def stuck_def lru_eval)

section \<open>The cache as a provider of responses\<close>

interpretation lru: response_cache LruCache_get LruCache_set agrees
proof unfold_locales
  fix W and c :: "'a LruCache" and k :: string and v :: 'a
  assume A: "agrees W c"
  show "\<exists>c'. LruCache_set k v c = Inr c' \<and> agrees (W(k \<mapsto> v)) c'"
    using set_Inr [OF A, of k v] by blast
  show "agrees W (snd (LruCache_get k c))" using A by (rule agrees_get)
  show "W k = Some w" if "fst (LruCache_get k c) = Some w" for w
    using that agrees_hashD [OF A]
    by (auto simp: LruCache_get_def Let_def split: option.splits if_splits)
qed

section \<open>Properties\<close>

text \<open>
  C6: A cache never fails and never lies: after any history of \<open>set\<close>, \<open>get\<close> and
  \<open>reset\<close> calls on a new cache of any capacity no \<open>TypeError\<close> was raised, and a
  \<open>get\<close> that answers returns the value last written under that key since the last reset.
\<close>

theorem lru_sound:
  "\<exists>c. lru_run m calls = Inr c \<and>
     (\<forall>k v. fst (LruCache_get k c) = Some v \<longrightarrow> last_written calls k = Some v)"
proof -
  obtain c where c: "lru_run m calls = Inr c" "agrees (last_written calls) c"
    using lru_run_agrees [OF agrees_new] unfolding lru_run_def last_written_def by blast
  have "last_written calls k = Some v" if "fst (LruCache_get k c) = Some v" for k v
    using c(2) that by (rule lru.get_sound)
  with c(1) show ?thesis by blast
qed

theorem lru_sound_witness:
  "\<exists>c. lru_run (Some 2) [LSet ''q=a'' (7::int), LGet ''q=a''] = Inr c \<and>
     (\<forall>k v. fst (LruCache_get k c) = Some v \<longrightarrow>
        last_written [LSet ''q=a'' (7::int), LGet ''q=a''] k = Some v)"
  by (rule lru_sound)

text \<open>
  A value just stored is found: on a cache of positive capacity, in whatever state a
  history left it, \<open>set\<close> succeeds and the next \<open>get\<close> of that key returns the value.
\<close>

lemma lru_get_after_set:
  assumes "lru_run m calls = Inr c" and "0 < lru_maxSize c"
  shows "\<exists>c'. LruCache_set k v c = Inr c' \<and> fst (LruCache_get k c') = Some v"
proof -
  have A: "agrees (last_written calls) c" using assms(1) by (rule run_agrees)
  obtain c1 where c1: "LruCache_evict c = Inr c1" and max: "lru_maxSize c1 = lru_maxSize c"
    using evict_total [OF A assms(2)] by blast
  obtain r where "lru_hash (LruCache_store k v c1) k = Some r"
      "node_val (node_at (LruCache_store k v c1) r) = v"
      "lru_maxSize (LruCache_store k v c1) = lru_maxSize c"
    using store_lookup [of k v c1] max by auto
  then show ?thesis
    using c1 assms(2) by (auto simp: LruCache_set_def LruCache_get_def Let_def)
qed

text \<open>
  C7: The capacity bound where it holds: a cache of capacity n that is only written, each
  key once, holds exactly the n newest keys.
\<close>

theorem lru_keeps_newest:
  assumes "distinct (map fst kvs)" and "0 < n"
  shows "\<exists>c. lru_run (Some (int n)) (map (\<lambda>(k, v). LSet k v) kvs) = Inr c \<and>
           dom (lru_hash c) = set (take n (rev (map fst kvs)))"
proof -
  have "fifo (LruCache (Some (int n)) :: 'a LruCache) []" using assms(2) by (intro fifo_new) simp
  moreover have "lru_maxSize (LruCache (Some (int n)) :: 'a LruCache) = int n"
    by (simp add: LruCache_def LruCache_reset_def)
  ultimately obtain c where "lru_run (Some (int n)) (map (\<lambda>(k, v). LSet k v) kvs) = Inr c"
      "fifo c (take n (rev (map fst kvs) @ []))"
    using fifo_run [of "LruCache (Some (int n))" "[]" n kvs "[]"] assms(1)
    by (auto simp: lru_run_def)
  then show ?thesis using fifo_dom by fastforce
qed

theorem lru_keeps_newest_witness:
  "\<exists>c. lru_run (Some (int 2)) [LSet ''a'' (1::int), LSet ''b'' 2, LSet ''c'' 3] = Inr c \<and>
     dom (lru_hash c) = {''c'', ''b''}"
  using lru_keeps_newest [of "[(''a'', 1::int), (''b'', 2), (''c'', 3)]" 2] by simp

text \<open>
  C8: The capacity bound fails in general: \<open>moveToFront\<close> leaves the \<open>prev\<close> field of the
  moved node in place, so reading the older of two entries twice ties the tail to itself;
  from then on evictions free nothing and a cache of capacity 2 holds every new key ever
  written.
\<close>

theorem lru_two_reads_unbounded:
  assumes "a \<noteq> b" and "distinct ks" and "a \<notin> set ks" and "b \<notin> set ks"
  shows "\<exists>c. lru_run (Some 2) (two_reads a b v @ map (\<lambda>k. LSet k v) ks) = Inr c \<and>
           set ks \<subseteq> dom (lru_hash c)"
proof -
  from two_reads_stuck [OF assms(1), of v] obtain c where
    c: "lru_run (Some 2) (two_reads a b v) = Inr c" "stuck c 1" "node_key (node_at c 1) = b"
      "dom (lru_hash c) = {a, b}" by blast
  then have "\<exists>c'. foldl lru_step (Inr c) (map (\<lambda>k. LSet k v) ks) = Inr c' \<and>
      dom (lru_hash c) - {node_key (node_at c 1)} \<union> set ks \<subseteq> dom (lru_hash c')"
    using assms by (intro stuck_run) auto
  with c(1) show ?thesis by (auto simp: lru_run_def)
qed

theorem lru_two_reads_unbounded_witness:
  "\<exists>c. lru_run (Some 2) (two_reads ''a'' ''b'' (0::int) @
       map (\<lambda>k. LSet k 0) [''c'', ''d'', ''e'']) = Inr c \<and>
     set [''c'', ''d'', ''e''] \<subseteq> dom (lru_hash c)"
  by (rule lru_two_reads_unbounded) simp_all

end
