(* ===== verification/Search_Index.thy ===== *)
theory Search_Index
  imports Js_Prelude "HOL-Library.Sublist"
begin

text \<open>
  The prefix index of the suggestion engine (\<open>tokenizers\<close>, \<open>SearchIndex\<close> and the
  merging part of \<open>Bloodhound\<close> in \<open>typeahead.bundle.js\<close>): tokenizers, a trie of
  datum identifiers, the intersection of posting lists, and the backfill of remote
  matches. The main result is that a query returns exactly the data that have, for each
  token of the query, a token starting with it.
\<close>

section \<open>Tokenizers\<close>

text \<open>\<open>undefined\<close> and \<open>null\<close> are \<open>None\<close>; the empty string is falsy.\<close>

definition toStr :: "string option \<Rightarrow> string" where
  "toStr s = (case s of None \<Rightarrow> [] | Some x \<Rightarrow> x)"

definition whitespace :: "string option \<Rightarrow> string list" where
  "whitespace s = (let str = toStr s in if str \<noteq> [] then split_runs is_js_space str else [])"

definition nonword :: "string option \<Rightarrow> string list" where
  "nonword s = (let str = toStr s in if str \<noteq> [] then split_runs (\<lambda>c. \<not> is_js_word c) str else [])"

definition getObjTokenizer ::
  "(string option \<Rightarrow> string list) \<Rightarrow> string list \<Rightarrow> (string \<rightharpoonup> string) \<Rightarrow> string list" where
  "getObjTokenizer tokenizer args obj =
     foldl (\<lambda>tokens k. tokens @ tokenizer (Some (toStr (obj k)))) [] args"

definition normalizeTokens :: "string list \<Rightarrow> string list" where
  "normalizeTokens tokens = map js_lower (filter (\<lambda>t. t \<noteq> []) tokens)"

definition isBlankString :: "string option \<Rightarrow> bool" where
  "isBlankString s = (case s of None \<Rightarrow> True | Some x \<Rightarrow> x = [] \<or> list_all is_js_space x)"

section \<open>The trie and the index\<close>

datatype trie = Trie (ids: "nat list") (children: "char \<rightharpoonup> trie")

definition newNode :: trie where
  "newNode = Trie [] Map.empty"

fun push_id :: "nat \<Rightarrow> trie \<Rightarrow> trie" where
  "push_id i (Trie is ch) = Trie (is @ [i]) ch"

text \<open>The inner loop of \<open>add\<close>: descend along the token, creating nodes, recording the id.\<close>

fun trie_add :: "nat \<Rightarrow> string \<Rightarrow> trie \<Rightarrow> trie" where
  "trie_add i [] t = t"
| "trie_add i (c # cs) (Trie is ch) =
     (let node = (case ch c of Some n \<Rightarrow> n | None \<Rightarrow> newNode)
      in Trie is (ch(c \<mapsto> trie_add i cs (push_id i node))))"

text \<open>The descent of \<open>get\<close>: \<open>None\<close> is an \<open>undefined\<close> node.\<close>

fun trie_find :: "string \<Rightarrow> trie \<Rightarrow> trie option" where
  "trie_find [] t = Some t"
| "trie_find (c # cs) (Trie is ch) = (case ch c of None \<Rightarrow> None | Some n \<Rightarrow> trie_find cs n)"

record 'd SearchIndex =
  datumTokenizer :: "'d \<Rightarrow> string list"
  queryTokenizer :: "string \<Rightarrow> string list"
  datums :: "'d list"
  index_trie :: trie

definition SearchIndex_reset :: "'d SearchIndex \<Rightarrow> 'd SearchIndex" where
  "SearchIndex_reset si = si\<lparr>datums := [], index_trie := newNode\<rparr>"

definition new_SearchIndex ::
  "('d \<Rightarrow> string list) option \<Rightarrow> (string \<Rightarrow> string list) option \<Rightarrow> 'd SearchIndex js" where
  "new_SearchIndex dt qt =
     (case (dt, qt) of
        (Some d, Some q) \<Rightarrow> Inr (SearchIndex_reset
            \<lparr>datumTokenizer = d, queryTokenizer = q, datums = [], index_trie = newNode\<rparr>)
      | _ \<Rightarrow> Inl (JsError ''datumTokenizer and queryTokenizer are both required''))"

definition SearchIndex_add1 :: "'d SearchIndex \<Rightarrow> 'd \<Rightarrow> 'd SearchIndex" where
  "SearchIndex_add1 si datum =
     (let ds = datums si @ [datum];
          i = length ds - 1;
          tokens = normalizeTokens (datumTokenizer si datum)
      in si\<lparr>datums := ds,
            index_trie := foldl (\<lambda>t token. trie_add i token t) (index_trie si) tokens\<rparr>)"

definition SearchIndex_add :: "'d list \<Rightarrow> 'd SearchIndex \<Rightarrow> 'd SearchIndex" where
  "SearchIndex_add data si = foldl SearchIndex_add1 si data"

definition SearchIndex_serialize :: "'d SearchIndex \<Rightarrow> 'd list \<times> trie" where
  "SearchIndex_serialize si = (datums si, index_trie si)"

definition SearchIndex_bootstrap :: "'d list \<times> trie \<Rightarrow> 'd SearchIndex \<Rightarrow> 'd SearchIndex" where
  "SearchIndex_bootstrap o' si = si\<lparr>datums := fst o', index_trie := snd o'\<rparr>"

text \<open>
  \<open>getIntersection\<close> sorts both posting lists and merges them; the two index variables are
  the heads of the remaining lists.
\<close>

fun intersect_loop :: "nat list \<Rightarrow> nat list \<Rightarrow> nat list" where
  "intersect_loop (a # as) (b # bs) =
     (if a < b then intersect_loop as (b # bs)
      else if a > b then intersect_loop (a # as) bs
      else a # intersect_loop as bs)"
| "intersect_loop as bs = []"

definition getIntersection :: "nat list \<Rightarrow> nat list \<Rightarrow> nat list" where
  "getIntersection as bs = intersect_loop (sort as) (sort bs)"

fun unique_loop :: "nat set \<Rightarrow> nat list \<Rightarrow> nat list" where
  "unique_loop seen [] = []"
| "unique_loop seen (x # xs) =
     (if x \<in> seen then unique_loop seen xs else x # unique_loop (insert x seen) xs)"

definition unique :: "nat list \<Rightarrow> nat list" where
  "unique xs = unique_loop {} xs"

text \<open>
  The loop over the query's tokens; \<open>matches\<close> is \<open>None\<close> while undefined. An empty
  list of matches and a missing node both end the loop.
\<close>

fun match_tokens :: "trie \<Rightarrow> nat list option \<Rightarrow> string list \<Rightarrow> nat list option" where
  "match_tokens t matches [] = matches"
| "match_tokens t matches (token # tokens) =
     (if matches = Some [] then matches
      else (case trie_find token t of
              Some node \<Rightarrow>
                match_tokens t
                  (Some (case matches of Some m \<Rightarrow> getIntersection m (ids node) | None \<Rightarrow> ids node))
                  tokens
            | None \<Rightarrow> Some []))"

definition SearchIndex_get :: "string \<Rightarrow> 'd SearchIndex \<Rightarrow> 'd list" where
  "SearchIndex_get query si =
     (case match_tokens (index_trie si) None (normalizeTokens (queryTokenizer si query)) of
        Some matches \<Rightarrow>
          List.map_filter (\<lambda>i. if i < length (datums si) then Some (datums si ! i) else None)
            (unique matches)
      | None \<Rightarrow> [])"

section \<open>Posting lists\<close>

definition ids_at :: "trie \<Rightarrow> string \<Rightarrow> nat list" where
  "ids_at t p = (case trie_find p t of None \<Rightarrow> [] | Some n \<Rightarrow> ids n)"

lemma trie_find_newNode [simp]: "trie_find p newNode = (if p = [] then Some newNode else None)"
  by (cases p) (auto simp: newNode_def)

lemma ids_newNode [simp]: "ids newNode = []" "children newNode = Map.empty"
  by (simp_all add: newNode_def)

lemma trie_find_push: "p \<noteq> [] \<Longrightarrow> trie_find p (push_id i t) = trie_find p t"
  by (cases p; cases t) auto

lemma ids_push [simp]: "ids (push_id i t) = ids t @ [i]"
  by (cases t) auto

lemma ids_trie_add [simp]: "ids (trie_add i s t) = ids t"
  by (cases s; cases t) (auto simp: Let_def)

text \<open>Adding a token appends the id to the posting list of each of its nonempty prefixes.\<close>

lemma ids_at_add:
  "p \<noteq> [] \<Longrightarrow> ids_at (trie_add i s t) p = ids_at t p @ (if prefix p s then [i] else [])"
proof (induction i s t arbitrary: p rule: trie_add.induct)
  case (1 i t)
  then show ?case by simp
next
  case (2 i c cs js ch)
  obtain d ds where p: "p = d # ds" using 2(2) by (cases p) auto
  let ?n = "case ch c of Some n \<Rightarrow> n | None \<Rightarrow> newNode"
  show ?case
  proof (cases "d = c \<and> ds \<noteq> []")
    case True
    then have "ids_at (trie_add i cs (push_id i ?n)) ds =
        ids_at (push_id i ?n) ds @ (if prefix ds cs then [i] else [])"
      using 2(1) [of ?n ds] by simp
    moreover have "ids_at (push_id i ?n) ds = ids_at ?n ds"
      using True by (simp add: ids_at_def trie_find_push)
    ultimately show ?thesis using p True
      by (auto simp: ids_at_def Let_def split: option.splits)
  next
    case False
    then show ?thesis using p by (auto simp: ids_at_def Let_def split: option.splits)
  qed
qed

lemma ids_at_tokens:
  "p \<noteq> [] \<Longrightarrow> ids_at (foldl (\<lambda>t token. trie_add i token t) t tokens) p =
     ids_at t p @ replicate (length (filter (prefix p) tokens)) i"
  by (induction tokens arbitrary: t)
     (auto simp: ids_at_add replicate_append_same [symmetric])

text \<open>The posting list of a prefix after adding a list of data.\<close>

definition postings :: "('d \<Rightarrow> string list) \<Rightarrow> 'd list \<Rightarrow> string \<Rightarrow> nat list" where
  "postings tok ds p =
     concat (map (\<lambda>i. replicate (length (filter (prefix p) (normalizeTokens (tok (ds ! i))))) i)
              [0..<length ds])"

lemma postings_snoc:
  "postings tok (ds @ [d]) p =
     postings tok ds p @ replicate (length (filter (prefix p) (normalizeTokens (tok d)))) (length ds)"
  by (simp add: postings_def nth_append) (rule arg_cong [where f = concat], simp)

lemma set_postings:
  "set (postings tok ds p) =
     {i. i < length ds \<and> (\<exists>s \<in> set (normalizeTokens (tok (ds ! i))). prefix p s)}"
  by (auto simp: postings_def filter_empty_conv)

lemma sorted_concat_replicate: "sorted (concat (map (\<lambda>i. replicate (f i) i) [0..<n]))"
  by (induction n) (auto simp: sorted_append)

lemma sorted_postings: "sorted (postings tok ds p)"
  unfolding postings_def by (rule sorted_concat_replicate)

text \<open>The invariant that ties the trie to the data.\<close>

definition index_inv :: "'d SearchIndex \<Rightarrow> bool" where
  "index_inv si \<longleftrightarrow>
     (\<forall>p. p \<noteq> [] \<longrightarrow> ids_at (index_trie si) p = postings (datumTokenizer si) (datums si) p)"

lemma index_inv_reset: "index_inv (SearchIndex_reset si)"
  by (auto simp: index_inv_def SearchIndex_reset_def ids_at_def postings_def)

lemma index_inv_add1: "index_inv si \<Longrightarrow> index_inv (SearchIndex_add1 si d)"
  by (auto simp: index_inv_def SearchIndex_add1_def Let_def ids_at_tokens postings_snoc)

interpretation index: step_invariant SearchIndex_add1 index_inv
  by unfold_locales (rule index_inv_add1)

lemma add_frame [simp]:
  "datums (SearchIndex_add data si) = datums si @ data"
  "datumTokenizer (SearchIndex_add data si) = datumTokenizer si"
  "queryTokenizer (SearchIndex_add data si) = queryTokenizer si"
  unfolding SearchIndex_add_def
  by (induction data arbitrary: si) (simp_all add: SearchIndex_add1_def Let_def)

section \<open>Intersection and duplicates\<close>

lemma set_intersect_loop:
  "sorted as \<Longrightarrow> sorted bs \<Longrightarrow> set (intersect_loop as bs) = set as \<inter> set bs"
  by (induction as bs rule: intersect_loop.induct) auto

lemma intersect_loop_subset: "set (intersect_loop as bs) \<subseteq> set as"
  by (induction as bs rule: intersect_loop.induct) auto

lemma sorted_intersect_loop: "sorted as \<Longrightarrow> sorted (intersect_loop as bs)"
proof (induction as bs rule: intersect_loop.induct)
  case (1 a as b bs)
  then show ?case using intersect_loop_subset [of as bs] by auto
qed auto

lemma set_getIntersection [simp]: "set (getIntersection as bs) = set as \<inter> set bs"
  by (simp add: getIntersection_def set_intersect_loop)

lemma sorted_getIntersection: "sorted (getIntersection as bs)"
  by (simp add: getIntersection_def sorted_intersect_loop)

lemma set_unique_loop: "set (unique_loop S xs) = set xs - S"
  by (induction xs arbitrary: S) auto

lemma distinct_unique_loop: "distinct (unique_loop S xs)"
  by (induction xs arbitrary: S) (auto simp: set_unique_loop)

lemma sorted_unique_loop: "sorted xs \<Longrightarrow> sorted (unique_loop S xs)"
  by (induction xs arbitrary: S) (auto simp: set_unique_loop)

lemma unique_sorted: "sorted xs \<Longrightarrow> unique xs = sorted_list_of_set (set xs)"
  unfolding unique_def
  by (rule sorted_distinct_set_unique)
     (auto simp: set_unique_loop distinct_unique_loop sorted_unique_loop)

section \<open>Queries\<close>

lemma match_tokens_Some:
  assumes "\<And>t. t \<in> set ts \<Longrightarrow> t \<noteq> []" and "sorted m"
  shows "\<exists>r. match_tokens tr (Some m) ts = Some r \<and> sorted r \<and>
           set r = {i \<in> set m. \<forall>t \<in> set ts. i \<in> set (ids_at tr t)}"
  using assms
proof (induction ts arbitrary: m)
  case (Cons t ts)
  show ?case
  proof (cases "m = [] \<or> trie_find t tr = None")
    case True
    then show ?thesis by (auto simp: ids_at_def)
  next
    case False
    then obtain n where n: "trie_find t tr = Some n" "m \<noteq> []" by auto
    with Cons.IH [of "getIntersection m (ids n)"] Cons.prems sorted_getIntersection
    show ?thesis by (fastforce simp: ids_at_def)
  qed
qed auto

lemma match_tokens_None:
  assumes "\<And>t. t \<in> set ts \<Longrightarrow> t \<noteq> []" and "ts \<noteq> []"
    and sorted: "\<And>t. t \<noteq> [] \<Longrightarrow> sorted (ids_at tr t)"
  shows "\<exists>r. match_tokens tr None ts = Some r \<and> sorted r \<and>
           set r = {i. \<forall>t \<in> set ts. i \<in> set (ids_at tr t)}"
proof -
  obtain t us where ts: "ts = t # us" using assms(2) by (cases ts) auto
  show ?thesis
  proof (cases "trie_find t tr")
    case None
    then show ?thesis using ts by (auto simp: ids_at_def)
  next
    case (Some n)
    then have "sorted (ids n)" using sorted [of t] assms(1) ts by (auto simp: ids_at_def)
    with Some ts match_tokens_Some [of us "ids n" tr] assms(1)
    show ?thesis by (fastforce simp: ids_at_def)
  qed
qed

lemma map_filter_nth:
  assumes "set xs \<subseteq> {..<length ds}"
  shows "List.map_filter (\<lambda>i. if i < length ds then Some (ds ! i) else None) xs = map ((!) ds) xs"
  using assms by (induction xs) (auto simp: List.map_filter_simps)

lemma filter_as_nth: "map ((!) ds) (sorted_list_of_set {i. i < length ds \<and> P (ds ! i)}) = filter P ds"
proof -
  have "sorted_list_of_set {i. i < length ds \<and> P (ds ! i)} = filter (\<lambda>i. P (ds ! i)) [0..<length ds]"
    by (rule sorted_distinct_set_unique [symmetric]) (auto simp: sorted_wrt_filter)
  then show ?thesis by (metis (no_types, lifting) filter_map map_nth comp_def filter_cong)
qed

lemma normalizeTokens_nonempty: "t \<in> set (normalizeTokens ts) \<Longrightarrow> t \<noteq> []"
  by (auto simp: normalizeTokens_def js_lower_def)

text \<open>The specification of a query.\<close>

definition matches_query :: "string list \<Rightarrow> string list \<Rightarrow> bool" where
  "matches_query qs toks \<longleftrightarrow> (\<forall>q \<in> set qs. \<exists>s \<in> set toks. prefix q s)"

lemma SearchIndex_get_inv:
  assumes inv: "index_inv si"
  shows "SearchIndex_get q si =
     (let qs = normalizeTokens (queryTokenizer si q)
      in if qs = [] then []
         else filter (\<lambda>d. matches_query qs (normalizeTokens (datumTokenizer si d))) (datums si))"
proof (cases "normalizeTokens (queryTokenizer si q) = []")
  case True
  then show ?thesis by (simp add: SearchIndex_get_def)
next
  case False
  let ?qs = "normalizeTokens (queryTokenizer si q)"
  let ?P = "\<lambda>d. matches_query ?qs (normalizeTokens (datumTokenizer si d))"
  have ids: "ids_at (index_trie si) t = postings (datumTokenizer si) (datums si) t" if "t \<noteq> []" for t
    using inv that by (simp add: index_inv_def)
  have ne: "t \<noteq> []" if "t \<in> set ?qs" for t using that by (rule normalizeTokens_nonempty)
  obtain r where r: "match_tokens (index_trie si) None ?qs = Some r" "sorted r"
      "set r = {i. \<forall>t \<in> set ?qs. i \<in> set (ids_at (index_trie si) t)}"
    using match_tokens_None [of ?qs "index_trie si", OF ne False]
    by (auto simp: ids sorted_postings)
  obtain t where t: "t \<in> set ?qs" using False by (cases ?qs) auto
  have "set r = {i. i < length (datums si) \<and> ?P (datums si ! i)}"
    using r(3) ids ne t by (auto simp: set_postings matches_query_def)
  then have "unique r = sorted_list_of_set {i. i < length (datums si) \<and> ?P (datums si ! i)}"
    using r(2) by (simp add: unique_sorted)
  then have "SearchIndex_get q si =
      map ((!) (datums si)) (sorted_list_of_set {i. i < length (datums si) \<and> ?P (datums si ! i)})"
    using r(1) by (simp add: SearchIndex_get_def) (subst map_filter_nth, auto)
  then show ?thesis using False filter_as_nth [of "datums si" ?P] by simp
qed

section \<open>Bloodhound: sorting, truncating and backfilling\<close>

text \<open>\<open>array.slice(0, n)\<close>: a negative end counts from the back.\<close>

definition slice0 :: "int \<Rightarrow> 'a list \<Rightarrow> 'a list" where
  "slice0 n xs = (if 0 \<le> n then take (nat n) xs else take (length xs - nat (- n)) xs)"

text \<open>
  \<open>getSorter\<close>: with a comparison function the array is sorted by it (\<open>sortBy\<close> stands for
  \<open>Array.prototype.sort\<close> with that function), without one it is returned as it is.
\<close>

definition getSorter :: "('d list \<Rightarrow> 'd list) option \<Rightarrow> 'd list \<Rightarrow> 'd list" where
  "getSorter sortBy = (case sortBy of Some f \<Rightarrow> f | None \<Rightarrow> (\<lambda>array. array))"

definition ignoreDuplicates :: "'d \<Rightarrow> 'd \<Rightarrow> bool" where
  "ignoreDuplicates a b = False"

text \<open>
  The loop of \<open>returnRemoteMatches\<close>: it stops after the element that fills the list
  (the callback of \<open>each\<close> returns false).
\<close>

fun backfill :: "('d \<Rightarrow> 'd \<Rightarrow> bool) \<Rightarrow> int \<Rightarrow> 'd list \<Rightarrow> 'd list \<Rightarrow> 'd list" where
  "backfill dup limit acc [] = acc"
| "backfill dup limit acc (r # rs) =
     (let isDuplicate = list_ex (\<lambda>m. dup r m) acc;
          acc' = (if isDuplicate then acc else acc @ [r])
      in if int (length acc') < limit then backfill dup limit acc' rs else acc')"

record 'd Bloodhound =
  bh_limit :: int
  bh_sorter :: "'d list \<Rightarrow> 'd list"
  bh_dupDetector :: "'d \<Rightarrow> 'd \<Rightarrow> bool"
  bh_index :: "'d SearchIndex"

text \<open>The local part of \<open>get\<close> and the callback for the remote matches.\<close>

definition localMatches :: "string \<Rightarrow> 'd Bloodhound \<Rightarrow> 'd list" where
  "localMatches query bh =
     slice0 (bh_limit bh) (bh_sorter bh (SearchIndex_get query (bh_index bh)))"

definition returnRemoteMatches :: "'d Bloodhound \<Rightarrow> 'd list \<Rightarrow> 'd list \<Rightarrow> 'd list" where
  "returnRemoteMatches bh matches remoteMatches =
     bh_sorter bh (backfill (bh_dupDetector bh) (bh_limit bh) matches remoteMatches)"

text \<open>
  \<open>get\<close> decides what to do with the remote end and with the callback:
  \<open>hit\<close> is the value \<open>transport.get\<close> returns when there is a transport and the local
  matches do not fill the limit.
\<close>

datatype remote_action = AskRemote | CancelRemote

definition Bloodhound_get ::
  "string \<Rightarrow> bool \<Rightarrow> bool \<Rightarrow> 'd Bloodhound \<Rightarrow> remote_action \<times> 'd list option" where
  "Bloodhound_get query hasTransport hit bh =
     (let matches = localMatches query bh;
          action = (if int (length matches) < bh_limit bh then AskRemote else CancelRemote);
          cacheHit = (action = AskRemote \<and> hasTransport \<and> hit)
      in (action,
          if \<not> cacheHit \<and> (matches \<noteq> [] \<or> \<not> hasTransport) then Some matches else None))"

definition Bloodhound_add :: "'d list \<Rightarrow> 'd Bloodhound \<Rightarrow> 'd Bloodhound" where
  "Bloodhound_add data bh = bh\<lparr>bh_index := SearchIndex_add data (bh_index bh)\<rparr>"

definition Bloodhound_clear :: "'d Bloodhound \<Rightarrow> 'd Bloodhound" where
  "Bloodhound_clear bh = bh\<lparr>bh_index := SearchIndex_reset (bh_index bh)\<rparr>"

lemma backfill_extends: "\<exists>ext. backfill dup limit acc rs = acc @ ext"
  by (induction rs arbitrary: acc) (auto simp: Let_def, metis append.assoc)

lemma backfill_length:
  "int (length acc) < limit \<Longrightarrow> int (length (backfill dup limit acc rs)) \<le> limit"
  by (induction rs arbitrary: acc) (auto simp: Let_def)

lemma backfill_nodup:
  assumes "\<And>i j. i < j \<Longrightarrow> j < length acc \<Longrightarrow> n \<le> j \<Longrightarrow> \<not> dup (acc ! j) (acc ! i)"
    and "i < j" "j < length (backfill dup limit acc rs)" "n \<le> j"
  shows "\<not> dup (backfill dup limit acc rs ! j) (backfill dup limit acc rs ! i)"
  using assms
proof (induction rs arbitrary: acc)
  case (Cons r rs)
  define acc' where "acc' = (if list_ex (\<lambda>m. dup r m) acc then acc else acc @ [r])"
  have nd: "\<not> dup (acc' ! b) (acc' ! a)" if "a < b" "b < length acc'" "n \<le> b" for a b
    using Cons.prems(1) [of a b] that
    by (auto simp: acc'_def nth_append list_ex_iff less_Suc_eq split: if_splits)
  have eq: "backfill dup limit acc (r # rs) =
      (if int (length acc') < limit then backfill dup limit acc' rs else acc')"
    by (simp add: acc'_def Let_def)
  show ?case
    using Cons.IH [of acc', OF nd] nd Cons.prems(2-4) unfolding eq by (auto split: if_splits)
qed auto

section \<open>Properties\<close>

text \<open>
  C9: The index answers prefix queries exactly: after any sequence of additions to an empty
  index, a query returns, in the order of insertion and without duplicates, the data that
  have for every query token a token starting with it (both sides lower-cased, empty tokens
  dropped), and nothing when the query has no token.
\<close>

theorem SearchIndex_get_exact:
  "SearchIndex_get q (SearchIndex_add data (SearchIndex_reset si)) =
     (let qs = normalizeTokens (queryTokenizer si q)
      in if qs = [] then []
         else filter (\<lambda>d. \<forall>t \<in> set qs. \<exists>s \<in> set (normalizeTokens (datumTokenizer si d)). prefix t s)
                data)"
proof -
  have inv: "index_inv (SearchIndex_add data (SearchIndex_reset si))"
    unfolding SearchIndex_add_def by (rule index.run_keeps) (rule index_inv_reset)
  show ?thesis
    unfolding SearchIndex_get_inv [OF inv]
    by (simp add: SearchIndex_reset_def matches_query_def Let_def)
qed

theorem SearchIndex_get_exact_witness:
  "SearchIndex_get ''GO sw'' (SearchIndex_add [''Golden sword'', ''sword'', ''Gown'']
      (SearchIndex_reset \<lparr>datumTokenizer = \<lambda>d. whitespace (Some d),
         queryTokenizer = \<lambda>q. whitespace (Some q), datums = [], index_trie = newNode\<rparr>)) =
     [''Golden sword'']"
  unfolding SearchIndex_get_exact by code_simp

text \<open>
  Backfilling: when the local matches do not fill the limit, the list handed to the
  sorter starts with the local matches, holds at most \<open>limit\<close> elements, and no remote
  element in it is a duplicate of an element before it.
\<close>

lemma backfill_spec:
  fixes dup :: "'d \<Rightarrow> 'd \<Rightarrow> bool" and matches remote :: "'d list"
  assumes "int (length matches) < limit"
  defines "res \<equiv> backfill dup limit matches remote"
  shows "take (length matches) res = matches \<and> int (length res) \<le> limit \<and>
     (\<forall>j < length res. \<forall>i < j. length matches \<le> j \<longrightarrow> \<not> dup (res ! j) (res ! i))"
proof (intro conjI allI impI)
  show "take (length matches) res = matches"
    using backfill_extends [of dup limit matches remote] by (auto simp: res_def)
  show "int (length res) \<le> limit" unfolding res_def using assms(1) by (rule backfill_length)
  fix j i assume ij: "j < length res" "i < j" "length matches \<le> j"
  show "\<not> dup (res ! j) (res ! i)"
    unfolding res_def using _ ij(2) ij(1)[unfolded res_def] ij(3) by (rule backfill_nodup) simp
qed

end
