(* ===== verification/Js_Regex.thy ===== *)
theory Js_Regex
  imports Js_Prelude "HOL-Library.Sublist"
begin

text \<open>
  The fragment of regular expressions the sources build at run time: literal text with its
  special characters escaped, and the search for a literal in a string. Escaping is correct:
  the escaped text reads as the literal it came from.
\<close>

definition regex_special :: "char \<Rightarrow> bool" where
  "regex_special c \<longleftrightarrow> c \<in> set ''-[]/{}()*+?.^$|'' \<or> c = CHR 0x5C"

definition escape_literal :: "string \<Rightarrow> string" where
  "escape_literal str = concat (map (\<lambda>c. if regex_special c then [CHR 0x5C, c] else [c]) str)"

text \<open>
  How a regular expression of literals and escaped literals reads: a backslash makes the
  next character literal, a special character without one is not a literal.
\<close>

fun regex_literal :: "string \<Rightarrow> string option" where
  "regex_literal [] = Some []"
| "regex_literal [c] = (if regex_special c then None else Some [c])"
| "regex_literal (c # d # cs) =
     (if c = CHR 0x5C then map_option ((#) d) (regex_literal cs)
      else if regex_special c then None
      else map_option ((#) c) (regex_literal (d # cs)))"

lemma regex_literal_cons:
  "\<not> regex_special c \<Longrightarrow> regex_literal (c # s) = map_option ((#) c) (regex_literal s)"
  by (cases s) (auto simp: regex_special_def)

lemma regex_literal_escape [simp]: "regex_literal (escape_literal s) = Some s"
  by (induction s) (auto simp: escape_literal_def regex_literal_cons)

lemma escape_literal_simps [simp]:
  "escape_literal [] = []"
  "escape_literal (c # s) = (if regex_special c then [CHR 0x5C, c] else [c]) @ escape_literal s"
  "escape_literal (s @ t) = escape_literal s @ escape_literal t"
  by (simp_all add: escape_literal_def)

lemma escape_literal_Nil [simp]: "escape_literal s = [] \<longleftrightarrow> s = []"
  by (cases s) auto

text \<open>A class of characters that the backslash and every special character belong to.\<close>

lemma escape_takeWhile:
  assumes "\<And>c. regex_special c \<Longrightarrow> P c"
  shows "takeWhile P (escape_literal s) = escape_literal (takeWhile P s)"
    "dropWhile P (escape_literal s) = escape_literal (dropWhile P s)"
proof -
  have "P CHR 0x5C" by (rule assms) (simp add: regex_special_def)
  then show "takeWhile P (escape_literal s) = escape_literal (takeWhile P s)"
    "dropWhile P (escape_literal s) = escape_literal (dropWhile P s)"
    using assms by (induction s) auto
qed

section \<open>Searching\<close>

definition js_contains :: "string \<Rightarrow> string \<Rightarrow> bool" where
  "js_contains w s \<longleftrightarrow> list_ex (prefix w) (suffixes s)"

lemma js_contains_sublist: "js_contains w s \<longleftrightarrow> sublist w s"
  by (auto simp: js_contains_def list_ex_iff sublist_altdef')

definition contains_ci :: "bool \<Rightarrow> string \<Rightarrow> string \<Rightarrow> bool" where
  "contains_ci ci w s = (if ci then js_contains (js_lower w) (js_lower s) else js_contains w s)"

lemma contains_ci_mono: "sublist v w \<Longrightarrow> contains_ci ci w s \<Longrightarrow> contains_ci ci v s"
  by (auto simp: contains_ci_def js_contains_sublist js_lower_def
      intro: sublist_order.order_trans map_mono_sublist)

end
