(* ===== verification/Persistent_Storage.thy ===== *)
theory Persistent_Storage
  imports Js_Prelude Js_Regex "HOL-Library.Sublist" "HOL-Library.AList"
begin

text \<open>
  The prefetch store of the suggestion engine: \<open>PersistentStorage\<close>,
  \<open>escapeRegExChars\<close> and the storage half of \<open>Bloodhound\<close> in
  \<open>typeahead.bundle.js\<close>. \<open>window.localStorage\<close> is an association list of keys and
  stored values; \<open>JSON.stringify\<close> and \<open>JSON.parse\<close> are inverse on the values stored,
  so the list holds the values themselves, and the text \<open>null\<close> of a missing item
  decodes to \<open>JNull\<close>.
\<close>

section \<open>Stored values and the browser's store\<close>

type_synonym 'a ls = "(string \<times> 'a json) list"

definition ls_getItem :: "string \<Rightarrow> 'a ls \<Rightarrow> 'a json option" where
  "ls_getItem k ls = map_of ls k"

definition ls_setItem :: "string \<Rightarrow> 'a json \<Rightarrow> 'a ls \<Rightarrow> 'a ls" where
  "ls_setItem k v ls = AList.update k v ls"

definition ls_removeItem :: "string \<Rightarrow> 'a ls \<Rightarrow> 'a ls" where
  "ls_removeItem k ls = AList.delete k ls"

definition encode :: "'a json option \<Rightarrow> 'a json" where
  "encode v = (case v of None \<Rightarrow> JNull | Some x \<Rightarrow> x)"

definition decode :: "'a json option \<Rightarrow> 'a json" where
  "decode v = (case v of None \<Rightarrow> JNull | Some x \<Rightarrow> x)"

section \<open>Escaping for regular expressions\<close>

definition escapeRegExChars :: "string \<Rightarrow> string" where
  "escapeRegExChars str = escape_literal str"

section \<open>PersistentStorage\<close>

text \<open>
  \<open>keyMatcher\<close> is the anchored regular expression of the escaped prefix, which matches the
  strings that start with the prefix (\<open>regex_literal_escape\<close>).
\<close>

record PersistentStorage =
  ps_prefix :: string
  ps_ttlKey :: string
  ps_keyMatcher :: string

definition new_PersistentStorage :: "string \<Rightarrow> PersistentStorage" where
  "new_PersistentStorage namespace =
     (let p = ''__'' @ namespace @ ''__''
      in \<lparr>ps_prefix = p, ps_ttlKey = ''__ttl__'', ps_keyMatcher = CHR ''^'' # escapeRegExChars p\<rparr>)"

definition matches_keyMatcher :: "PersistentStorage \<Rightarrow> string \<Rightarrow> bool" where
  "matches_keyMatcher ps key =
     (case regex_literal (tl (ps_keyMatcher ps)) of Some p \<Rightarrow> prefix p key | None \<Rightarrow> False)"

definition strip_keyMatcher :: "PersistentStorage \<Rightarrow> string \<Rightarrow> string" where
  "strip_keyMatcher ps key =
     (case regex_literal (tl (ps_keyMatcher ps)) of
        Some p \<Rightarrow> if prefix p key then drop (length p) key else key
      | None \<Rightarrow> key)"

definition PS_prefix :: "PersistentStorage \<Rightarrow> string \<Rightarrow> string" where
  "PS_prefix ps key = ps_prefix ps @ key"

definition PS_ttlKey :: "PersistentStorage \<Rightarrow> string \<Rightarrow> string" where
  "PS_ttlKey ps key = PS_prefix ps key @ ps_ttlKey ps"

definition PS_isExpired :: "PersistentStorage \<Rightarrow> int \<Rightarrow> string \<Rightarrow> 'a ls \<Rightarrow> bool" where
  "PS_isExpired ps now key ls =
     (case decode (ls_getItem (PS_ttlKey ps key) ls) of JNum ttl \<Rightarrow> now > ttl | _ \<Rightarrow> False)"

definition PS_remove :: "PersistentStorage \<Rightarrow> string \<Rightarrow> 'a ls \<Rightarrow> 'a ls" where
  "PS_remove ps key ls =
     ls_removeItem (PS_prefix ps key) (ls_removeItem (PS_ttlKey ps key) ls)"

definition PS_get :: "PersistentStorage \<Rightarrow> int \<Rightarrow> string \<Rightarrow> 'a ls \<Rightarrow> 'a json \<times> 'a ls" where
  "PS_get ps now key ls =
     (let ls1 = (if PS_isExpired ps now key ls then PS_remove ps key ls else ls)
      in (decode (ls_getItem (PS_prefix ps key) ls1), ls1))"

definition PS_set ::
  "PersistentStorage \<Rightarrow> int \<Rightarrow> string \<Rightarrow> 'a json option \<Rightarrow> int option \<Rightarrow> 'a ls \<Rightarrow> 'a ls" where
  "PS_set ps now key val ttl ls =
     (let ls1 = (case ttl of
                   Some t \<Rightarrow> ls_setItem (PS_ttlKey ps key) (encode (Some (JNum (now + t)))) ls
                 | None \<Rightarrow> ls_removeItem (PS_ttlKey ps key) ls)
      in ls_setItem (PS_prefix ps key) (encode val) ls1)"

text \<open>\<open>clear\<close>: collect the matching keys, then remove them from the last to the first.\<close>

definition PS_clear :: "PersistentStorage \<Rightarrow> 'a ls \<Rightarrow> 'a ls" where
  "PS_clear ps ls =
     (let keys = map (strip_keyMatcher ps) (filter (matches_keyMatcher ps) (map fst ls))
      in foldl (\<lambda>s k. PS_remove ps k s) ls (rev keys))"

section \<open>The prefetch data of Bloodhound\<close>

definition saveToStorage ::
  "PersistentStorage option \<Rightarrow> int \<Rightarrow> 'a json \<Rightarrow> string \<Rightarrow> string \<Rightarrow> int option \<Rightarrow> 'a ls \<Rightarrow> 'a ls" where
  "saveToStorage storage now data protocol thumbprint ttl ls =
     (case storage of
        None \<Rightarrow> ls
      | Some ps \<Rightarrow>
          PS_set ps now ''thumbprint'' (Some (JStr thumbprint)) ttl
            (PS_set ps now ''protocol'' (Some (JStr protocol)) ttl
              (PS_set ps now ''data'' (Some data) ttl ls)))"

text \<open>\<open>undefined\<close> (no storage) differs from every string, so nothing is read then.\<close>

definition readFromStorage ::
  "PersistentStorage option \<Rightarrow> int \<Rightarrow> string \<Rightarrow> string \<Rightarrow> 'a ls \<Rightarrow> 'a json option \<times> 'a ls" where
  "readFromStorage storage now protocol thumbprint ls =
     (case storage of
        None \<Rightarrow> (None, ls)
      | Some ps \<Rightarrow>
          (let (d, ls1) = PS_get ps now ''data'' ls;
               (p, ls2) = PS_get ps now ''protocol'' ls1;
               (t, ls3) = PS_get ps now ''thumbprint'' ls2;
               isExpired = (t \<noteq> JStr thumbprint \<or> p \<noteq> JStr protocol)
           in (if js_truthy d \<and> \<not> isExpired then Some d else None, ls3)))"

section \<open>Lemmas\<close>

lemma ls_get_set [simp]:
  "ls_getItem k (ls_setItem k' v ls) = (if k = k' then Some v else ls_getItem k ls)"
  by (simp add: ls_getItem_def ls_setItem_def update_conv')

lemma ls_get_remove [simp]:
  "ls_getItem k (ls_removeItem k' ls) = (if k = k' then None else ls_getItem k ls)"
  by (simp add: ls_getItem_def ls_removeItem_def delete_conv')

lemma PS_ttlKey_neq [simp]:
  "PS_ttlKey (new_PersistentStorage ns) k \<noteq> PS_prefix ps' k \<or> ps' \<noteq> new_PersistentStorage ns"
  by (auto simp: PS_ttlKey_def PS_prefix_def new_PersistentStorage_def Let_def)

lemma keyMatcher_prefix:
  "matches_keyMatcher (new_PersistentStorage ns) key = prefix (''__'' @ ns @ ''__'') key"
  "prefix (''__'' @ ns @ ''__'') key \<Longrightarrow>
     PS_prefix (new_PersistentStorage ns) (strip_keyMatcher (new_PersistentStorage ns) key) = key"
proof -
  let ?p = "''__'' @ ns @ ''__''"
  have lit: "regex_literal (tl (ps_keyMatcher (new_PersistentStorage ns))) = Some ?p"
    unfolding new_PersistentStorage_def Let_def
    by (simp only: PersistentStorage.simps list.sel escapeRegExChars_def regex_literal_escape)
  show "matches_keyMatcher (new_PersistentStorage ns) key = prefix ?p key"
    unfolding matches_keyMatcher_def lit by simp
  assume "prefix ?p key"
  then show "PS_prefix (new_PersistentStorage ns) (strip_keyMatcher (new_PersistentStorage ns) key) = key"
    unfolding strip_keyMatcher_def lit
    by (auto simp: PS_prefix_def new_PersistentStorage_def Let_def prefix_def)
qed

lemma ls_remove_filter: "ls_removeItem k ls = filter (\<lambda>(k', v). k' \<noteq> k) ls"
  by (auto simp: ls_removeItem_def AList.delete_eq intro!: filter_cong)

lemma remove_many:
  "foldl (\<lambda>s k. PS_remove ps k s) ls ks =
     filter (\<lambda>(k', v). \<forall>k \<in> set ks. k' \<noteq> PS_prefix ps k \<and> k' \<noteq> PS_ttlKey ps k) ls"
proof (induction ks arbitrary: ls)
  case (Cons k ks)
  show ?case
    by (simp only: foldl.simps Cons.IH)
       (auto simp: PS_remove_def ls_remove_filter intro!: filter_cong)
qed auto

lemma prefix_ttlKey: "prefix (''__'' @ ns @ ''__'') (PS_ttlKey (new_PersistentStorage ns) k)"
  by (simp add: PS_ttlKey_def PS_prefix_def new_PersistentStorage_def Let_def)

lemma PS_get_set:
  "now' \<le> now + t \<Longrightarrow>
     fst (PS_get (new_PersistentStorage ns) now' k (PS_set (new_PersistentStorage ns) now k (Some v) (Some t) ls)) = v"
  using PS_ttlKey_neq [of ns k "new_PersistentStorage ns"]
  by (simp add: PS_get_def PS_set_def PS_isExpired_def encode_def decode_def Let_def)

lemmas ps_eval = PS_get_def PS_set_def PS_remove_def PS_isExpired_def PS_prefix_def PS_ttlKey_def
  encode_def decode_def new_PersistentStorage_def Let_def

section \<open>Properties\<close>

text \<open>
  A stored value is found until it expires and gone afterwards: a \<open>get\<close> at a time not
  past the stored expiry returns the value, and a later one returns \<open>null\<close> and has removed
  both the value and its expiry from the store.
\<close>

lemma PS_ttl:
  fixes v :: "'a json" and ls :: "'a ls" and ns k :: string and now now' t :: int
  defines "ps \<equiv> new_PersistentStorage ns"
  defines "ls' \<equiv> PS_set ps now k (Some v) (Some t) ls"
  shows "(now' \<le> now + t \<longrightarrow> PS_get ps now' k ls' = (v, ls')) \<and>
     (now + t < now' \<longrightarrow> fst (PS_get ps now' k ls') = JNull \<and>
        ls_getItem (PS_prefix ps k) (snd (PS_get ps now' k ls')) = None \<and>
        ls_getItem (PS_ttlKey ps k) (snd (PS_get ps now' k ls')) = None)"
  unfolding ps_def ls'_def by (auto simp: ps_eval)

text \<open>
  \<open>clear\<close> removes exactly the namespace: what is left is the store without the entries
  whose key starts with the prefix, in the same order.
\<close>

lemma PS_clear_exact:
  "PS_clear (new_PersistentStorage ns) ls = filter (\<lambda>(k, v). \<not> prefix (''__'' @ ns @ ''__'') k) ls"
proof -
  let ?ps = "new_PersistentStorage ns" and ?p = "''__'' @ ns @ ''__''"
  let ?keys = "map (strip_keyMatcher ?ps) (filter (matches_keyMatcher ?ps) (map fst ls))"
  have "(\<forall>k \<in> set ?keys. key \<noteq> PS_prefix ?ps k \<and> key \<noteq> PS_ttlKey ?ps k) \<longleftrightarrow> \<not> prefix ?p key"
    if "(key, v) \<in> set ls" for key v
  proof
    assume *: "\<forall>k \<in> set ?keys. key \<noteq> PS_prefix ?ps k \<and> key \<noteq> PS_ttlKey ?ps k"
    show "\<not> prefix ?p key"
    proof
      assume pre: "prefix ?p key"
      then have "strip_keyMatcher ?ps key \<in> set ?keys"
        using that unfolding set_map set_filter keyMatcher_prefix(1) by (force simp del: append.simps)
      with * show False using keyMatcher_prefix(2) [OF pre] by auto
    qed
  next
    assume np: "\<not> prefix ?p key"
    show "\<forall>k \<in> set ?keys. key \<noteq> PS_prefix ?ps k \<and> key \<noteq> PS_ttlKey ?ps k"
      using np prefix_ttlKey [of ns] keyMatcher_prefix by auto
  qed
  then show ?thesis
    unfolding PS_clear_def Let_def remove_many set_rev by (intro filter_cong) auto
qed

text \<open>
  Prefetched data survive a reload: reading back within the time to live, with the same
  protocol and thumbprint, returns the (truthy) data saved; with another thumbprint or
  protocol nothing is returned.
\<close>

lemma storage_roundtrip:
  fixes d :: "'a json" and ls :: "'a ls" and ns prot thumb prot' thumb' :: string
    and now now' ttl :: int
  assumes "now' \<le> now + ttl" and "js_truthy d"
  defines "ls' \<equiv> saveToStorage (Some (new_PersistentStorage ns)) now d prot thumb (Some ttl) ls"
  shows "fst (readFromStorage (Some (new_PersistentStorage ns)) now' prot' thumb' ls') =
     (if prot' = prot \<and> thumb' = thumb then Some d else None)"
  using assms(1,2) unfolding ls'_def
  by (auto simp: saveToStorage_def readFromStorage_def ps_eval)

end
