(* ===== verification/Transport.thy ===== *)
theory Transport
  imports Lru_Cache
begin

text \<open>
  The remote half of the suggestion engine: \<open>Transport\<close> in \<open>typeahead.bundle.js\<close>.
  The module keeps, for all transports together, the number of requests in flight, the
  requests themselves by URL and the shared response cache; each transport keeps its last
  URL, its cancellation flag and one request on deck. A request object is the list of the
  handlers attached to it, in the order jQuery's Deferred runs them: the sender's
  \<open>done\<close>/\<open>fail\<close>, its \<open>always\<close>, then the handlers attached later. Callbacks are
  numbered; their invocations are recorded in a log.
\<close>

section \<open>State\<close>

datatype handler = HDone nat nat | HAlways nat

record 'v transport =
  t_cancelled :: bool
  t_lastUrl :: "string option"
  t_onDeck :: "(string \<times> nat) option"
  t_limited :: bool
  t_ownCache :: "'v json LruCache option"

text \<open>
  \<open>t_limited\<close>: the option \<open>rateLimiter\<close> wraps \<open>_get\<close> in a timer; such calls wait in
  \<open>scheduled\<close> until the timer runs them. \<open>t_ownCache\<close> is the cache of capacity 0 of
  a transport built with \<open>cache: false\<close>.
\<close>

record 'v net =
  pendingRequestsCount :: int
  pendingRequests :: "string \<rightharpoonup> handler list"
  maxPendingRequests :: int
  sharedCache :: "'v json LruCache"
  transports :: "nat \<Rightarrow> 'v transport"
  scheduled :: "(nat \<times> string \<times> nat) list"
  deliveries :: "(nat \<times> 'v json option) list"

definition new_Transport :: "bool \<Rightarrow> bool \<Rightarrow> 'v transport" where
  "new_Transport rateLimiter cache =
     \<lparr>t_cancelled = False, t_lastUrl = None, t_onDeck = None, t_limited = rateLimiter,
      t_ownCache = (if cache then None else Some (LruCache (Some 0)))\<rparr>"

definition net_init :: "(nat \<Rightarrow> 'v transport) \<Rightarrow> 'v net" where
  "net_init ts = \<lparr>pendingRequestsCount = 0, pendingRequests = Map.empty, maxPendingRequests = 6,
     sharedCache = LruCache (Some 10), transports = ts, scheduled = [], deliveries = []\<rparr>"

definition upd_transport :: "nat \<Rightarrow> ('v transport \<Rightarrow> 'v transport) \<Rightarrow> 'v net \<Rightarrow> 'v net" where
  "upd_transport i f s = s\<lparr>transports := (transports s)(i := f (transports s i))\<rparr>"

definition setMaxPendingRequests :: "int \<Rightarrow> 'v net \<Rightarrow> 'v net" where
  "setMaxPendingRequests num s = s\<lparr>maxPendingRequests := num\<rparr>"

definition resetCache :: "'v net \<Rightarrow> 'v net" where
  "resetCache s = s\<lparr>sharedCache := LruCache_reset (sharedCache s)\<rparr>"

section \<open>Operations\<close>

text \<open>\<open>this._cache.get\<close> and \<open>that._cache.set\<close>, on the shared or the transport's own cache.\<close>

definition cache_get :: "nat \<Rightarrow> string \<Rightarrow> 'v net \<Rightarrow> 'v json option \<times> 'v net" where
  "cache_get i url s =
     (case t_ownCache (transports s i) of
        None \<Rightarrow> (let (r, c) = LruCache_get url (sharedCache s) in (r, s\<lparr>sharedCache := c\<rparr>))
      | Some c \<Rightarrow> (let (r, c') = LruCache_get url c
                  in (r, upd_transport i (\<lambda>t. t\<lparr>t_ownCache := Some c'\<rparr>) s)))"

definition cache_set :: "nat \<Rightarrow> string \<Rightarrow> 'v json \<Rightarrow> 'v net \<Rightarrow> 'v net js" where
  "cache_set i url v s =
     (case t_ownCache (transports s i) of
        None \<Rightarrow> js_bind (LruCache_set url v (sharedCache s)) (\<lambda>c. Inr (s\<lparr>sharedCache := c\<rparr>))
      | Some c \<Rightarrow> js_bind (LruCache_set url v c)
                   (\<lambda>c'. Inr (upd_transport i (\<lambda>t. t\<lparr>t_ownCache := Some c'\<rparr>) s)))"

definition Transport_do_get :: "nat \<Rightarrow> string \<Rightarrow> nat \<Rightarrow> 'v net \<Rightarrow> 'v net" where
  "Transport_do_get i url cb s =
     (let t = transports s i
      in if t_cancelled t \<or> Some url \<noteq> t_lastUrl t then s
         else case pendingRequests s url of
                Some hs \<Rightarrow>
                  s\<lparr>pendingRequests := (pendingRequests s)(url \<mapsto> hs @ [HDone i cb])\<rparr>
              | None \<Rightarrow>
                  if pendingRequestsCount s < maxPendingRequests s
                  then s\<lparr>pendingRequestsCount := pendingRequestsCount s + 1,
                         pendingRequests := (pendingRequests s)(url \<mapsto> [HDone i cb, HAlways i])\<rparr>
                  else upd_transport i (\<lambda>t. t\<lparr>t_onDeck := Some (url, cb)\<rparr>) s)"

definition Transport_call_get :: "nat \<Rightarrow> string \<Rightarrow> nat \<Rightarrow> 'v net \<Rightarrow> 'v net" where
  "Transport_call_get i url cb s =
     (if t_limited (transports s i) then s\<lparr>scheduled := scheduled s @ [(i, url, cb)]\<rparr>
      else Transport_do_get i url cb s)"

text \<open>The value returned is \<open>!!resp\<close>; a falsy response in the cache counts as a miss.\<close>

definition Transport_get :: "nat \<Rightarrow> string \<Rightarrow> nat \<Rightarrow> 'v net \<Rightarrow> bool \<times> 'v net" where
  "Transport_get i url cb s =
     (let s1 = upd_transport i (\<lambda>t. t\<lparr>t_cancelled := False, t_lastUrl := Some url\<rparr>) s;
          (resp, s2) = cache_get i url s1
      in case resp of
           Some r \<Rightarrow> if js_truthy r then (True, s2\<lparr>deliveries := deliveries s2 @ [(cb, Some r)]\<rparr>)
                     else (False, Transport_call_get i url cb s2)
         | None \<Rightarrow> (False, Transport_call_get i url cb s2))"

definition Transport_cancel :: "nat \<Rightarrow> 'v net \<Rightarrow> 'v net" where
  "Transport_cancel i s = upd_transport i (\<lambda>t. t\<lparr>t_cancelled := True\<rparr>) s"

text \<open>\<open>always\<close>: free the slot, then start the request on deck.\<close>

definition Transport_always :: "nat \<Rightarrow> string \<Rightarrow> 'v net \<Rightarrow> 'v net" where
  "Transport_always i url s =
     (let s1 = s\<lparr>pendingRequestsCount := pendingRequestsCount s - 1,
                pendingRequests := (pendingRequests s)(url := None)\<rparr>
      in case t_onDeck (transports s1 i) of
           Some (u, cb) \<Rightarrow> upd_transport i (\<lambda>t. t\<lparr>t_onDeck := None\<rparr>) (Transport_call_get i u cb s1)
         | None \<Rightarrow> s1)"

text \<open>One handler, for a response (\<open>Some r\<close>) or a failure (\<open>None\<close>).\<close>

fun run_handler :: "string \<Rightarrow> 'v json option \<Rightarrow> 'v net js \<Rightarrow> handler \<Rightarrow> 'v net js" where
  "run_handler url (Some r) s (HDone i cb) =
     js_bind s (\<lambda>s. cache_set i url r (s\<lparr>deliveries := deliveries s @ [(cb, Some r)]\<rparr>))"
| "run_handler url None s (HDone i cb) =
     js_bind s (\<lambda>s. Inr (s\<lparr>deliveries := deliveries s @ [(cb, None)]\<rparr>))"
| "run_handler url outcome s (HAlways i) = js_bind s (\<lambda>s. Inr (Transport_always i url s))"

definition settle :: "string \<Rightarrow> 'v json option \<Rightarrow> 'v net \<Rightarrow> 'v net js" where
  "settle url outcome s =
     (case pendingRequests s url of
        None \<Rightarrow> Inr s
      | Some hs \<Rightarrow> foldl (run_handler url outcome) (Inr s) hs)"

text \<open>
  Events: calls of the client, a timer running a scheduled \<open>_get\<close>, and the settling of a
  request by the server.
\<close>

datatype 'v net_event =
    EGet nat string nat | ECancel nat | ETimer nat | ESettle string "'v json option" | EReset

fun net_step :: "'v net js \<Rightarrow> 'v net_event \<Rightarrow> 'v net js" where
  "net_step s (EGet i url cb) = js_bind s (\<lambda>s. Inr (snd (Transport_get i url cb s)))"
| "net_step s (ECancel i) = js_bind s (\<lambda>s. Inr (Transport_cancel i s))"
| "net_step s (ETimer n) =
     js_bind s (\<lambda>s. if n < length (scheduled s)
                    then let (i, url, cb) = scheduled s ! n
                         in Inr (Transport_do_get i url cb
                              (s\<lparr>scheduled := take n (scheduled s) @ drop (Suc n) (scheduled s)\<rparr>))
                    else Inr s)"
| "net_step s (ESettle url outcome) = js_bind s (settle url outcome)"
| "net_step s EReset = js_bind s (\<lambda>s. Inr (resetCache s))"

section \<open>Invariant\<close>

definition request_wf :: "handler list \<Rightarrow> bool" where
  "request_wf hs \<longleftrightarrow>
     (\<exists>i cb rest. hs = HDone i cb # HAlways i # map (\<lambda>(j, c). HDone j c) rest)"

definition caches_ok :: "'v net \<Rightarrow> bool" where
  "caches_ok s \<longleftrightarrow> (\<exists>W. agrees W (sharedCache s)) \<and>
     (\<forall>i c. t_ownCache (transports s i) = Some c \<longrightarrow> (\<exists>W. agrees W c))"

definition slots_ok :: "'v net \<Rightarrow> bool" where
  "slots_ok s \<longleftrightarrow> finite (dom (pendingRequests s)) \<and>
     pendingRequestsCount s = int (card (dom (pendingRequests s))) \<and>
     pendingRequestsCount s \<le> maxPendingRequests s \<and>
     (\<forall>u hs. pendingRequests s u = Some hs \<longrightarrow> request_wf hs)"

definition net_inv :: "'v net js \<Rightarrow> bool" where
  "net_inv m \<longleftrightarrow> (\<exists>s. m = Inr s \<and> slots_ok s \<and> caches_ok s)"

lemma upd_transport_frame [simp]:
  "pendingRequestsCount (upd_transport i f s) = pendingRequestsCount s"
  "pendingRequests (upd_transport i f s) = pendingRequests s"
  "maxPendingRequests (upd_transport i f s) = maxPendingRequests s"
  "sharedCache (upd_transport i f s) = sharedCache s"
  "scheduled (upd_transport i f s) = scheduled s"
  "deliveries (upd_transport i f s) = deliveries s"
  "transports (upd_transport i f s) j = (if j = i then f (transports s i) else transports s j)"
  by (simp_all add: upd_transport_def)

lemma request_wf_new: "request_wf [HDone i cb, HAlways i]"
  unfolding request_wf_def by (intro exI [of _ i] exI [of _ cb] exI [of _ "[]"]) simp

lemma request_wf_attach: "request_wf hs \<Longrightarrow> request_wf (hs @ [HDone i cb])"
  unfolding request_wf_def
proof (elim exE)
  fix j c rest
  assume "hs = HDone j c # HAlways j # map (\<lambda>(j, c). HDone j c) rest"
  then show "\<exists>j c rest'. hs @ [HDone i cb] = HDone j c # HAlways j # map (\<lambda>(j, c). HDone j c) rest'"
    by (intro exI [of _ j] exI [of _ c] exI [of _ "rest @ [(i, cb)]"]) simp
qed

lemma caches_ok_cong:
  "sharedCache s' = sharedCache s \<Longrightarrow>
   (\<And>i. t_ownCache (transports s' i) = t_ownCache (transports s i)) \<Longrightarrow> caches_ok s \<Longrightarrow> caches_ok s'"
  by (simp add: caches_ok_def)

lemma slots_ok_cong:
  "pendingRequestsCount s' = pendingRequestsCount s \<Longrightarrow> pendingRequests s' = pendingRequests s \<Longrightarrow>
   maxPendingRequests s' = maxPendingRequests s \<Longrightarrow> slots_ok s \<Longrightarrow> slots_ok s'"
  by (simp add: slots_ok_def)

lemma do_get_slots: "slots_ok s \<Longrightarrow> slots_ok (Transport_do_get i url cb s)"
  unfolding slots_ok_def Transport_do_get_def
  by (auto simp: Let_def request_wf_new request_wf_attach card_insert_if domIff
      insert_absorb split: option.splits if_splits)

lemma do_get_caches: "caches_ok s \<Longrightarrow> caches_ok (Transport_do_get i url cb s)"
  by (rule caches_ok_cong [of _ s])
     (auto simp: Transport_do_get_def Let_def split: option.splits if_splits)

lemma call_get_inv:
  "slots_ok s \<Longrightarrow> slots_ok (Transport_call_get i url cb s)"
  "caches_ok s \<Longrightarrow> caches_ok (Transport_call_get i url cb s)"
  by (auto simp: Transport_call_get_def do_get_slots do_get_caches
      intro: slots_ok_cong caches_ok_cong)

lemma cache_get_inv:
  assumes "caches_ok s"
  shows "caches_ok (snd (cache_get i url s))"
    and "pendingRequests (snd (cache_get i url s)) = pendingRequests s"
    and "pendingRequestsCount (snd (cache_get i url s)) = pendingRequestsCount s"
    and "maxPendingRequests (snd (cache_get i url s)) = maxPendingRequests s"
  using assms
  by (auto simp: caches_ok_def cache_get_def case_prod_beta split: option.splits)
     (metis lru.get_agrees)+

lemma cache_set_inv:
  assumes "caches_ok s"
  shows "\<exists>s'. cache_set i url v s = Inr s' \<and> caches_ok s' \<and>
     pendingRequests s' = pendingRequests s \<and> pendingRequestsCount s' = pendingRequestsCount s \<and>
     maxPendingRequests s' = maxPendingRequests s \<and> deliveries s' = deliveries s"
proof (cases "t_ownCache (transports s i)")
  case None
  obtain W where "agrees W (sharedCache s)" using assms by (auto simp: caches_ok_def)
  from lru.set_agrees [OF this, of url v] obtain c' where
    "LruCache_set url v (sharedCache s) = Inr c'" "agrees (W(url \<mapsto> v)) c'" by blast
  with assms None show ?thesis by (auto simp: cache_set_def caches_ok_def)
next
  case (Some c)
  then obtain W where "agrees W c" using assms by (auto simp: caches_ok_def)
  from lru.set_agrees [OF this, of url v] obtain c' where
    "LruCache_set url v c = Inr c'" "agrees (W(url \<mapsto> v)) c'" by blast
  with assms Some show ?thesis by (auto simp: cache_set_def caches_ok_def)
qed

text \<open>The \<open>done\<close> and \<open>fail\<close> handlers only touch the caches and the log.\<close>

lemma run_done:
  assumes "caches_ok s"
  shows "\<exists>s'. run_handler url outcome (Inr s) (HDone i cb) = Inr s' \<and> caches_ok s' \<and>
     pendingRequests s' = pendingRequests s \<and> pendingRequestsCount s' = pendingRequestsCount s \<and>
     maxPendingRequests s' = maxPendingRequests s \<and> deliveries s' = deliveries s @ [(cb, outcome)]"
proof -
  let ?s = "s\<lparr>deliveries := deliveries s @ [(cb, outcome)]\<rparr>"
  have "caches_ok ?s" using assms by (auto simp: caches_ok_def)
  with cache_set_inv [OF this, of i url] show ?thesis by (cases outcome) auto
qed

lemma run_dones:
  assumes "caches_ok s"
  shows "\<exists>s'. foldl (run_handler url outcome) (Inr s) (map (\<lambda>(j, c). HDone j c) xs) = Inr s' \<and>
     caches_ok s' \<and> pendingRequests s' = pendingRequests s \<and>
     pendingRequestsCount s' = pendingRequestsCount s \<and>
     maxPendingRequests s' = maxPendingRequests s \<and>
     deliveries s' = deliveries s @ map (\<lambda>(j, c). (c, outcome)) xs"
  using assms
proof (induction xs arbitrary: s)
  case (Cons x xs)
  obtain j c where x: "x = (j, c)" by force
  from run_done [OF Cons.prems, of url outcome j c] obtain s1 where s1:
    "run_handler url outcome (Inr s) (HDone j c) = Inr s1" "caches_ok s1"
    "pendingRequests s1 = pendingRequests s" "pendingRequestsCount s1 = pendingRequestsCount s"
    "maxPendingRequests s1 = maxPendingRequests s" "deliveries s1 = deliveries s @ [(c, outcome)]"
    by blast
  from Cons.IH [OF s1(2)] s1 x show ?case by auto
qed auto

lemma deliveries_call_get [simp]: "deliveries (Transport_call_get i url cb s) = deliveries s"
  by (auto simp: Transport_call_get_def Transport_do_get_def Let_def split: option.split)

lemma always_inv:
  assumes S: "slots_ok s" and C: "caches_ok s" and u: "pendingRequests s url = Some hs"
  shows "slots_ok (Transport_always i url s)" "caches_ok (Transport_always i url s)"
    and "deliveries (Transport_always i url s) = deliveries s"
proof -
  let ?s = "s\<lparr>pendingRequestsCount := pendingRequestsCount s - 1,
              pendingRequests := (pendingRequests s)(url := None)\<rparr>"
  have "card (dom (pendingRequests s) - {url}) = card (dom (pendingRequests s)) - 1"
    "0 < card (dom (pendingRequests s))"
    using S u by (auto simp: slots_ok_def card_Diff_singleton domI card_gt_0_iff)
  then have "slots_ok ?s" using S by (auto simp: slots_ok_def)
  moreover have "caches_ok ?s" using C by (auto simp: caches_ok_def)
  ultimately show "slots_ok (Transport_always i url s)" "caches_ok (Transport_always i url s)"
    using call_get_inv [of ?s i]
    by (auto simp: Transport_always_def Let_def split: option.split
        intro: slots_ok_cong caches_ok_cong)
  show "deliveries (Transport_always i url s) = deliveries s"
    by (auto simp: Transport_always_def Let_def split: option.split)
qed

text \<open>The callbacks waiting for a request.\<close>

fun callbacks :: "handler list \<Rightarrow> nat list" where
  "callbacks [] = []"
| "callbacks (HDone i cb # hs) = cb # callbacks hs"
| "callbacks (HAlways i # hs) = callbacks hs"

lemma callbacks_dones [simp]: "callbacks (map (\<lambda>(j, c). HDone j c) xs) = map snd xs"
  by (induction xs) auto

lemma settle_inv:
  assumes S: "slots_ok s" and C: "caches_ok s" and u: "pendingRequests s url = Some hs"
  shows "\<exists>s'. settle url outcome s = Inr s' \<and> slots_ok s' \<and> caches_ok s' \<and>
     deliveries s' = deliveries s @ map (\<lambda>cb. (cb, outcome)) (callbacks hs)"
proof -
  from S u have "request_wf hs" by (simp add: slots_ok_def)
  then obtain i cb rest
    where hs: "hs = HDone i cb # HAlways i # map (\<lambda>(j, c). HDone j c) rest"
    unfolding request_wf_def by blast
  from run_done [OF C, of url outcome i cb] obtain s1 where s1:
    "run_handler url outcome (Inr s) (HDone i cb) = Inr s1" "caches_ok s1"
    "pendingRequests s1 = pendingRequests s" "pendingRequestsCount s1 = pendingRequestsCount s"
    "maxPendingRequests s1 = maxPendingRequests s" "deliveries s1 = deliveries s @ [(cb, outcome)]"
    by blast
  let ?s2 = "Transport_always i url s1"
  have S1: "slots_ok s1" using S s1 by (auto intro: slots_ok_cong)
  note s2 = always_inv [OF S1 s1(2), of url hs i]
  have u1: "pendingRequests s1 url = Some hs" using u s1(3) by simp
  from run_dones [OF s2(2) [OF u1], of url outcome rest] obtain s3 where s3:
    "foldl (run_handler url outcome) (Inr ?s2) (map (\<lambda>(j, c). HDone j c) rest) = Inr s3"
    "caches_ok s3" "pendingRequests s3 = pendingRequests ?s2"
    "pendingRequestsCount s3 = pendingRequestsCount ?s2"
    "maxPendingRequests s3 = maxPendingRequests ?s2"
    "deliveries s3 = deliveries ?s2 @ map (\<lambda>(j, c). (c, outcome)) rest" by blast
  have "slots_ok s3" using s2(1) [OF u1] s3 by (auto intro: slots_ok_cong)
  moreover have "deliveries s3 = deliveries s @ map (\<lambda>cb. (cb, outcome)) (callbacks hs)"
    using s3(6) s2(3) [OF u1] s1(6) hs by (auto simp: comp_def case_prod_beta)
  moreover have "settle url outcome s = Inr s3" using u hs s1(1) s3(1) by (simp add: settle_def)
  ultimately show ?thesis using s3(2) by blast
qed

lemma get_inv:
  assumes "slots_ok s" "caches_ok s"
  shows "slots_ok (snd (Transport_get i url cb s))" "caches_ok (snd (Transport_get i url cb s))"
proof -
  let ?s1 = "upd_transport i (\<lambda>t. t\<lparr>t_cancelled := False, t_lastUrl := Some url\<rparr>) s"
  let ?s2 = "snd (cache_get i url ?s1)"
  have C1: "caches_ok ?s1" using assms(2) by (auto simp: caches_ok_def)
  note g = cache_get_inv [OF C1, of i url]
  have S2: "slots_ok ?s2" using assms(1) g by (auto intro: slots_ok_cong)
  have eq: "snd (Transport_get i url cb s) =
      (if \<exists>r. fst (cache_get i url ?s1) = Some r \<and> js_truthy r
       then ?s2\<lparr>deliveries := deliveries ?s2 @ [(cb, fst (cache_get i url ?s1))]\<rparr>
       else Transport_call_get i url cb ?s2)"
    by (auto simp: Transport_get_def Let_def case_prod_beta split: option.split)
  show "slots_ok (snd (Transport_get i url cb s))" "caches_ok (snd (Transport_get i url cb s))"
    unfolding eq using S2 g(1) call_get_inv [of ?s2]
    by (auto intro: slots_ok_cong caches_ok_cong)
qed

lemma net_step_inv: "net_inv m \<Longrightarrow> net_inv (net_step m e)"
proof -
  assume "net_inv m"
  then obtain s where m: "m = Inr s" and S: "slots_ok s" and C: "caches_ok s"
    by (auto simp: net_inv_def)
  show ?thesis
  proof (cases e)
    case (EGet i url cb)
    then show ?thesis using m get_inv [OF S C] by (simp add: net_inv_def)
  next
    case (ECancel i)
    then show ?thesis using m S C
      by (auto simp: net_inv_def Transport_cancel_def caches_ok_def intro: slots_ok_cong)
  next
    case (ETimer n)
    let ?s = "s\<lparr>scheduled := take n (scheduled s) @ drop (Suc n) (scheduled s)\<rparr>"
    have "slots_ok ?s" "caches_ok ?s"
      using S C by (auto intro: slots_ok_cong caches_ok_cong)
    then show ?thesis using ETimer m S C
      by (auto simp: net_inv_def case_prod_beta do_get_slots do_get_caches)
  next
    case (ESettle url outcome)
    then show ?thesis
      using m S C settle_inv [OF S C, of url _ outcome]
      by (cases "pendingRequests s url") (auto simp: net_inv_def settle_def)
  next
    case EReset
    then show ?thesis using m S C agrees_reset [of "sharedCache s"]
      by (auto simp: net_inv_def resetCache_def caches_ok_def intro: slots_ok_cong)
  qed
qed

interpretation net: step_invariant net_step net_inv
  by unfold_locales (rule net_step_inv)

lemma net_inv_init: "net_inv (Inr (net_init (\<lambda>i. new_Transport (lim i) (cch i))))"
proof -
  have "agrees Map.empty (LruCache m)" for m :: "int option" by (rule agrees_new)
  then show ?thesis
    by (auto simp: net_inv_def net_init_def slots_ok_def caches_ok_def new_Transport_def)
qed

section \<open>Properties\<close>

text \<open>
  C10: At most \<open>maxPendingRequests\<close> requests are in flight: however the clients' calls,
  the timers and the server's answers interleave, no exception is raised, the counter equals
  the number of URLs being requested and never exceeds the limit of 6.
\<close>

theorem requests_bounded:
  "\<exists>s. foldl net_step (Inr (net_init (\<lambda>i. new_Transport (lim i) (cch i)))) evs = Inr s \<and>
     pendingRequestsCount s = int (card (dom (pendingRequests s))) \<and>
     pendingRequestsCount s \<le> maxPendingRequests s"
  using net.run_keeps [OF net_inv_init, of lim cch evs] by (auto simp: net_inv_def slots_ok_def)

text \<open>
  C11: Every waiting callback is answered once: when the request for a URL settles, in any
  state the module can reach, each callback attached to it is called exactly once with the
  outcome, in the order of attachment, and no other callback is called.
\<close>

theorem settle_answers_each:
  assumes "foldl net_step (Inr (net_init (\<lambda>i. new_Transport (lim i) (cch i)))) evs = Inr s"
    and "pendingRequests s url = Some hs"
  shows "\<exists>s'. settle url outcome s = Inr s' \<and>
     deliveries s' = deliveries s @ map (\<lambda>cb. (cb, outcome)) (callbacks hs)"
proof -
  have "slots_ok s" "caches_ok s"
    using net.run_keeps [OF net_inv_init, of lim cch evs] assms(1) by (auto simp: net_inv_def)
  from settle_inv [OF this assms(2)] show ?thesis by blast
qed

theorem settle_answers_each_witness:
  "\<exists>s s'. foldl net_step (Inr (net_init (\<lambda>i. new_Transport False True)))
        [EGet 0 ''u'' 7, EGet 1 ''u'' 8] = Inr s \<and>
     settle ''u'' (Some (JNum 5 :: unit json)) s = Inr s' \<and>
     deliveries s' = deliveries s @ [(7, Some (JNum 5)), (8, Some (JNum 5))]"
proof -
  let ?m = "foldl net_step (Inr (net_init (\<lambda>i. new_Transport False True) :: unit net))
        [EGet 0 ''u'' 7, EGet 1 ''u'' 8]"
  have "\<exists>s. ?m = Inr s \<and> pendingRequests s ''u'' = Some [HDone 0 7, HAlways 0, HDone 1 8]"
    by (simp add: net_init_def new_Transport_def Transport_get_def cache_get_def upd_transport_def
        Transport_call_get_def Transport_do_get_def LruCache_get_def LruCache_def LruCache_reset_def Let_def)
  then obtain s where s: "?m = Inr s" "pendingRequests s ''u'' = Some [HDone 0 7, HAlways 0, HDone 1 8]"
    by blast
  from settle_answers_each [OF s, of "Some (JNum 5)"] s(1) show ?thesis by auto
qed

end
