(* ===== verification/Event_Emitter.thy ===== *)
theory Event_Emitter
  imports Js_Prelude
begin

text \<open>
  \<open>EventEmitter\<close> of \<open>typeahead.bundle.js\<close>, mixed into the input, the datasets and the
  dropdown. Listeners are values of a type \<open>'cb\<close>; what a listener returns when called
  with an event type is given by \<open>ret\<close> (\<open>True\<close> for a strict \<open>false\<close>). The state
  is \<open>None\<close> while \<open>this._callbacks\<close> is undefined.
\<close>

record 'cb listeners =
  l_sync :: "'cb list"
  l_async :: "'cb list"

type_synonym 'cb emitter = "(string \<rightharpoonup> 'cb listeners) option"

datatype call_mode = Sync | Async

text \<open>
  \<open>types.split(/\s+/)\<close>, then \<open>while (type = types.shift())\<close>: the loop stops at an
  empty piece.
\<close>

definition event_types :: "string \<Rightarrow> string list" where
  "event_types types = takeWhile (\<lambda>t. t \<noteq> []) (split_runs is_js_space types)"

definition add_listener :: "call_mode \<Rightarrow> 'cb \<Rightarrow> (string \<rightharpoonup> 'cb listeners) \<Rightarrow> string \<Rightarrow> (string \<rightharpoonup> 'cb listeners)" where
  "add_listener m cb cbs type =
     (let l = (case cbs type of Some l \<Rightarrow> l | None \<Rightarrow> \<lparr>l_sync = [], l_async = []\<rparr>)
      in cbs(type \<mapsto> (case m of Sync \<Rightarrow> l\<lparr>l_sync := l_sync l @ [cb]\<rparr>
                               | Async \<Rightarrow> l\<lparr>l_async := l_async l @ [cb]\<rparr>)))"

definition EventEmitter_on :: "call_mode \<Rightarrow> string \<Rightarrow> 'cb option \<Rightarrow> 'cb emitter \<Rightarrow> 'cb emitter" where
  "EventEmitter_on m types cb em =
     (case cb of
        None \<Rightarrow> em
      | Some f \<Rightarrow>
          Some (foldl (add_listener m f) (case em of Some c \<Rightarrow> c | None \<Rightarrow> Map.empty)
                  (event_types types)))"

definition onAsync :: "string \<Rightarrow> 'cb option \<Rightarrow> 'cb emitter \<Rightarrow> 'cb emitter" where
  "onAsync = EventEmitter_on Async"

definition onSync :: "string \<Rightarrow> 'cb option \<Rightarrow> 'cb emitter \<Rightarrow> 'cb emitter" where
  "onSync = EventEmitter_on Sync"

definition EventEmitter_off :: "string \<Rightarrow> 'cb emitter \<Rightarrow> 'cb emitter" where
  "EventEmitter_off types em =
     (case em of
        None \<Rightarrow> None
      | Some cbs \<Rightarrow> Some (foldl (\<lambda>c type. c(type := None)) cbs (event_types types)))"

text \<open>
  \<open>flush\<close>: the listeners called, and whether none of them returned \<open>false\<close>.
\<close>

fun flush :: "('cb \<Rightarrow> string \<Rightarrow> bool) \<Rightarrow> string \<Rightarrow> 'cb list \<Rightarrow> 'cb list \<times> bool" where
  "flush ret type [] = ([], True)"
| "flush ret type (cb # cbs) =
     (if ret cb type then ([cb], False)
      else let (called, ok) = flush ret type cbs in (cb # called, ok))"

text \<open>
  \<open>trigger\<close>: the synchronous calls in order, and the asynchronous flushes put off to the
  next tick. The loop also stops at the first type without listeners.
\<close>

fun trigger_loop ::
  "('cb \<Rightarrow> string \<Rightarrow> bool) \<Rightarrow> (string \<rightharpoonup> 'cb listeners) \<Rightarrow> string list \<Rightarrow>
   (string \<times> 'cb) list \<times> (string \<times> 'cb list) list" where
  "trigger_loop ret cbs [] = ([], [])"
| "trigger_loop ret cbs (type # types) =
     (case cbs type of
        None \<Rightarrow> ([], [])
      | Some l \<Rightarrow>
          (let (called, ok) = flush ret type (l_sync l);
               (cs, as) = trigger_loop ret cbs types
           in (map (Pair type) called @ cs, (if ok then [(type, l_async l)] else []) @ as)))"

definition EventEmitter_trigger ::
  "('cb \<Rightarrow> string \<Rightarrow> bool) \<Rightarrow> string \<Rightarrow> 'cb emitter \<Rightarrow>
   (string \<times> 'cb) list \<times> (string \<times> 'cb list) list" where
  "EventEmitter_trigger ret types em =
     (case em of None \<Rightarrow> ([], []) | Some cbs \<Rightarrow> trigger_loop ret cbs (event_types types))"

section \<open>Lemmas\<close>

lemma flush_snoc:
  "fst (flush ret type (cbs @ [cb])) =
     takeWhile (\<lambda>cb. \<not> ret cb type) cbs @
       (if list_all (\<lambda>cb. \<not> ret cb type) cbs then [cb]
        else take 1 (dropWhile (\<lambda>cb. \<not> ret cb type) cbs))"
  by (induction cbs) (auto simp: case_prod_beta)

lemma event_types_single:
  assumes "t \<noteq> []" "list_all (\<lambda>c. \<not> is_js_space c) t"
  shows "event_types t = [t]"
  using assms
  by (simp add: event_types_def split_runs.simps [of _ t] list_all_iff dropWhile_eq_Nil_conv [THEN iffD2])

definition sync_listeners :: "string \<Rightarrow> 'cb emitter \<Rightarrow> 'cb list" where
  "sync_listeners t em =
     (case em of None \<Rightarrow> [] | Some c \<Rightarrow> (case c t of None \<Rightarrow> [] | Some l \<Rightarrow> l_sync l))"

lemma sync_listeners_add:
  "sync_listeners t (Some (add_listener m cb c u)) =
     sync_listeners t (Some c) @ (if t = u \<and> m = Sync then [cb] else [])"
  by (auto simp: add_listener_def sync_listeners_def Let_def split: option.splits call_mode.splits)

lemma trigger_single:
  assumes "event_types t = [t]" "em = Some c" "c t \<noteq> None"
  shows "fst (EventEmitter_trigger ret t em) = map (Pair t) (fst (flush ret t (sync_listeners t em)))"
  using assms
  by (auto simp: EventEmitter_trigger_def sync_listeners_def case_prod_beta split: option.splits)

section \<open>Properties\<close>

text \<open>
  A synchronous listener registered last is called last and only if no earlier listener
  of the event returned \<open>false\<close>: triggering an event after \<open>onSync\<close> calls the earlier
  listeners up to the first that cancels, and then the new one when none did.
\<close>

lemma onSync_trigger:
  assumes "t \<noteq> []" and "list_all (\<lambda>c. \<not> is_js_space c) t"
  shows "fst (EventEmitter_trigger ret t (onSync t (Some cb) em)) =
     map (Pair t) (takeWhile (\<lambda>cb. \<not> ret cb t) (sync_listeners t em) @
       (if list_all (\<lambda>cb. \<not> ret cb t) (sync_listeners t em) then [cb]
        else take 1 (dropWhile (\<lambda>cb. \<not> ret cb t) (sync_listeners t em))))"
proof -
  have et: "event_types t = [t]" using assms by (rule event_types_single)
  define c where "c = (case em of Some c \<Rightarrow> c | None \<Rightarrow> Map.empty)"
  let ?em = "onSync t (Some cb) em"
  have em: "?em = Some (add_listener Sync cb c t)"
    by (simp add: onSync_def EventEmitter_on_def et c_def)
  have "sync_listeners t (Some c) = sync_listeners t em"
    by (auto simp: c_def sync_listeners_def split: option.split)
  then have sl: "sync_listeners t ?em = sync_listeners t em @ [cb]"
    using sync_listeners_add [of t Sync cb c t] by (simp add: em)
  have "add_listener Sync cb c t t \<noteq> None" by (simp add: add_listener_def Let_def)
  from trigger_single [OF et em this, of ret] show ?thesis
    unfolding sl flush_snoc .
qed

end
