(* ===== verification/Typeahead_Widget.thy ===== *)
theory Typeahead_Widget
  imports Js_Prelude "HOL-Library.Sublist"
begin

text \<open>
  The suggestion widget of \<open>typeahead.bundle.js\<close>: \<open>Input\<close>, \<open>Dataset\<close>,
  \<open>Dropdown\<close> and \<open>Typeahead\<close>. The DOM is the part of it the code reads and writes:
  the values of the input and of the hint, the nodes each dataset has rendered with the
  class \<open>tt-cursor\<close> of each suggestion, and whether the menu is displayed. A component's
  synchronous triggers are returned as events and handed at once to the handlers the
  \<open>Typeahead\<close> constructor attaches; the asynchronous \<open>datasetRendered\<close> waits for the
  next tick. What the browser decides (text overflow, caret position, text direction) is
  part of the state and changes with the user's events.
\<close>

section \<open>Input\<close>

datatype key_name = Tab | Esc | LeftKey | RightKey | Enter | Up | Down

definition specialKeyCodeMap :: "int \<Rightarrow> key_name option" where
  "specialKeyCodeMap n =
     (if n = 9 then Some Tab else if n = 27 then Some Esc else if n = 37 then Some LeftKey
      else if n = 39 then Some RightKey else if n = 13 then Some Enter
      else if n = 38 then Some Up else if n = 40 then Some Down else None)"

record key_event =
  keyCode :: int
  altKey :: bool
  ctrlKey :: bool
  metaKey :: bool
  shiftKey :: bool

definition withModifier :: "key_event \<Rightarrow> bool" where
  "withModifier e \<longleftrightarrow> altKey e \<or> ctrlKey e \<or> metaKey e \<or> shiftKey e"

record input =
  in_query :: string
  in_val :: string
  in_hint :: "string option"
  in_overflow :: "string \<Rightarrow> bool"
  in_caretAtEnd :: bool
  in_cssDirection :: string

text \<open>\<open>in_hint\<close> is \<open>None\<close> for a widget without a hint element: its hint methods do nothing.\<close>

datatype input_event =
    Blurred | Focused | Keyed key_name | QueryChanged string | WhitespaceChanged string

text \<open>\<open>replace(/\s{2,}/g, " ")\<close>: a run of two or more spaces becomes one.\<close>

function collapse_spaces :: "string \<Rightarrow> string" where
  "collapse_spaces [] = []"
| "collapse_spaces (c # cs) =
     (if is_js_space c
      then (let run = takeWhile is_js_space cs
            in (if run = [] then [c] else '' '') @ collapse_spaces (dropWhile is_js_space cs))
      else c # collapse_spaces cs)"
  by pat_completeness auto
termination
  by (relation "measure length") (auto simp: length_dropWhile_le less_Suc_eq_le)

definition normalizeQuery :: "string \<Rightarrow> string" where
  "normalizeQuery str = collapse_spaces (dropWhile is_js_space str)"

definition areQueriesEquivalent :: "string \<Rightarrow> string \<Rightarrow> bool" where
  "areQueriesEquivalent a b \<longleftrightarrow> normalizeQuery a = normalizeQuery b"

definition Input_setHint :: "string \<Rightarrow> input \<Rightarrow> input" where
  "Input_setHint v i = (case in_hint i of None \<Rightarrow> i | Some _ \<Rightarrow> i\<lparr>in_hint := Some v\<rparr>)"

definition Input_clearHint :: "input \<Rightarrow> input" where
  "Input_clearHint i = Input_setHint [] i"

definition Input_checkInputValue :: "input \<Rightarrow> input \<times> input_event list" where
  "Input_checkInputValue i =
     (let inputValue = in_val i;
          areEquivalent = areQueriesEquivalent inputValue (in_query i);
          hasDifferentWhitespace =
            (if areEquivalent then length (in_query i) \<noteq> length inputValue else False)
      in (i\<lparr>in_query := inputValue\<rparr>,
          if \<not> areEquivalent then [QueryChanged inputValue]
          else if hasDifferentWhitespace then [WhitespaceChanged inputValue] else []))"

definition Input_setInputValue :: "string \<Rightarrow> bool \<Rightarrow> input \<Rightarrow> input \<times> input_event list" where
  "Input_setInputValue value silent i =
     (let i1 = i\<lparr>in_val := value\<rparr>
      in if silent then (Input_clearHint i1, []) else Input_checkInputValue i1)"

definition Input_resetInputValue :: "input \<Rightarrow> input" where
  "Input_resetInputValue i = fst (Input_setInputValue (in_query i) True i)"

definition Input_setQuery :: "string \<Rightarrow> input \<Rightarrow> input" where
  "Input_setQuery q i = i\<lparr>in_query := q\<rparr>"

definition Input_hasOverflow :: "input \<Rightarrow> bool" where
  "Input_hasOverflow i = in_overflow i (in_val i)"

definition Input_clearHintIfInvalid :: "input \<Rightarrow> input" where
  "Input_clearHintIfInvalid i =
     (case in_hint i of
        None \<Rightarrow> i
      | Some hint \<Rightarrow>
          (let val = in_val i;
               valIsPrefixOfHint = (val \<noteq> hint \<and> prefix val hint);
               isValid = (val \<noteq> [] \<and> valIsPrefixOfHint \<and> \<not> Input_hasOverflow i)
           in if \<not> isValid then Input_clearHint i else i))"

definition Input_onBlur :: "input \<Rightarrow> input \<times> input_event list" where
  "Input_onBlur i = (Input_resetInputValue i, [Blurred])"

definition Input_onFocus :: "input \<Rightarrow> input \<times> input_event list" where
  "Input_onFocus i = (i, [Focused])"

definition Input_managePreventDefault :: "key_name option \<Rightarrow> key_event \<Rightarrow> input \<Rightarrow> bool" where
  "Input_managePreventDefault k e i =
     (case k of
        Some Tab \<Rightarrow>
          (case in_hint i of
             Some hint \<Rightarrow> hint \<noteq> [] \<and> hint \<noteq> in_val i \<and> \<not> withModifier e
           | None \<Rightarrow> False)
      | Some Up \<Rightarrow> \<not> withModifier e
      | Some Down \<Rightarrow> \<not> withModifier e
      | _ \<Rightarrow> False)"

definition Input_shouldTrigger :: "key_name \<Rightarrow> key_event \<Rightarrow> bool" where
  "Input_shouldTrigger k e = (case k of Tab \<Rightarrow> \<not> withModifier e | _ \<Rightarrow> True)"

definition Input_onKeydown :: "key_event \<Rightarrow> input \<Rightarrow> bool \<times> input_event list" where
  "Input_onKeydown e i =
     (let keyName = specialKeyCodeMap (keyCode e);
          prevented = Input_managePreventDefault keyName e i
      in (prevented,
          case keyName of
            Some k \<Rightarrow> if Input_shouldTrigger k e then [Keyed k] else []
          | None \<Rightarrow> []))"

section \<open>Dataset\<close>

record 'd suggestion =
  s_raw :: 'd
  s_value :: string
  s_dataset :: string

text \<open>A suggestion node carries whether it has the class \<open>tt-cursor\<close>.\<close>

datatype 'd node = NHeader | NFooter | NEmptyMsg | NSugg "'d suggestion" bool

record 'd dataset =
  ds_name :: string
  ds_query :: "string option"
  ds_canceled :: bool
  ds_displayFn :: "'d \<Rightarrow> string"
  ds_hasEmpty :: bool
  ds_hasHeader :: bool
  ds_hasFooter :: bool
  ds_nodes :: "'d node list"

definition isValidName :: "string \<Rightarrow> bool" where
  "isValidName str \<longleftrightarrow> str \<noteq> [] \<and> list_all (\<lambda>c. is_js_word c \<or> c = CHR ''-'') str"

definition new_Dataset ::
  "string \<Rightarrow> ('d \<Rightarrow> string) \<Rightarrow> bool \<Rightarrow> bool \<Rightarrow> bool \<Rightarrow> 'd dataset js" where
  "new_Dataset name disp emp hdr ftr =
     (if name \<noteq> [] \<and> \<not> isValidName name then Inl (JsError (''invalid dataset name: '' @ name))
      else Inr \<lparr>ds_name = name, ds_query = None, ds_canceled = False, ds_displayFn = disp,
                ds_hasEmpty = emp, ds_hasHeader = hdr, ds_hasFooter = ftr, ds_nodes = []\<rparr>)"

definition Dataset_render :: "'d list \<Rightarrow> 'd dataset \<Rightarrow> 'd dataset" where
  "Dataset_render suggestions ds =
     (let hd = (if ds_hasHeader ds then [NHeader] else []);
          ft = (if ds_hasFooter ds then [NFooter] else []);
          node = (\<lambda>d. NSugg \<lparr>s_raw = d, s_value = ds_displayFn ds d, s_dataset = ds_name ds\<rparr> False)
      in if suggestions = [] \<and> ds_hasEmpty ds then ds\<lparr>ds_nodes := hd @ [NEmptyMsg] @ ft\<rparr>
         else if suggestions \<noteq> [] then ds\<lparr>ds_nodes := hd @ map node suggestions @ ft\<rparr>
         else ds\<lparr>ds_nodes := []\<rparr>)"

definition Dataset_update :: "string \<Rightarrow> 'd dataset \<Rightarrow> 'd dataset" where
  "Dataset_update query ds = ds\<lparr>ds_query := Some query, ds_canceled := False\<rparr>"

text \<open>
  The callback \<open>render\<close> that \<open>update(query)\<close> hands to the source, called with the
  suggestions: whether it renders, and the dataset after it.
\<close>

definition Dataset_respond :: "string \<Rightarrow> 'd list \<Rightarrow> 'd dataset \<Rightarrow> bool \<times> 'd dataset" where
  "Dataset_respond query suggestions ds =
     (if \<not> ds_canceled ds \<and> Some query = ds_query ds then (True, Dataset_render suggestions ds)
      else (False, ds))"

definition Dataset_cancel :: "'d dataset \<Rightarrow> 'd dataset" where
  "Dataset_cancel ds = ds\<lparr>ds_canceled := True\<rparr>"

definition Dataset_clear :: "'d dataset \<Rightarrow> 'd dataset" where
  "Dataset_clear ds = (Dataset_cancel ds)\<lparr>ds_nodes := []\<rparr>"

definition Dataset_isEmpty :: "'d dataset \<Rightarrow> bool" where
  "Dataset_isEmpty ds \<longleftrightarrow> ds_nodes ds = []"

section \<open>Dropdown\<close>

record 'd dropdown =
  dd_isOpen :: bool
  dd_isEmpty :: bool
  dd_datasets :: "'d dataset list"
  dd_shown :: bool
  dd_dir :: string

datatype dropdown_event = Opened | Closed | CursorMoved | CursorRemoved | DatasetRendered

definition new_Dropdown :: "'d dataset list \<Rightarrow> 'd dropdown" where
  "new_Dropdown dss =
     \<lparr>dd_isOpen = False, dd_isEmpty = True, dd_datasets = dss, dd_shown = False, dd_dir = []\<rparr>"

definition dd_nodes :: "'d dropdown \<Rightarrow> 'd node list" where
  "dd_nodes d = concat (map ds_nodes (dd_datasets d))"

fun suggs :: "'d node list \<Rightarrow> ('d suggestion \<times> bool) list" where
  "suggs [] = []"
| "suggs (NSugg s c # ns) = (s, c) # suggs ns"
| "suggs (n # ns) = suggs ns"

definition Dropdown_getSuggestions :: "'d dropdown \<Rightarrow> ('d suggestion \<times> bool) list" where
  "Dropdown_getSuggestions d = suggs (dd_nodes d)"

text \<open>The index of the first suggestion with the cursor class; \<open>-1\<close> if there is none.\<close>

fun cursor_index :: "('d suggestion \<times> bool) list \<Rightarrow> int" where
  "cursor_index [] = -1"
| "cursor_index ((s, c) # xs) =
     (if c then 0 else let i = cursor_index xs in if i = -1 then -1 else i + 1)"

text \<open>Setting the class of the suggestion at an index of the whole menu.\<close>

fun mark_nodes :: "nat \<Rightarrow> bool \<Rightarrow> 'd node list \<Rightarrow> 'd node list" where
  "mark_nodes n b [] = []"
| "mark_nodes n b (NSugg s c # ns) =
     (case n of 0 \<Rightarrow> NSugg s b # ns | Suc m \<Rightarrow> NSugg s c # mark_nodes m b ns)"
| "mark_nodes n b (x # ns) = x # mark_nodes n b ns"

fun mark_datasets :: "nat \<Rightarrow> bool \<Rightarrow> 'd dataset list \<Rightarrow> 'd dataset list" where
  "mark_datasets n b [] = []"
| "mark_datasets n b (ds # dss) =
     (let k = length (suggs (ds_nodes ds))
      in if n < k then ds\<lparr>ds_nodes := mark_nodes n b (ds_nodes ds)\<rparr> # dss
         else ds # mark_datasets (n - k) b dss)"

definition Dropdown_setCursor :: "int \<Rightarrow> 'd dropdown \<Rightarrow> 'd dropdown" where
  "Dropdown_setCursor n d = d\<lparr>dd_datasets := mark_datasets (nat n) True (dd_datasets d)\<rparr>"

definition Dropdown_removeCursor :: "'d dropdown \<Rightarrow> 'd dropdown" where
  "Dropdown_removeCursor d =
     (let i = cursor_index (Dropdown_getSuggestions d)
      in if i = -1 then d else d\<lparr>dd_datasets := mark_datasets (nat i) False (dd_datasets d)\<rparr>)"

definition nextCursorIndex :: "int \<Rightarrow> int \<Rightarrow> int \<Rightarrow> int" where
  "nextCursorIndex old increment len =
     (let n = old + increment;
          n = js_rem (n + 1) (len + 1) - 1
      in if n < -1 then len - 1 else n)"

definition Dropdown_moveCursor :: "int \<Rightarrow> 'd dropdown \<Rightarrow> 'd dropdown \<times> dropdown_event list" where
  "Dropdown_moveCursor increment d =
     (if \<not> dd_isOpen d then (d, [])
      else (let old = cursor_index (Dropdown_getSuggestions d);
                d1 = Dropdown_removeCursor d;
                n = nextCursorIndex old increment (int (length (Dropdown_getSuggestions d)))
            in if n = -1 then (d1, [CursorRemoved])
               else (Dropdown_setCursor n d1, [CursorMoved])))"

definition Dropdown_onSuggestionMouseEnter :: "nat \<Rightarrow> 'd dropdown \<Rightarrow> 'd dropdown" where
  "Dropdown_onSuggestionMouseEnter n d = Dropdown_setCursor (int n) (Dropdown_removeCursor d)"

definition Dropdown_onSuggestionMouseLeave :: "'d dropdown \<Rightarrow> 'd dropdown" where
  "Dropdown_onSuggestionMouseLeave d = Dropdown_removeCursor d"

definition Dropdown_onRendered :: "'d dropdown \<Rightarrow> 'd dropdown \<times> dropdown_event list" where
  "Dropdown_onRendered d =
     (let e = list_all Dataset_isEmpty (dd_datasets d)
      in (d\<lparr>dd_isEmpty := e,
            dd_shown := (if e then False else if dd_isOpen d then True else dd_shown d)\<rparr>,
          [DatasetRendered]))"

definition Dropdown_close :: "'d dropdown \<Rightarrow> 'd dropdown \<times> dropdown_event list" where
  "Dropdown_close d =
     (if dd_isOpen d
      then ((Dropdown_removeCursor (d\<lparr>dd_isOpen := False\<rparr>))\<lparr>dd_shown := False\<rparr>, [Closed])
      else (d, []))"

definition Dropdown_open :: "'d dropdown \<Rightarrow> 'd dropdown \<times> dropdown_event list" where
  "Dropdown_open d =
     (if \<not> dd_isOpen d
      then (d\<lparr>dd_isOpen := True, dd_shown := (if \<not> dd_isEmpty d then True else dd_shown d)\<rparr>,
            [Opened])
      else (d, []))"

definition Dropdown_update :: "string \<Rightarrow> 'd dropdown \<Rightarrow> 'd dropdown" where
  "Dropdown_update query d = d\<lparr>dd_datasets := map (Dataset_update query) (dd_datasets d)\<rparr>"

text \<open>
  \<open>empty\<close>: each dataset in turn is cleared and its \<open>rendered\<close> runs \<open>_onRendered\<close>.
\<close>

fun clear_from ::
  "nat \<Rightarrow> 'd dropdown \<Rightarrow> nat \<Rightarrow> 'd dropdown \<times> dropdown_event list" where
  "clear_from i d 0 = (d, [])"
| "clear_from i d (Suc n) =
     (let d1 = d\<lparr>dd_datasets := (dd_datasets d)[i := Dataset_clear (dd_datasets d ! i)]\<rparr>;
          (d2, ev) = Dropdown_onRendered d1;
          (d3, evs) = clear_from (Suc i) d2 n
      in (d3, ev @ evs))"

definition Dropdown_empty :: "'d dropdown \<Rightarrow> 'd dropdown \<times> dropdown_event list" where
  "Dropdown_empty d =
     (let (d1, evs) = clear_from 0 d (length (dd_datasets d)) in (d1\<lparr>dd_isEmpty := True\<rparr>, evs))"

definition Dropdown_isVisible :: "'d dropdown \<Rightarrow> bool" where
  "Dropdown_isVisible d \<longleftrightarrow> dd_isOpen d \<and> \<not> dd_isEmpty d"

definition getDatumForCursor :: "'d dropdown \<Rightarrow> 'd suggestion option" where
  "getDatumForCursor d =
     (let ss = Dropdown_getSuggestions d; i = cursor_index ss
      in if i = -1 then None else Some (fst (ss ! nat i)))"

definition getDatumForTopSuggestion :: "'d dropdown \<Rightarrow> 'd suggestion option" where
  "getDatumForTopSuggestion d =
     (case Dropdown_getSuggestions d of [] \<Rightarrow> None | (s, c) # _ \<Rightarrow> Some s)"

definition Dropdown_setLanguageDirection :: "string \<Rightarrow> 'd dropdown \<Rightarrow> 'd dropdown" where
  "Dropdown_setLanguageDirection dir d = d\<lparr>dd_dir := (if dir = ''ltr'' then ''ltr'' else ''rtl'')\<rparr>"

section \<open>Typeahead\<close>

datatype tick = TickHint | TickEmpty

record 'd typeahead =
  ta_isActivated :: bool
  ta_autoselect :: bool
  ta_minLength :: int
  ta_dir :: "string option"
  ta_input :: input
  ta_dropdown :: "'d dropdown"
  ta_bus :: "(string \<times> 'd suggestion option) list"
  ta_ticks :: "tick list"

text \<open>
  \<open>ta_bus\<close> logs the events triggered on the event bus; \<open>ta_ticks\<close> are the callbacks
  waiting for the next tick: the asynchronous \<open>_onDatasetRendered\<close> and the deferred
  \<open>dropdown.empty\<close> of \<open>_select\<close>.
\<close>

definition bus_trigger :: "string \<Rightarrow> 'd suggestion option \<Rightarrow> 'd typeahead \<Rightarrow> 'd typeahead" where
  "bus_trigger name d ta = ta\<lparr>ta_bus := ta_bus ta @ [(name, d)]\<rparr>"

text \<open>
  The match of \<open>^(?:query)(.+$)\<close>, case-insensitive: the rest of the value after the query,
  nonempty and without line terminators.
\<close>

definition frontMatch :: "string \<Rightarrow> string \<Rightarrow> string option" where
  "frontMatch query value =
     (let n = length query; rest = drop n value
      in if n < length value \<and> js_lower (take n value) = js_lower query \<and>
            list_all (\<lambda>c. char_code c \<noteq> 10 \<and> char_code c \<noteq> 13) rest
         then Some rest else None)"

definition Typeahead_updateHint :: "'d typeahead \<Rightarrow> 'd typeahead" where
  "Typeahead_updateHint ta =
     (let i = ta_input ta
      in ta\<lparr>ta_input :=
           (case getDatumForTopSuggestion (ta_dropdown ta) of
              Some datum \<Rightarrow>
                if Dropdown_isVisible (ta_dropdown ta) \<and> \<not> Input_hasOverflow i
                then (case frontMatch (normalizeQuery (in_val i)) (s_value datum) of
                        Some rest \<Rightarrow> Input_setHint (in_val i @ rest) i
                      | None \<Rightarrow> Input_clearHint i)
                else Input_clearHint i
            | None \<Rightarrow> Input_clearHint i)\<rparr>)"

definition Typeahead_onCursorMoved :: "'d typeahead \<Rightarrow> 'd typeahead js" where
  "Typeahead_onCursorMoved ta =
     (case getDatumForCursor (ta_dropdown ta) of
        None \<Rightarrow> Inl TypeError
      | Some datum \<Rightarrow>
          Inr (bus_trigger ''cursorchanged'' (Some datum)
            (ta\<lparr>ta_input := fst (Input_setInputValue (s_value datum) True (ta_input ta))\<rparr>)))"

definition Typeahead_onCursorRemoved :: "'d typeahead \<Rightarrow> 'd typeahead" where
  "Typeahead_onCursorRemoved ta =
     Typeahead_updateHint (ta\<lparr>ta_input := Input_resetInputValue (ta_input ta)\<rparr>)"

definition Typeahead_onOpened :: "'d typeahead \<Rightarrow> 'd typeahead" where
  "Typeahead_onOpened ta = bus_trigger ''opened'' None (Typeahead_updateHint ta)"

definition Typeahead_onClosed :: "'d typeahead \<Rightarrow> 'd typeahead" where
  "Typeahead_onClosed ta =
     bus_trigger ''closed'' None (ta\<lparr>ta_input := Input_clearHint (ta_input ta)\<rparr>)"

fun on_dropdown_event :: "'d typeahead js \<Rightarrow> dropdown_event \<Rightarrow> 'd typeahead js" where
  "on_dropdown_event m Opened = js_bind m (\<lambda>ta. Inr (Typeahead_onOpened ta))"
| "on_dropdown_event m Closed = js_bind m (\<lambda>ta. Inr (Typeahead_onClosed ta))"
| "on_dropdown_event m CursorMoved = js_bind m Typeahead_onCursorMoved"
| "on_dropdown_event m CursorRemoved = js_bind m (\<lambda>ta. Inr (Typeahead_onCursorRemoved ta))"
| "on_dropdown_event m DatasetRendered =
     js_bind m (\<lambda>ta. Inr (ta\<lparr>ta_ticks := ta_ticks ta @ [TickHint]\<rparr>))"

text \<open>A call of a dropdown method, with the handlers its triggers run.\<close>

definition on_dropdown ::
  "('d dropdown \<Rightarrow> 'd dropdown \<times> dropdown_event list) \<Rightarrow> 'd typeahead \<Rightarrow> 'd typeahead js" where
  "on_dropdown f ta =
     (let (d, evs) = f (ta_dropdown ta)
      in foldl on_dropdown_event (Inr (ta\<lparr>ta_dropdown := d\<rparr>)) evs)"

definition Typeahead_setLanguageDirection :: "'d typeahead \<Rightarrow> 'd typeahead" where
  "Typeahead_setLanguageDirection ta =
     (let css = in_cssDirection (ta_input ta);
          dir = js_lower (if css = [] then ''ltr'' else css)
      in if ta_dir ta \<noteq> Some dir
         then ta\<lparr>ta_dir := Some dir,
                 ta_dropdown := Dropdown_setLanguageDirection dir (ta_dropdown ta)\<rparr>
         else ta)"

definition Typeahead_onQueryChanged :: "string \<Rightarrow> 'd typeahead \<Rightarrow> 'd typeahead js" where
  "Typeahead_onQueryChanged query ta =
     (let ta1 = ta\<lparr>ta_input := Input_clearHintIfInvalid (ta_input ta)\<rparr>;
          m = (if int (length query) \<ge> ta_minLength ta1
               then Inr (ta1\<lparr>ta_dropdown := Dropdown_update query (ta_dropdown ta1)\<rparr>)
               else on_dropdown Dropdown_empty ta1)
      in js_bind (js_bind m (on_dropdown Dropdown_open))
           (\<lambda>ta. Inr (Typeahead_setLanguageDirection ta)))"

definition Typeahead_onWhitespaceChanged :: "'d typeahead \<Rightarrow> 'd typeahead js" where
  "Typeahead_onWhitespaceChanged ta = on_dropdown Dropdown_open (Typeahead_updateHint ta)"

fun on_value_event :: "'d typeahead js \<Rightarrow> input_event \<Rightarrow> 'd typeahead js" where
  "on_value_event m (QueryChanged q) = js_bind m (Typeahead_onQueryChanged q)"
| "on_value_event m (WhitespaceChanged q) = js_bind m Typeahead_onWhitespaceChanged"
| "on_value_event m e = m"

definition Typeahead_setInputValue :: "string \<Rightarrow> bool \<Rightarrow> 'd typeahead \<Rightarrow> 'd typeahead js" where
  "Typeahead_setInputValue value silent ta =
     (let (i, evs) = Input_setInputValue value silent (ta_input ta)
      in foldl on_value_event (Inr (ta\<lparr>ta_input := i\<rparr>)) evs)"

definition Typeahead_autocomplete :: "bool \<Rightarrow> 'd typeahead \<Rightarrow> 'd typeahead js" where
  "Typeahead_autocomplete laxCursor ta =
     (let i = ta_input ta
      in case in_hint i of
           Some hint \<Rightarrow>
             if hint \<noteq> [] \<and> in_query i \<noteq> hint \<and> (laxCursor \<or> in_caretAtEnd i)
             then (case getDatumForTopSuggestion (ta_dropdown ta) of
                     Some datum \<Rightarrow>
                       js_bind (Typeahead_setInputValue (s_value datum) False ta)
                         (\<lambda>ta. Inr (bus_trigger ''autocompleted'' (Some datum) ta))
                   | None \<Rightarrow> Inl TypeError)
             else Inr ta
         | None \<Rightarrow> Inr ta)"

definition Typeahead_select :: "'d suggestion \<Rightarrow> 'd typeahead \<Rightarrow> 'd typeahead js" where
  "Typeahead_select datum ta =
     (let i1 = Input_setQuery (s_value datum) (ta_input ta);
          i2 = fst (Input_setInputValue (s_value datum) True i1);
          ta1 = Typeahead_setLanguageDirection (ta\<lparr>ta_input := i2\<rparr>);
          ta2 = bus_trigger ''selected'' (Some datum) ta1
      in js_bind (on_dropdown Dropdown_close ta2)
           (\<lambda>ta. Inr (ta\<lparr>ta_ticks := ta_ticks ta @ [TickEmpty]\<rparr>)))"

definition Typeahead_onSuggestionClicked :: "nat \<Rightarrow> 'd typeahead \<Rightarrow> 'd typeahead js" where
  "Typeahead_onSuggestionClicked n ta =
     (let ss = Dropdown_getSuggestions (ta_dropdown ta)
      in if n < length ss then Typeahead_select (fst (ss ! n)) ta else Inr ta)"

definition Typeahead_onFocused :: "'d typeahead \<Rightarrow> 'd typeahead js" where
  "Typeahead_onFocused ta = on_dropdown Dropdown_open (ta\<lparr>ta_isActivated := True\<rparr>)"

definition Typeahead_onBlurred :: "'d typeahead \<Rightarrow> 'd typeahead js" where
  "Typeahead_onBlurred ta =
     js_bind (on_dropdown Dropdown_empty (ta\<lparr>ta_isActivated := False\<rparr>)) (on_dropdown Dropdown_close)"

definition Typeahead_onEnterKeyed :: "'d typeahead \<Rightarrow> 'd typeahead js" where
  "Typeahead_onEnterKeyed ta =
     (case (getDatumForCursor (ta_dropdown ta), getDatumForTopSuggestion (ta_dropdown ta)) of
        (Some datum, _) \<Rightarrow> Typeahead_select datum ta
      | (None, Some datum) \<Rightarrow> if ta_autoselect ta then Typeahead_select datum ta else Inr ta
      | (None, None) \<Rightarrow> Inr ta)"

definition Typeahead_onTabKeyed :: "'d typeahead \<Rightarrow> 'd typeahead js" where
  "Typeahead_onTabKeyed ta =
     (case getDatumForCursor (ta_dropdown ta) of
        Some datum \<Rightarrow> Typeahead_select datum ta
      | None \<Rightarrow> Typeahead_autocomplete True ta)"

definition Typeahead_onEscKeyed :: "'d typeahead \<Rightarrow> 'd typeahead js" where
  "Typeahead_onEscKeyed ta =
     js_bind (on_dropdown Dropdown_close ta)
       (\<lambda>ta. Inr (ta\<lparr>ta_input := Input_resetInputValue (ta_input ta)\<rparr>))"

text \<open>\<open>_onUpKeyed\<close> (increment -1) and \<open>_onDownKeyed\<close> (increment +1).\<close>

definition Typeahead_onArrowKeyed :: "int \<Rightarrow> 'd typeahead \<Rightarrow> 'd typeahead js" where
  "Typeahead_onArrowKeyed increment ta =
     (let query = in_query (ta_input ta);
          m = (if dd_isEmpty (ta_dropdown ta) \<and> int (length query) \<ge> ta_minLength ta
               then Inr (ta\<lparr>ta_dropdown := Dropdown_update query (ta_dropdown ta)\<rparr>)
               else on_dropdown (Dropdown_moveCursor increment) ta)
      in js_bind m (on_dropdown Dropdown_open))"

fun on_input_event :: "'d typeahead js \<Rightarrow> input_event \<Rightarrow> 'd typeahead js" where
  "on_input_event m Focused = js_bind m Typeahead_onFocused"
| "on_input_event m Blurred = js_bind m Typeahead_onBlurred"
| "on_input_event m (Keyed Enter) = js_bind m Typeahead_onEnterKeyed"
| "on_input_event m (Keyed Tab) = js_bind m Typeahead_onTabKeyed"
| "on_input_event m (Keyed Esc) = js_bind m Typeahead_onEscKeyed"
| "on_input_event m (Keyed Up) = js_bind m (Typeahead_onArrowKeyed (- 1))"
| "on_input_event m (Keyed Down) = js_bind m (Typeahead_onArrowKeyed 1)"
| "on_input_event m (Keyed LeftKey) =
     js_bind m (\<lambda>ta. if ta_dir ta = Some ''rtl'' then Typeahead_autocomplete False ta else Inr ta)"
| "on_input_event m (Keyed RightKey) =
     js_bind m (\<lambda>ta. if ta_dir ta = Some ''ltr'' then Typeahead_autocomplete False ta else Inr ta)"
| "on_input_event m e = on_value_event m e"

definition Typeahead_setVal :: "string option \<Rightarrow> 'd typeahead \<Rightarrow> 'd typeahead js" where
  "Typeahead_setVal v ta =
     (let val = (case v of None \<Rightarrow> [] | Some x \<Rightarrow> x);
          m = (if ta_isActivated ta then Typeahead_setInputValue val False ta
               else Typeahead_setInputValue val True
                      (ta\<lparr>ta_input := Input_setQuery val (ta_input ta)\<rparr>))
      in js_bind m (\<lambda>ta. Inr (Typeahead_setLanguageDirection ta)))"

definition Typeahead_getVal :: "'d typeahead \<Rightarrow> string" where
  "Typeahead_getVal ta = in_query (ta_input ta)"

text \<open>A response of the source of the dataset at an index, for the query it was asked.\<close>

definition Typeahead_respond :: "nat \<Rightarrow> string \<Rightarrow> 'd list \<Rightarrow> 'd typeahead \<Rightarrow> 'd typeahead js" where
  "Typeahead_respond k query suggestions ta =
     (let d = ta_dropdown ta
      in if k < length (dd_datasets d)
         then (let (rendered, ds) = Dataset_respond query suggestions (dd_datasets d ! k);
                   ta1 = ta\<lparr>ta_dropdown := d\<lparr>dd_datasets := (dd_datasets d)[k := ds]\<rparr>\<rparr>
               in if rendered then on_dropdown Dropdown_onRendered ta1 else Inr ta1)
         else Inr ta)"

definition new_Typeahead ::
  "bool \<Rightarrow> int option \<Rightarrow> bool \<Rightarrow> string \<Rightarrow> 'd dataset list \<Rightarrow> 'd typeahead" where
  "new_Typeahead autoselect minLength withHint initVal dss =
     Typeahead_setLanguageDirection
     \<lparr>ta_isActivated = False, ta_autoselect = autoselect,
      ta_minLength = (case minLength of Some n \<Rightarrow> n | None \<Rightarrow> 1), ta_dir = None,
      ta_input = \<lparr>in_query = initVal, in_val = initVal,
                  in_hint = (if withHint then Some [] else None), in_overflow = (\<lambda>_. False),
                  in_caretAtEnd = True, in_cssDirection = ''ltr''\<rparr>,
      ta_dropdown = new_Dropdown dss, ta_bus = [], ta_ticks = []\<rparr>"

text \<open>The widget's events. The mouse reaches a suggestion only while the menu is shown.\<close>

datatype 'd ta_event =
    UFocus | UBlur | UType string | UKey key_event | UClick nat | UEnter nat | ULeave
  | UEnv "string \<Rightarrow> bool" bool string
  | SResponse nat string "'d list" | NextTick | AOpen | AClose | ASetVal "string option"

definition run_tick :: "'d typeahead \<Rightarrow> 'd typeahead js" where
  "run_tick ta =
     (case ta_ticks ta of
        [] \<Rightarrow> Inr ta
      | TickHint # ts \<Rightarrow> Inr (Typeahead_updateHint (ta\<lparr>ta_ticks := ts\<rparr>))
      | TickEmpty # ts \<Rightarrow> on_dropdown Dropdown_empty (ta\<lparr>ta_ticks := ts\<rparr>))"

fun ta_step :: "'d typeahead js \<Rightarrow> 'd ta_event \<Rightarrow> 'd typeahead js" where
  "ta_step m UFocus =
     js_bind m (\<lambda>ta. let (i, evs) = Input_onFocus (ta_input ta)
                     in foldl on_input_event (Inr (ta\<lparr>ta_input := i\<rparr>)) evs)"
| "ta_step m UBlur =
     js_bind m (\<lambda>ta. let (i, evs) = Input_onBlur (ta_input ta)
                     in foldl on_input_event (Inr (ta\<lparr>ta_input := i\<rparr>)) evs)"
| "ta_step m (UType v) = js_bind m (Typeahead_setInputValue v False)"
| "ta_step m (UKey e) =
     js_bind m (\<lambda>ta. foldl on_input_event (Inr ta) (snd (Input_onKeydown e (ta_input ta))))"
| "ta_step m (UClick n) = js_bind m (Typeahead_onSuggestionClicked n)"
| "ta_step m (UEnter n) =
     js_bind m (\<lambda>ta. let d = ta_dropdown ta
                     in Inr (if dd_shown d \<and> n < length (Dropdown_getSuggestions d)
                             then ta\<lparr>ta_dropdown := Dropdown_onSuggestionMouseEnter n d\<rparr> else ta))"
| "ta_step m ULeave =
     js_bind m (\<lambda>ta. Inr (ta\<lparr>ta_dropdown := Dropdown_onSuggestionMouseLeave (ta_dropdown ta)\<rparr>))"
| "ta_step m (UEnv ov caret dir) =
     js_bind m (\<lambda>ta. Inr (ta\<lparr>ta_input := (ta_input ta)
        \<lparr>in_overflow := ov, in_caretAtEnd := caret, in_cssDirection := dir\<rparr>\<rparr>))"
| "ta_step m (SResponse k q ss) = js_bind m (Typeahead_respond k q ss)"
| "ta_step m NextTick = js_bind m run_tick"
| "ta_step m AOpen = js_bind m (on_dropdown Dropdown_open)"
| "ta_step m AClose = js_bind m (on_dropdown Dropdown_close)"
| "ta_step m (ASetVal v) = js_bind m (Typeahead_setVal v)"

section \<open>The cursor class\<close>

lemma suggs_append [simp]: "suggs (xs @ ys) = suggs xs @ suggs ys"
  by (induction xs rule: suggs.induct) auto

lemma suggs_mark:
  "suggs (mark_nodes n b ns) =
     (if n < length (suggs ns) then (suggs ns)[n := (fst (suggs ns ! n), b)] else suggs ns)"
  by (induction n b ns rule: mark_nodes.induct) (auto split: nat.splits)

definition all_suggs :: "'d dataset list \<Rightarrow> ('d suggestion \<times> bool) list" where
  "all_suggs dss = suggs (concat (map ds_nodes dss))"

lemma all_suggs_simps [simp]:
  "all_suggs [] = []" "all_suggs (ds # dss) = suggs (ds_nodes ds) @ all_suggs dss"
  "all_suggs (xs @ ys) = all_suggs xs @ all_suggs ys"
  by (simp_all add: all_suggs_def)

lemma getSuggestions_all: "Dropdown_getSuggestions d = all_suggs (dd_datasets d)"
  by (simp add: Dropdown_getSuggestions_def dd_nodes_def all_suggs_def)

lemma all_suggs_mark:
  "all_suggs (mark_datasets n b dss) =
     (if n < length (all_suggs dss) then (all_suggs dss)[n := (fst (all_suggs dss ! n), b)]
      else all_suggs dss)"
  by (induction n b dss rule: mark_datasets.induct)
     (auto simp: Let_def suggs_mark list_update_append nth_append)

lemma cursor_index_ge: "-1 \<le> cursor_index xs"
  by (induction xs rule: cursor_index.induct) (auto simp: Let_def)

lemma cursor_index_none: "cursor_index xs = -1 \<longleftrightarrow> filter snd xs = []"
proof (induction xs rule: cursor_index.induct)
  case (2 s c xs)
  then show ?case using cursor_index_ge [of xs] by (auto simp: Let_def)
qed simp

lemma cursor_index_some:
  "cursor_index xs \<noteq> -1 \<Longrightarrow>
     0 \<le> cursor_index xs \<and> nat (cursor_index xs) < length xs \<and> snd (xs ! nat (cursor_index xs)) \<and>
     length (filter snd (xs[nat (cursor_index xs) := (y, False)])) = length (filter snd xs) - 1"
proof (induction xs rule: cursor_index.induct)
  case (2 s c xs)
  show ?case
  proof (cases c)
    case False
    with 2(2) have ne: "cursor_index xs \<noteq> -1" by (auto simp: Let_def)
    moreover have "0 \<le> cursor_index xs" using ne cursor_index_ge [of xs] by linarith
    moreover have "nat (cursor_index xs + 1) = Suc (nat (cursor_index xs))" using calculation by simp
    ultimately show ?thesis using 2(1) False by (simp add: Let_def)
  qed simp
qed simp

definition cursors :: "'d dropdown \<Rightarrow> nat" where
  "cursors d = length (filter snd (all_suggs (dd_datasets d)))"

lemma cursors_remove: "cursors (Dropdown_removeCursor d) = cursors d - 1"
proof (cases "cursor_index (all_suggs (dd_datasets d)) = -1")
  case True
  then show ?thesis
    by (simp add: Dropdown_removeCursor_def getSuggestions_all cursors_def cursor_index_none)
next
  case False
  from cursor_index_some [OF False] show ?thesis
    using False by (simp add: Dropdown_removeCursor_def getSuggestions_all cursors_def all_suggs_mark Let_def)
qed

lemma filter_update_le: "length (filter snd (xs[n := (y, b)])) \<le> Suc (length (filter snd xs))"
proof (induction xs arbitrary: n)
  case (Cons x xs)
  then show ?case by (cases n) (auto intro: le_SucI)
qed simp

lemma cursors_set: "cursors (Dropdown_setCursor n d) \<le> Suc (cursors d)"
  by (auto simp: cursors_def Dropdown_setCursor_def all_suggs_mark filter_update_le le_SucI)

lemma mark_empty: "list_all Dataset_isEmpty (mark_datasets n b dss) = list_all Dataset_isEmpty dss"
proof (induction n b dss rule: mark_datasets.induct)
  case (2 n b ds dss)
  have "mark_nodes n b ns = [] \<longleftrightarrow> ns = []" for ns :: "'a node list"
    by (cases "(n, b, ns)" rule: mark_nodes.cases) (auto split: nat.split)
  with 2 show ?case by (auto simp: Let_def Dataset_isEmpty_def)
qed simp

section \<open>The invariant of the dropdown\<close>

text \<open>
  The menu is shown only while open and not empty, \<open>isEmpty\<close> says whether any dataset has
  rendered something, at most one suggestion has the cursor, and none has it in a closed
  dropdown. \<open>dd_weak\<close> leaves out what \<open>_onRendered\<close> re-establishes.
\<close>

definition dd_weak :: "'d dropdown \<Rightarrow> bool" where
  "dd_weak d \<longleftrightarrow> (dd_shown d \<longrightarrow> dd_isOpen d) \<and> cursors d \<le> 1 \<and> (\<not> dd_isOpen d \<longrightarrow> cursors d = 0)"

definition dd_inv :: "'d dropdown \<Rightarrow> bool" where
  "dd_inv d \<longleftrightarrow> dd_weak d \<and> (dd_shown d \<longrightarrow> \<not> dd_isEmpty d) \<and>
     (dd_isEmpty d \<longleftrightarrow> list_all Dataset_isEmpty (dd_datasets d))"

lemma removeCursor_frame [simp]:
  "dd_isOpen (Dropdown_removeCursor d) = dd_isOpen d"
  "dd_isEmpty (Dropdown_removeCursor d) = dd_isEmpty d"
  "dd_shown (Dropdown_removeCursor d) = dd_shown d"
  "list_all Dataset_isEmpty (dd_datasets (Dropdown_removeCursor d)) =
     list_all Dataset_isEmpty (dd_datasets d)"
  by (simp_all add: Dropdown_removeCursor_def Let_def mark_empty)

lemma setCursor_frame [simp]:
  "dd_isOpen (Dropdown_setCursor n d) = dd_isOpen d"
  "dd_isEmpty (Dropdown_setCursor n d) = dd_isEmpty d"
  "dd_shown (Dropdown_setCursor n d) = dd_shown d"
  "list_all Dataset_isEmpty (dd_datasets (Dropdown_setCursor n d)) =
     list_all Dataset_isEmpty (dd_datasets d)"
  by (simp_all add: Dropdown_setCursor_def mark_empty)

lemma dd_inv_setCursor:
  "dd_inv d \<Longrightarrow> dd_isOpen d \<Longrightarrow> dd_inv (Dropdown_setCursor n (Dropdown_removeCursor d))"
  using cursors_set [of n "Dropdown_removeCursor d"] cursors_remove [of d]
  by (auto simp: dd_inv_def dd_weak_def)

lemma dd_inv_removeCursor: "dd_inv d \<Longrightarrow> dd_inv (Dropdown_removeCursor d)"
  using cursors_remove [of d] by (auto simp: dd_inv_def dd_weak_def)

lemma dd_inv_moveCursor: "dd_inv d \<Longrightarrow> dd_inv (fst (Dropdown_moveCursor inc d))"
  by (auto simp: Dropdown_moveCursor_def Let_def dd_inv_setCursor dd_inv_removeCursor)

lemma cursors_fields [simp]:
  "cursors (d\<lparr>dd_isOpen := a\<rparr>) = cursors d" "cursors (d\<lparr>dd_isEmpty := a\<rparr>) = cursors d"
  "cursors (d\<lparr>dd_shown := a\<rparr>) = cursors d" "cursors (d\<lparr>dd_dir := x\<rparr>) = cursors d"
  by (simp_all add: cursors_def)

lemma dd_inv_onRendered: "dd_weak d \<Longrightarrow> dd_inv (fst (Dropdown_onRendered d))"
  by (auto simp: Dropdown_onRendered_def Let_def dd_inv_def dd_weak_def)

lemma dd_inv_close: "dd_inv d \<Longrightarrow> dd_inv (fst (Dropdown_close d))"
  using cursors_remove [of "d\<lparr>dd_isOpen := False\<rparr>"]
  by (auto simp: Dropdown_close_def dd_inv_def dd_weak_def)

lemma dd_inv_open: "dd_inv d \<Longrightarrow> dd_inv (fst (Dropdown_open d))"
  by (auto simp: Dropdown_open_def dd_inv_def dd_weak_def)

lemma dd_inv_update: "dd_inv d \<Longrightarrow> dd_inv (Dropdown_update q d)"
proof -
  have "map ds_nodes (map (Dataset_update q) dss) = map ds_nodes dss" for dss :: "'a dataset list"
    by (simp add: Dataset_update_def)
  then have "cursors (Dropdown_update q d) = cursors d"
    by (simp add: cursors_def Dropdown_update_def all_suggs_def del: map_map)
  then show "dd_inv d \<Longrightarrow> dd_inv (Dropdown_update q d)"
    by (auto simp: dd_inv_def dd_weak_def Dropdown_update_def list_all_iff Dataset_isEmpty_def
        Dataset_update_def)
qed

text \<open>Replacing what a dataset has rendered by nodes without a cursor.\<close>

lemma cursors_replace:
  assumes "filter snd (suggs (ds_nodes ds)) = []"
  shows "cursors (d\<lparr>dd_datasets := (dd_datasets d)[k := ds]\<rparr>) \<le> cursors d"
proof -
  have "length (filter snd (all_suggs (dss[k := ds]))) \<le> length (filter snd (all_suggs dss))" for dss
    using assms by (induction dss arbitrary: k) (auto split: nat.split simp: trans_le_add2)
  then show ?thesis by (simp add: cursors_def)
qed

lemma dd_weak_replace:
  assumes "dd_weak d" "filter snd (suggs (ds_nodes ds)) = []"
  shows "dd_weak (d\<lparr>dd_datasets := (dd_datasets d)[k := ds]\<rparr>)"
  using assms cursors_replace [OF assms(2), of d k] by (auto simp: dd_weak_def)

lemma clear_from_Suc:
  "clear_from i d (Suc n) =
     (let r = Dropdown_onRendered (d\<lparr>dd_datasets := (dd_datasets d)[i := Dataset_clear (dd_datasets d ! i)]\<rparr>);
          r' = clear_from (Suc i) (fst r) n
      in (fst r', snd r @ snd r'))"
  by (simp add: Let_def case_prod_beta)

lemma onRendered_datasets [simp]: "dd_datasets (fst (Dropdown_onRendered d)) = dd_datasets d"
  by (simp add: Dropdown_onRendered_def Let_def)

lemma clear_from_inv: "dd_inv d \<Longrightarrow> dd_inv (fst (clear_from i d n))"
proof (induction n arbitrary: i d)
  case (Suc n)
  let ?d1 = "d\<lparr>dd_datasets := (dd_datasets d)[i := Dataset_clear (dd_datasets d ! i)]\<rparr>"
  have "dd_weak ?d1"
    using Suc(2) by (intro dd_weak_replace) (auto simp: dd_inv_def Dataset_clear_def)
  then have "dd_inv (fst (Dropdown_onRendered ?d1))" by (rule dd_inv_onRendered)
  with Suc(1) show ?case by (simp add: clear_from_Suc Let_def del: clear_from.simps)
qed simp

lemma clear_from_nodes:
  "i + n \<le> length (dd_datasets d) \<Longrightarrow>
   dd_datasets (fst (clear_from i d n)) =
     take i (dd_datasets d) @ map Dataset_clear (take n (drop i (dd_datasets d))) @
       drop (i + n) (dd_datasets d)"
proof (induction n arbitrary: i d)
  case (Suc n)
  let ?dss = "dd_datasets d"
  have "take (Suc i) (?dss[i := x]) = take i ?dss @ [x]" for x
    using Suc(2) by (simp add: take_Suc_conv_app_nth)
  moreover have "take (Suc n) (drop i ?dss) = ?dss ! i # take n (drop (Suc i) ?dss)"
    using Suc(2) by (simp add: Cons_nth_drop_Suc [symmetric])
  ultimately show ?case using Suc
    by (simp add: clear_from_Suc Let_def del: clear_from.simps)
qed simp

lemma empty_datasets: "dd_datasets (fst (Dropdown_empty d)) = map Dataset_clear (dd_datasets d)"
  using clear_from_nodes [of 0 "length (dd_datasets d)" d]
  by (simp add: Dropdown_empty_def case_prod_beta)

lemma dd_inv_empty: "dd_inv d \<Longrightarrow> dd_inv (fst (Dropdown_empty d))"
proof -
  assume "dd_inv d"
  then have "dd_inv (fst (clear_from 0 d (length (dd_datasets d))))" by (rule clear_from_inv)
  moreover have "list_all Dataset_isEmpty (dd_datasets (fst (Dropdown_empty d)))"
    unfolding empty_datasets by (auto simp: list_all_iff Dataset_isEmpty_def Dataset_clear_def)
  ultimately show ?thesis
    by (auto simp: Dropdown_empty_def case_prod_beta dd_inv_def dd_weak_def)
qed

section \<open>The invariant of the whole widget\<close>

definition ta_inv :: "'d typeahead js \<Rightarrow> bool" where
  "ta_inv m = (case m of Inl e \<Rightarrow> e = TypeError | Inr ta \<Rightarrow> dd_inv (ta_dropdown ta))"

lemma ta_inv_simps [simp]:
  "ta_inv (Inr ta) = dd_inv (ta_dropdown ta)" "ta_inv (Inl TypeError)"
  by (simp_all add: ta_inv_def)

lemma ta_inv_bind [intro]:
  "ta_inv m \<Longrightarrow> (\<And>ta. dd_inv (ta_dropdown ta) \<Longrightarrow> ta_inv (f ta)) \<Longrightarrow> ta_inv (js_bind m f)"
  by (cases m) (auto simp: ta_inv_def)

lemma updateHint_dropdown [simp]: "ta_dropdown (Typeahead_updateHint ta) = ta_dropdown ta"
  by (simp add: Typeahead_updateHint_def Let_def)

lemma bus_trigger_dropdown [simp]: "ta_dropdown (bus_trigger n d ta) = ta_dropdown ta"
  by (simp add: bus_trigger_def)

lemma on_dropdown_event_inv: "ta_inv m \<Longrightarrow> ta_inv (on_dropdown_event m e)"
  by (cases e; cases m)
     (auto simp: ta_inv_def Typeahead_onOpened_def Typeahead_onClosed_def
       Typeahead_onCursorMoved_def Typeahead_onCursorRemoved_def split: option.split)

lemma foldl_inv: "(\<And>m e. ta_inv m \<Longrightarrow> ta_inv (f m e)) \<Longrightarrow> ta_inv m \<Longrightarrow> ta_inv (foldl f m es)"
  by (induction es arbitrary: m) auto

lemma on_dropdown_inv [intro]:
  "dd_inv (fst (f (ta_dropdown ta))) \<Longrightarrow> ta_inv (on_dropdown f ta)"
  by (auto simp: on_dropdown_def case_prod_beta intro!: foldl_inv on_dropdown_event_inv)

lemmas dd_inv_ops [intro] = dd_inv_close dd_inv_open dd_inv_empty dd_inv_moveCursor dd_inv_update
  dd_inv_removeCursor

lemma on_dropdown_ops [intro, simp]:
  "dd_inv (ta_dropdown ta) \<Longrightarrow> ta_inv (on_dropdown Dropdown_close ta)"
  "dd_inv (ta_dropdown ta) \<Longrightarrow> ta_inv (on_dropdown Dropdown_open ta)"
  "dd_inv (ta_dropdown ta) \<Longrightarrow> ta_inv (on_dropdown Dropdown_empty ta)"
  "dd_inv (ta_dropdown ta) \<Longrightarrow> ta_inv (on_dropdown (Dropdown_moveCursor k) ta)"
  by (auto intro!: on_dropdown_inv)

lemma dd_inv_dir [simp]: "dd_inv (Dropdown_setLanguageDirection x d) = dd_inv d"
  by (simp add: dd_inv_def dd_weak_def Dropdown_setLanguageDirection_def)

lemma setLanguageDirection_inv [simp]:
  "dd_inv (ta_dropdown (Typeahead_setLanguageDirection ta)) = dd_inv (ta_dropdown ta)"
  by (simp add: Typeahead_setLanguageDirection_def Let_def)

lemma onQueryChanged_inv:
  "dd_inv (ta_dropdown ta) \<Longrightarrow> ta_inv (Typeahead_onQueryChanged q ta)"
  unfolding Typeahead_onQueryChanged_def Let_def by (intro ta_inv_bind) auto

lemma onWhitespaceChanged_inv:
  "dd_inv (ta_dropdown ta) \<Longrightarrow> ta_inv (Typeahead_onWhitespaceChanged ta)"
  by (simp add: Typeahead_onWhitespaceChanged_def)

lemma on_value_event_inv: "ta_inv m \<Longrightarrow> ta_inv (on_value_event m e)"
  by (cases e) (auto intro: onWhitespaceChanged_inv onQueryChanged_inv)

lemma setInputValue_inv:
  "dd_inv (ta_dropdown ta) \<Longrightarrow> ta_inv (Typeahead_setInputValue v s ta)"
  by (auto simp: Typeahead_setInputValue_def case_prod_beta intro!: foldl_inv on_value_event_inv)

lemma autocomplete_inv: "dd_inv (ta_dropdown ta) \<Longrightarrow> ta_inv (Typeahead_autocomplete l ta)"
  by (auto simp: Typeahead_autocomplete_def Let_def intro!: setInputValue_inv split: option.split)

lemma select_inv: "dd_inv (ta_dropdown ta) \<Longrightarrow> ta_inv (Typeahead_select s ta)"
  unfolding Typeahead_select_def Let_def by (intro ta_inv_bind) auto

lemma on_input_event_inv: "ta_inv m \<Longrightarrow> ta_inv (on_input_event m e)"
proof -
  have *: "dd_inv (ta_dropdown ta) \<Longrightarrow> ta_inv (Typeahead_onFocused ta)"
    "dd_inv (ta_dropdown ta) \<Longrightarrow> ta_inv (Typeahead_onBlurred ta)"
    "dd_inv (ta_dropdown ta) \<Longrightarrow> ta_inv (Typeahead_onEnterKeyed ta)"
    "dd_inv (ta_dropdown ta) \<Longrightarrow> ta_inv (Typeahead_onTabKeyed ta)"
    "dd_inv (ta_dropdown ta) \<Longrightarrow> ta_inv (Typeahead_onEscKeyed ta)"
    "dd_inv (ta_dropdown ta) \<Longrightarrow> ta_inv (Typeahead_onArrowKeyed k ta)" for ta :: "'a typeahead" and k
    by (auto simp: Typeahead_onFocused_def Typeahead_onBlurred_def Typeahead_onEnterKeyed_def
        Typeahead_onTabKeyed_def Typeahead_onEscKeyed_def Typeahead_onArrowKeyed_def select_inv
        autocomplete_inv Let_def dd_inv_update split: option.split intro!: ta_inv_bind)
  assume "ta_inv m"
  then show ?thesis
    by (cases "(m, e)" rule: on_input_event.cases)
       (auto intro!: ta_inv_bind * autocomplete_inv onQueryChanged_inv onWhitespaceChanged_inv)
qed

lemma suggs_map_node [simp]: "filter snd (suggs (map (\<lambda>d. NSugg (f d) False) xs)) = []"
  by (induction xs) auto

lemma respond_inv: "dd_inv (ta_dropdown ta) \<Longrightarrow> ta_inv (Typeahead_respond k q ss ta)"
proof -
  let ?d = "ta_dropdown ta" and ?ds = "Dataset_render ss (dd_datasets (ta_dropdown ta) ! k)"
  assume inv: "dd_inv ?d"
  have "filter snd (suggs (ds_nodes ?ds)) = []"
    by (simp add: Dataset_render_def Let_def)
  then have "dd_inv (fst (Dropdown_onRendered (?d\<lparr>dd_datasets := (dd_datasets ?d)[k := ?ds]\<rparr>)))"
    using inv by (intro dd_inv_onRendered dd_weak_replace) (auto simp: dd_inv_def)
  then show ?thesis using inv
    by (auto simp: Typeahead_respond_def Dataset_respond_def Let_def)
qed

lemma dd_shown_open: "dd_inv d \<Longrightarrow> dd_shown d \<Longrightarrow> dd_isOpen d"
  by (auto simp: dd_inv_def dd_weak_def)

lemma setVal_inv: "dd_inv (ta_dropdown ta) \<Longrightarrow> ta_inv (Typeahead_setVal v ta)"
  unfolding Typeahead_setVal_def Let_def by (intro ta_inv_bind) (auto intro!: setInputValue_inv)

lemma mouse_inv:
  "dd_inv d \<Longrightarrow> dd_inv (Dropdown_onSuggestionMouseLeave d)"
  "dd_inv d \<Longrightarrow> dd_shown d \<Longrightarrow> dd_inv (Dropdown_onSuggestionMouseEnter n d)"
  by (auto simp: Dropdown_onSuggestionMouseLeave_def Dropdown_onSuggestionMouseEnter_def
      intro: dd_inv_setCursor dd_inv_removeCursor dd_shown_open)

lemma ta_step_inv: "ta_inv m \<Longrightarrow> ta_inv (ta_step m e)"
  by (cases e)
     (auto simp: case_prod_beta run_tick_def Typeahead_onSuggestionClicked_def mouse_inv Let_def
        split: list.split tick.split
        intro!: ta_inv_bind foldl_inv on_input_event_inv setInputValue_inv respond_inv select_inv
          setVal_inv)

interpretation tah: step_invariant ta_step ta_inv
  by unfold_locales (rule ta_step_inv)

section \<open>Moving the cursor\<close>

lemma cursor_index_lt: "cursor_index xs < int (length xs)"
  by (induction xs rule: cursor_index.induct) (auto simp: Let_def)

lemma cursor_index_update:
  "filter snd xs = [] \<Longrightarrow> n < length xs \<Longrightarrow> cursor_index (xs[n := (y, True)]) = int n"
proof (induction xs arbitrary: n)
  case (Cons x xs)
  then show ?case by (cases n; cases x) (auto simp: Let_def split: if_splits)
qed simp

lemma removeCursor_none:
  assumes "cursors d \<le> 1"
  shows "filter snd (Dropdown_getSuggestions (Dropdown_removeCursor d)) = []"
  using cursors_remove [of d] assms by (simp add: cursors_def getSuggestions_all)

lemma mark_fst: "map fst (all_suggs (mark_datasets n b dss)) = map fst (all_suggs dss)"
  by (auto simp: all_suggs_mark map_update list_update_same_conv nth_append)

lemma removeCursor_fst:
  "map fst (Dropdown_getSuggestions (Dropdown_removeCursor d)) = map fst (Dropdown_getSuggestions d)"
  by (simp add: Dropdown_removeCursor_def getSuggestions_all mark_fst Let_def)

lemma setCursor_fst:
  "map fst (Dropdown_getSuggestions (Dropdown_setCursor n d)) = map fst (Dropdown_getSuggestions d)"
  by (simp add: Dropdown_setCursor_def getSuggestions_all mark_fst)

lemma setCursor_index:
  assumes "filter snd (Dropdown_getSuggestions d) = []" "0 \<le> n"
    "n < int (length (Dropdown_getSuggestions d))"
  shows "cursor_index (Dropdown_getSuggestions (Dropdown_setCursor n d)) = n"
  using assms by (simp add: Dropdown_setCursor_def getSuggestions_all all_suggs_mark nat_less_iff
      cursor_index_update)

lemma nextCursorIndex_cycles:
  assumes "-1 \<le> old" "old < len" "k = 1 \<or> k = -1"
  shows "nextCursorIndex old k len + 1 = (old + 1 + k) mod (len + 1)"
proof (cases "k = -1 \<and> old = -1")
  case True
  then have "(old + 1 + k) mod (len + 1) = len"
    using assms by (simp add: zmod_minus1)
  moreover have "0 < len \<Longrightarrow> js_rem (- 1) (len + 1) = - 1" by (simp add: js_rem_def)
  moreover have "js_rem (- 1) 1 = 0" by (simp add: js_rem_def)
  moreover have "len = 0 \<or> 0 < len" using True assms by auto
  ultimately show ?thesis using conjunct1 [OF True] conjunct2 [OF True]
    by (elim disjE) (simp_all add: nextCursorIndex_def Let_def)
next
  case False
  then have "0 \<le> old + k + 1" using assms by auto
  moreover have "0 \<le> (old + k + 1) mod (len + 1)" using assms by simp
  ultimately show ?thesis by (simp add: nextCursorIndex_def Let_def algebra_simps)
qed

text \<open>
  in an open dropdown the arrow keys move the cursor around the cycle of \<open>n + 1\<close>
  positions made of the input (no cursor) and the \<open>n\<close> suggestions: down is the next
  position, up the previous one, and after the last suggestion comes the input again. The
  suggestions themselves do not change, and the event says whether a suggestion has the
  cursor.
\<close>

lemma moveCursor_cycles:
  assumes "dd_inv d" "dd_isOpen d" "k = 1 \<or> k = -1"
  shows "cursor_index (Dropdown_getSuggestions (fst (Dropdown_moveCursor k d))) + 1 =
      (cursor_index (Dropdown_getSuggestions d) + 1 + k) mod
        (int (length (Dropdown_getSuggestions d)) + 1) \<and>
    map fst (Dropdown_getSuggestions (fst (Dropdown_moveCursor k d))) =
      map fst (Dropdown_getSuggestions d) \<and>
    snd (Dropdown_moveCursor k d) =
      (if cursor_index (Dropdown_getSuggestions (fst (Dropdown_moveCursor k d))) = -1
       then [CursorRemoved] else [CursorMoved])"
proof -
  let ?ss = "Dropdown_getSuggestions d" and ?d1 = "Dropdown_removeCursor d"
  let ?n = "nextCursorIndex (cursor_index ?ss) k (int (length ?ss))"
  have step: "?n + 1 = (cursor_index ?ss + 1 + k) mod (int (length ?ss) + 1)"
    using assms(3) by (intro nextCursorIndex_cycles cursor_index_ge cursor_index_lt)
  have "0 \<le> ?n + 1 \<and> ?n + 1 < int (length ?ss) + 1" unfolding step
    using pos_mod_bound [of "int (length ?ss) + 1" "cursor_index ?ss + 1 + k"] by simp
  then have n: "-1 \<le> ?n" "?n < int (length ?ss)" by auto
  have none: "filter snd (Dropdown_getSuggestions ?d1) = []"
    using assms(1) by (intro removeCursor_none) (simp add: dd_inv_def dd_weak_def)
  have len: "length (Dropdown_getSuggestions ?d1) = length ?ss"
    using removeCursor_fst [of d] by (metis length_map)
  have eq: "Dropdown_moveCursor k d =
      (if ?n = -1 then (?d1, [CursorRemoved]) else (Dropdown_setCursor ?n ?d1, [CursorMoved]))"
    using assms(2) by (simp add: Dropdown_moveCursor_def Let_def)
  have pos: "cursor_index (Dropdown_getSuggestions (fst (Dropdown_moveCursor k d))) = ?n"
    using none n by (auto simp: eq len cursor_index_none intro!: setCursor_index)
  moreover have "map fst (Dropdown_getSuggestions (fst (Dropdown_moveCursor k d))) = map fst ?ss"
    by (simp add: eq setCursor_fst removeCursor_fst)
  moreover have "snd (Dropdown_moveCursor k d) = (if ?n = -1 then [CursorRemoved] else [CursorMoved])"
    by (simp add: eq)
  ultimately show ?thesis by (simp only: step simp_thms)
qed

definition sample_dataset :: "string dataset" where
  "sample_dataset = \<lparr>ds_name = ''x'', ds_query = None, ds_canceled = False, ds_displayFn = id,
     ds_hasEmpty = False, ds_hasHeader = True, ds_hasFooter = False, ds_nodes = []\<rparr>"

definition sample_dropdown :: "string dropdown" where
  "sample_dropdown = (new_Dropdown [Dataset_render [''ab'', ''ac''] sample_dataset])
     \<lparr>dd_isOpen := True, dd_isEmpty := False, dd_shown := True\<rparr>"

lemmas sample_defs = sample_dropdown_def sample_dataset_def new_Dropdown_def Dataset_render_def

section \<open>Runs of the widget\<close>

lemma new_Typeahead_inv:
  "list_all Dataset_isEmpty dss \<Longrightarrow> ta_inv (Inr (new_Typeahead auto minL hint v dss))"
proof -
  assume "list_all Dataset_isEmpty dss"
  moreover from this have "all_suggs dss = []"
    by (induction dss) (auto simp: Dataset_isEmpty_def)
  ultimately have "dd_inv (new_Dropdown dss)"
    by (simp add: dd_inv_def dd_weak_def new_Dropdown_def cursors_def)
  then show ?thesis by (simp add: new_Typeahead_def)
qed

text \<open>
  C12: whatever the user types, presses and points at, whatever the sources answer and in
  whatever order, the menu of a widget is shown exactly when something can be seen in it
  and it is open or about to be (\<open>dd_shown\<close> only when open and not empty), at most one
  suggestion has the cursor, a closed menu has none, and \<open>isEmpty\<close> tells whether every
  dataset has rendered nothing. The only exception that can end a run is the \<open>TypeError\<close>
  of reading a missing datum.
\<close>

theorem typeahead_invariant:
  assumes "list_all Dataset_isEmpty dss"
  shows "case foldl ta_step (Inr (new_Typeahead auto minL hint v dss)) es of
      Inl e \<Rightarrow> e = TypeError
    | Inr ta \<Rightarrow> (let d = ta_dropdown ta in
        (dd_shown d \<longrightarrow> dd_isOpen d \<and> \<not> dd_isEmpty d) \<and>
        length (filter snd (Dropdown_getSuggestions d)) \<le> (if dd_isOpen d then 1 else 0) \<and>
        (dd_isEmpty d \<longleftrightarrow> list_all Dataset_isEmpty (dd_datasets d)))"
proof -
  have "ta_inv (foldl ta_step (Inr (new_Typeahead auto minL hint v dss)) es)"
    using tah.run_keeps new_Typeahead_inv [OF assms] by blast
  then show ?thesis
    by (auto simp: ta_inv_def dd_inv_def dd_weak_def cursors_def getSuggestions_all Let_def
        split: sum.splits)
qed

definition key :: "int \<Rightarrow> string ta_event" where
  "key n = UKey \<lparr>keyCode = n, altKey = False, ctrlKey = False, metaKey = False, shiftKey = False\<rparr>"

definition sample_run :: "string ta_event list \<Rightarrow> string typeahead js" where
  "sample_run es = foldl ta_step (Inr (new_Typeahead False None True [] [sample_dataset])) es"

theorem typeahead_invariant_witness:
  "list_all Dataset_isEmpty [sample_dataset] \<and>
   (case sample_run [UFocus, UType ''a'', SResponse 0 ''a'' [''ab'', ''ac''], key 40, key 40] of
      Inl e \<Rightarrow> False
    | Inr ta \<Rightarrow> dd_shown (ta_dropdown ta) \<and> dd_isOpen (ta_dropdown ta) \<and> in_val (ta_input ta) = ''ac'' \<and>
        length (filter snd (Dropdown_getSuggestions (ta_dropdown ta))) \<le> 1)"
proof -
  let ?es = "[UFocus, UType ''a'', SResponse 0 ''a'' [''ab'', ''ac''], key 40, key 40]"
  have e: "list_all Dataset_isEmpty [sample_dataset]" by code_simp
  have "case sample_run ?es of Inl e \<Rightarrow> False
    | Inr ta \<Rightarrow> dd_shown (ta_dropdown ta) \<and> dd_isOpen (ta_dropdown ta) \<and> in_val (ta_input ta) = ''ac''"
    by code_simp
  then show ?thesis
    using e typeahead_invariant [OF e, of False None True "[]" ?es]
    by (auto simp: sample_run_def Let_def split: sum.splits)
qed

lemma select_total:
  "\<exists>ta'. Typeahead_select datum ta = Inr ta' \<and>
     ta_dropdown ta' = fst (Dropdown_close (ta_dropdown (Typeahead_setLanguageDirection ta))) \<and>
     in_val (ta_input ta') = s_value datum \<and> in_query (ta_input ta') = s_value datum \<and>
     in_hint (ta_input ta') = map_option (\<lambda>_. []) (in_hint (ta_input ta)) \<and>
     (''selected'', Some datum) \<in> set (ta_bus ta') \<and> ta_ticks ta' = ta_ticks ta @ [TickEmpty]"
  by (cases "in_hint (ta_input ta)")
     (auto simp: Typeahead_select_def on_dropdown_def Let_def Dropdown_close_def Typeahead_onClosed_def
      Typeahead_setLanguageDirection_def bus_trigger_def Input_setInputValue_def Input_setQuery_def
      Input_clearHint_def Input_setHint_def)

text \<open>
  choosing a suggestion (\<open>_select\<close>: Enter or Tab on the cursor, or a click) always
  returns. The input and the stored query are then the suggestion's value, the hint is
  erased, the menu is closed and hidden with no cursor left, \<open>selected\<close> has been
  announced with the suggestion, and the menu is emptied on the next tick.
\<close>

lemma select_effect:
  assumes "dd_inv (ta_dropdown ta)"
  shows "\<exists>ta'. Typeahead_select datum ta = Inr ta' \<and>
     in_val (ta_input ta') = s_value datum \<and> Typeahead_getVal ta' = s_value datum \<and>
     in_hint (ta_input ta') = map_option (\<lambda>_. []) (in_hint (ta_input ta)) \<and>
     \<not> dd_isOpen (ta_dropdown ta') \<and> \<not> dd_shown (ta_dropdown ta') \<and>
     getDatumForCursor (ta_dropdown ta') = None \<and>
     (''selected'', Some datum) \<in> set (ta_bus ta') \<and> ta_ticks ta' = ta_ticks ta @ [TickEmpty]"
proof -
  let ?d = "fst (Dropdown_close (ta_dropdown (Typeahead_setLanguageDirection ta)))"
  have "dd_inv ?d" using assms by (intro dd_inv_close) simp
  moreover have "\<not> dd_isOpen ?d" by (simp add: Dropdown_close_def)
  ultimately have "\<not> dd_shown ?d" "getDatumForCursor ?d = None"
    by (auto simp: dd_inv_def dd_weak_def getDatumForCursor_def Let_def cursor_index_none
        cursors_def getSuggestions_all)
  with \<open>\<not> dd_isOpen ?d\<close> select_total [of datum ta] show ?thesis
    by (auto simp: Typeahead_getVal_def)
qed

lemma on_dropdown_event_keeps:
  "e \<noteq> CursorMoved \<Longrightarrow> \<exists>ta'. on_dropdown_event (Inr ta) e = Inr ta' \<and> ta_dropdown ta' = ta_dropdown ta"
  by (cases e) (auto simp: Typeahead_onOpened_def Typeahead_onClosed_def Typeahead_onCursorRemoved_def)

lemma foldl_events_keep:
  "CursorMoved \<notin> set es \<Longrightarrow>
   \<exists>ta'. foldl on_dropdown_event (Inr ta) es = Inr ta' \<and> ta_dropdown ta' = ta_dropdown ta"
proof (induction es arbitrary: ta)
  case (Cons e es)
  then obtain ta1 where "on_dropdown_event (Inr ta) e = Inr ta1" "ta_dropdown ta1 = ta_dropdown ta"
    using on_dropdown_event_keeps [of e ta] by auto
  with Cons.IH [of ta1] Cons.prems show ?case by simp
qed simp

lemma on_dropdown_keeps:
  "CursorMoved \<notin> set (snd (f (ta_dropdown ta))) \<Longrightarrow>
   \<exists>ta'. on_dropdown f ta = Inr ta' \<and> ta_dropdown ta' = fst (f (ta_dropdown ta))"
  using foldl_events_keep [of "snd (f (ta_dropdown ta))" "ta\<lparr>ta_dropdown := fst (f (ta_dropdown ta))\<rparr>"]
  by (simp add: on_dropdown_def case_prod_beta)

lemma clear_from_events: "set (snd (clear_from i d n)) \<subseteq> {DatasetRendered}"
  by (induction n arbitrary: i d)
     (auto simp: clear_from_Suc Let_def Dropdown_onRendered_def simp del: clear_from.simps(2))

lemma close_canceled:
  "list_all ds_canceled (dd_datasets d) \<Longrightarrow> list_all ds_canceled (dd_datasets (fst (Dropdown_close d)))"
proof -
  have "list_all ds_canceled (mark_datasets n b dss) = list_all ds_canceled dss" for n b
    and dss :: "'a dataset list"
    by (induction n b dss rule: mark_datasets.induct) (auto simp: Let_def)
  then show "list_all ds_canceled (dd_datasets d) \<Longrightarrow>
      list_all ds_canceled (dd_datasets (fst (Dropdown_close d)))"
    by (simp add: Dropdown_close_def Dropdown_removeCursor_def Let_def)
qed

text \<open>
  after the input lost the focus no response of a source changes what is rendered:
  \<open>empty\<close> has cancelled every dataset, so a response to any query, old or current, is
  dropped until the next \<open>update\<close>.
\<close>

lemma blurred_drops_responses:
  "\<exists>ta'. Typeahead_onBlurred ta = Inr ta' \<and> \<not> dd_isOpen (ta_dropdown ta') \<and>
     Typeahead_respond k query suggestions ta' = Inr ta'"
proof -
  let ?d = "fst (Dropdown_empty (ta_dropdown ta))"
  have "CursorMoved \<notin> set (snd (Dropdown_empty (ta_dropdown ta)))"
    using clear_from_events [of 0 "ta_dropdown ta"] by (auto simp: Dropdown_empty_def case_prod_beta)
  then obtain ta1 where 1: "on_dropdown Dropdown_empty (ta\<lparr>ta_isActivated := False\<rparr>) = Inr ta1"
      "ta_dropdown ta1 = ?d"
    using on_dropdown_keeps [of Dropdown_empty "ta\<lparr>ta_isActivated := False\<rparr>"] by auto
  have "CursorMoved \<notin> set (snd (Dropdown_close ?d))" by (simp add: Dropdown_close_def)
  then obtain ta2 where 2: "on_dropdown Dropdown_close ta1 = Inr ta2"
      "ta_dropdown ta2 = fst (Dropdown_close ?d)"
    using on_dropdown_keeps [of Dropdown_close ta1] 1(2) by auto
  have "list_all ds_canceled (dd_datasets ?d)"
    by (simp add: empty_datasets list_all_iff Dataset_clear_def Dataset_cancel_def)
  then have "list_all ds_canceled (dd_datasets (ta_dropdown ta2))"
    unfolding 2(2) by (rule close_canceled)
  then have "Typeahead_respond k query suggestions ta2 = Inr ta2"
    by (auto simp: Typeahead_respond_def Dataset_respond_def Let_def list_all_length)
  moreover have "\<not> dd_isOpen (ta_dropdown ta2)" by (simp add: 2(2) Dropdown_close_def)
  ultimately show ?thesis using 1 2 by (auto simp: Typeahead_onBlurred_def)
qed

section \<open>Hints and queries\<close>

text \<open>
  the hint shown behind the input always continues what the user has typed. After
  \<open>_updateHint\<close> it is either empty or strictly longer than the input's value and starts
  with it; in the second case the menu is visible, the text does not overflow, and typed
  query and continuation together are the top suggestion up to letter case.
\<close>

lemma updateHint_continues:
  "case in_hint (ta_input (Typeahead_updateHint ta)) of
     None \<Rightarrow> in_hint (ta_input ta) = None
   | Some h \<Rightarrow> h = [] \<or>
       (\<exists>rest datum. h = in_val (ta_input ta) @ rest \<and> rest \<noteq> [] \<and>
          getDatumForTopSuggestion (ta_dropdown ta) = Some datum \<and>
          js_lower (normalizeQuery (in_val (ta_input ta)) @ rest) = js_lower (s_value datum) \<and>
          Dropdown_isVisible (ta_dropdown ta) \<and> \<not> Input_hasOverflow (ta_input ta))"
proof -
  let ?q = "normalizeQuery (in_val (ta_input ta))"
  have "frontMatch ?q v = Some rest \<Longrightarrow> rest \<noteq> [] \<and> js_lower (?q @ rest) = js_lower v" for v rest
    by (auto simp: frontMatch_def Let_def js_lower_def map_append [symmetric] simp del: map_append
        split: if_splits) (metis append_take_drop_id map_append)
  then show ?thesis
    by (auto simp: Typeahead_updateHint_def Let_def Input_setHint_def Input_clearHint_def
        split: option.split)
qed

lemma space_is_space [simp]: "is_js_space CHR '' ''"
  by code_simp

lemma collapse_cons_space:
  "is_js_space c \<Longrightarrow> \<exists>d. is_js_space d \<and> collapse_spaces (c # cs) = d # collapse_spaces (dropWhile is_js_space cs)"
  by (simp add: Let_def)

text \<open>A string in normal form: no two neighbouring white-space characters.\<close>

fun single_spaced :: "string \<Rightarrow> bool" where
  "single_spaced (c # d # cs) \<longleftrightarrow> \<not> (is_js_space c \<and> is_js_space d) \<and> single_spaced (d # cs)"
| "single_spaced _ \<longleftrightarrow> True"

lemma single_spaced_cons:
  "single_spaced (c # cs) \<longleftrightarrow> single_spaced cs \<and> (is_js_space c \<longrightarrow> cs = [] \<or> \<not> is_js_space (hd cs))"
  by (cases cs) auto

lemma collapse_spaces_hd:
  "cs \<noteq> [] \<Longrightarrow> is_js_space (hd (collapse_spaces cs)) = is_js_space (hd cs)"
proof (cases cs)
  case (Cons c ds)
  then show ?thesis using collapse_cons_space [of c ds] by (cases "is_js_space c") auto
qed simp

lemma dropWhile_space_hd:
  "collapse_spaces (dropWhile is_js_space cs) = [] \<or>
     \<not> is_js_space (hd (collapse_spaces (dropWhile is_js_space cs)))"
proof (cases "dropWhile is_js_space cs = []")
  case False
  then show ?thesis using collapse_spaces_hd [OF False] hd_dropWhile [OF False] by blast
qed (simp only: collapse_spaces.simps simp_thms)

lemma collapse_spaces_single: "single_spaced (collapse_spaces cs)"
proof (induction cs rule: length_induct)
  case (1 cs)
  show ?case
  proof (cases cs)
    case (Cons c ds)
    show ?thesis
    proof (cases "is_js_space c")
      case True
      let ?t = "dropWhile is_js_space ds"
      have "length ?t < length cs" using Cons by (simp add: length_dropWhile_le less_Suc_eq_le)
      then have "single_spaced (collapse_spaces ?t)" using 1 by blast
      moreover have "collapse_spaces ?t = [] \<or> \<not> is_js_space (hd (collapse_spaces ?t))"
        by (rule dropWhile_space_hd)
      ultimately show ?thesis
        using collapse_cons_space [OF True, of ds] Cons by (auto simp: single_spaced_cons simp del: collapse_spaces.simps)
    next
      case False
      then show ?thesis using 1 Cons by (simp add: single_spaced_cons)
    qed
  qed simp
qed

lemma collapse_spaces_id: "single_spaced cs \<Longrightarrow> collapse_spaces cs = cs"
proof (induction cs)
  case (Cons c cs)
  then show ?case by (cases cs) (auto simp: single_spaced_cons Let_def)
qed simp

lemma collapse_spaces_letters:
  "filter (\<lambda>c. \<not> is_js_space c) (collapse_spaces cs) = filter (\<lambda>c. \<not> is_js_space c) cs"
proof (induction cs rule: length_induct)
  case (1 cs)
  have dw: "filter (\<lambda>c. \<not> is_js_space c) (dropWhile is_js_space ds) = filter (\<lambda>c. \<not> is_js_space c) ds" for ds
    by (induction ds) auto
  show ?case
  proof (cases cs)
    case (Cons c ds)
    have "length (dropWhile is_js_space ds) < length cs"
      using Cons by (simp add: length_dropWhile_le less_Suc_eq_le)
    then show ?thesis using 1 Cons collapse_cons_space [of c ds] dw [of ds]
      by (cases "is_js_space c") auto
  qed simp
qed

lemma normalizeQuery_fixed:
  "single_spaced q \<Longrightarrow> q = [] \<or> \<not> is_js_space (hd q) \<Longrightarrow> normalizeQuery q = q"
  by (cases q) (auto simp: normalizeQuery_def collapse_spaces_id simp del: collapse_spaces.simps(2))

text \<open>
  \<open>normalizeQuery\<close> is a projection onto the queries without leading white space and
  without two white-space characters in a row: it reaches such a query from every string
  and leaves it alone, and it changes white space only. Two queries are equivalent exactly
  when their normal forms are the same query.
\<close>

lemma normalizeQuery_projects:
  "normalizeQuery (normalizeQuery str) = normalizeQuery str \<and>
   single_spaced (normalizeQuery str) \<and>
   takeWhile is_js_space (normalizeQuery str) = [] \<and>
   filter (\<lambda>c. \<not> is_js_space c) (normalizeQuery str) = filter (\<lambda>c. \<not> is_js_space c) str \<and>
   areQueriesEquivalent str (normalizeQuery str)"
proof -
  have shape: "single_spaced (normalizeQuery str)"
      "normalizeQuery str = [] \<or> \<not> is_js_space (hd (normalizeQuery str))"
    using dropWhile_space_hd [of str] by (auto simp: normalizeQuery_def collapse_spaces_single)
  have "filter (\<lambda>c. \<not> is_js_space c) (dropWhile is_js_space str) = filter (\<lambda>c. \<not> is_js_space c) str"
    by (induction str) auto
  moreover have "takeWhile is_js_space (normalizeQuery str) = []"
    using shape(2) by (cases "normalizeQuery str") auto
  ultimately show ?thesis using shape normalizeQuery_fixed [OF shape]
    by (simp add: areQueriesEquivalent_def) (simp add: normalizeQuery_def collapse_spaces_letters)
qed

text \<open>
  \<open>_autocomplete\<close> guards its use of the top suggestion when it sets the value, not
  when it announces it, so Tab raises a \<open>TypeError\<close> in the tick between a response that
  renders nothing and the hint's update: the user types \<open>a\<close> and gets the hint
  \<open>abc\<close>, types \<open>b\<close>, the source finds nothing, and Tab arrives first.
\<close>

lemma autocomplete_raises:
  "sample_run [UFocus, UType ''a'', SResponse 0 ''a'' [''abc''], NextTick, UType ''ab'',
     SResponse 0 ''ab'' [], key 9] = Inl TypeError"
proof -
  let ?m = "sample_run [UFocus, UType ''a'', SResponse 0 ''a'' [''abc''], NextTick, UType ''ab'',
     SResponse 0 ''ab'' [], key 9]"
  have "case ?m of Inl e \<Rightarrow> e = TypeError | Inr _ \<Rightarrow> False" by code_simp
  then show ?thesis by (auto split: sum.splits)
qed

end
