(* ===== verification/Js_Date.thy ===== *)
theory Js_Date
  imports Js_Prelude
begin

text \<open>
  The UTC half of the ECMAScript \<open>Date\<close> object, as the date picker uses it. A date is its
  time value, the integer of milliseconds since 1970-01-01 UTC; getters and setters are the
  algorithms of the standard (\<open>DayFromYear\<close>, \<open>YearFromTime\<close>, \<open>MakeDay\<close>). The
  lemmas show that the civil date (year, month, day of the month) and the day number
  determine each other. Time values are not clipped here: \<open>TimeClip\<close> is used where the source
  asks \<open>isNaN\<close>, and \<open>Date_Range\<close> treats the setters that clip.
\<close>

type_synonym date = int

definition msPerDay :: int where
  "msPerDay = 86400000"

definition Day :: "date \<Rightarrow> int" where
  "Day t = t div msPerDay"

definition TimeWithinDay :: "date \<Rightarrow> int" where
  "TimeWithinDay t = t mod msPerDay"

definition TimeClip :: "date \<Rightarrow> date option" where
  "TimeClip t = (if \<bar>t\<bar> \<le> 8640000000000000 then Some t else None)"

section \<open>Years\<close>

definition InLeapYear :: "int \<Rightarrow> bool" where
  "InLeapYear y \<longleftrightarrow> y mod 4 = 0 \<and> y mod 100 \<noteq> 0 \<or> y mod 400 = 0"

definition DaysInYear :: "int \<Rightarrow> int" where
  "DaysInYear y = (if InLeapYear y then 366 else 365)"

definition DayFromYear :: "int \<Rightarrow> int" where
  "DayFromYear y =
     365 * (y - 1970) + (y - 1969) div 4 - (y - 1901) div 100 + (y - 1601) div 400"

text \<open>
  \<open>YearFromDay\<close> is the largest year that starts on the day or before; it is computed from an
  estimate that is at most one year off.
\<close>

definition YearFromDay :: "int \<Rightarrow> int" where
  "YearFromDay d =
     (let y = 1970 + (400 * d) div 146097
      in if DayFromYear (y + 1) \<le> d then y + 1 else if d < DayFromYear y then y - 1 else y)"

lemma div_next:
  fixes a n :: int
  assumes "0 < n"
  shows "(a + 1) div n = a div n + (if (a + 1) mod n = 0 then 1 else 0)"
proof -
  have "a mod n + 1 \<le> n" using pos_mod_bound [OF assms, of a] by simp
  then consider "a mod n + 1 < n" | "a mod n + 1 = n" by linarith
  then show ?thesis
  proof cases
    case 1
    have "a + 1 = n * (a div n) + (a mod n + 1)" by simp
    then have "(a + 1) div n = a div n" "(a + 1) mod n = a mod n + 1"
      using 1 assms pos_mod_sign [OF assms, of a] by (metis int_div_pos_eq add.commute le_add_same_cancel2
          le_add1 zero_le_one add_nonneg_nonneg, metis int_mod_pos_eq add_nonneg_nonneg zero_le_one)
    moreover have "0 \<le> a mod n" using assms by simp
    ultimately show ?thesis by simp
  next
    case 2
    have "a + 1 = n * (a div n) + (a mod n + 1)" by simp
    also have "\<dots> = n * (a div n + 1)" using 2 by (simp add: algebra_simps)
    finally show ?thesis using assms by simp
  qed
qed

lemma year_sum:
  fixes y :: int
  assumes "A' = A + p" "B' = B + q" "C' = C + r" "D = 365 + p - q + r"
  shows "365 * (y + 1 - 1970) + A' - B' + C' = (365 * (y - 1970) + A - B + C) + D"
  using assms by (simp add: algebra_simps)

lemma DayFromYear_next: "DayFromYear (y + 1) = DayFromYear y + DaysInYear y"
proof -
  have 1: "(y + 1 - 1969) div 4 = (y - 1969) div 4 + (if y mod 4 = 0 then 1 else 0)"
    using div_next [of 4 "y - 1969"] by (simp add: mod_diff_eq [symmetric, of y 1968])
  have 2: "(y + 1 - 1901) div 100 = (y - 1901) div 100 + (if y mod 100 = 0 then 1 else 0)"
    using div_next [of 100 "y - 1901"] by (simp add: mod_diff_eq [symmetric, of y 1900])
  have 3: "(y + 1 - 1601) div 400 = (y - 1601) div 400 + (if y mod 400 = 0 then 1 else 0)"
    using div_next [of 400 "y - 1601"] by (simp add: mod_diff_eq [symmetric, of y 1600])
  have "y mod 400 = 0 \<Longrightarrow> y mod 100 = 0" "y mod 100 = 0 \<Longrightarrow> y mod 4 = 0"
    using dvd_trans [of 100 400 y] dvd_trans [of 4 100 y] by (simp_all add: mod_eq_0_iff_dvd)
  then have "DaysInYear y = 365 + (if y mod 4 = 0 then 1 else 0) - (if y mod 100 = 0 then 1 else 0)
      + (if y mod 400 = 0 then 1 else 0)"
    unfolding DaysInYear_def InLeapYear_def by presburger
  then show ?thesis
    unfolding DayFromYear_def by (rule year_sum [OF 1 2 3])
qed

lemma DaysInYear_bounds: "365 \<le> DaysInYear y" "DaysInYear y \<le> 366"
  by (simp_all add: DaysInYear_def)

lemma DayFromYear_mono: "y < z \<Longrightarrow> DayFromYear y + 365 \<le> DayFromYear z"
proof (induction z rule: int_gr_induct [where k = y])
  case base
  then show ?case using DayFromYear_next [of y] DaysInYear_bounds(1) [of y] by simp
next
  case (step i)
  then show ?case using DayFromYear_next [of i] DaysInYear_bounds(1) [of i] by linarith
qed

lemma div_range: "0 < n \<Longrightarrow> n * (x div n) \<le> x" "0 < n \<Longrightarrow> x < n * (x div n) + n" for n x :: int
  using mult_div_mod_eq [of n x] pos_mod_bound [of n x] pos_mod_sign [of n x] by linarith+

lemma DayFromYear_linear:
  "400 * DayFromYear y \<le> 146097 * (y - 1970) + 688"
  "146097 * (y - 1970) - 632 \<le> 400 * DayFromYear y"
proof -
  define a b c where "a = (y - 1969) div 4" and "b = (y - 1901) div 100" and "c = (y - 1601) div 400"
  have "4 * a \<le> y - 1969" "y - 1969 < 4 * a + 4" "100 * b \<le> y - 1901" "y - 1901 < 100 * b + 100"
    "400 * c \<le> y - 1601" "y - 1601 < 400 * c + 400"
    unfolding a_def b_def c_def by (intro div_range; simp)+
  moreover have "DayFromYear y = 365 * (y - 1970) + a - b + c"
    by (simp add: DayFromYear_def a_def b_def c_def)
  ultimately have "400 * DayFromYear y \<le> 146097 * (y - 1970) + 688"
    and "146097 * (y - 1970) - 632 \<le> 400 * DayFromYear y" by simp_all
  then show "400 * DayFromYear y \<le> 146097 * (y - 1970) + 688"
    "146097 * (y - 1970) - 632 \<le> 400 * DayFromYear y" .
qed

lemma YearFromDay_bounds:
  "DayFromYear (YearFromDay d) \<le> d" "d < DayFromYear (YearFromDay d + 1)"
proof -
  define e where "e = (400 * d) div 146097"
  have e: "146097 * e \<le> 400 * d" "400 * d < 146097 * e + 146097"
    unfolding e_def by (intro div_range; simp)+
  have "DayFromYear (1970 + e - 1) \<le> d" using e DayFromYear_linear(1) [of "1970 + e - 1"] by simp
  moreover have "d < DayFromYear (1970 + e + 2)" using e DayFromYear_linear(2) [of "1970 + e + 2"] by simp
  ultimately show "DayFromYear (YearFromDay d) \<le> d" "d < DayFromYear (YearFromDay d + 1)"
    unfolding YearFromDay_def e_def [symmetric] Let_def by (auto simp: algebra_simps)
qed

lemma YearFromDay_unique:
  assumes "DayFromYear y \<le> d" "d < DayFromYear (y + 1)"
  shows "YearFromDay d = y"
proof -
  note b = YearFromDay_bounds [of d]
  have "\<not> YearFromDay d < y"
    using b assms DayFromYear_mono [of "YearFromDay d + 1" y] by (cases "YearFromDay d + 1 = y") auto
  moreover have "\<not> y < YearFromDay d"
    using b assms DayFromYear_mono [of "y + 1" "YearFromDay d"] by (cases "y + 1 = YearFromDay d") auto
  ultimately show ?thesis by simp
qed

section \<open>Months\<close>

definition month_len :: "bool \<Rightarrow> int \<Rightarrow> int" where
  "month_len leap m =
     [31, if leap then 29 else 28, 31, 30, 31, 30, 31, 31, 30, 31, 30, 31] ! nat m"

text \<open>The day within the year on which a month starts, and the month of a day within the year.\<close>

definition month_start :: "bool \<Rightarrow> int \<Rightarrow> int" where
  "month_start leap m =
     [0, 31, 59, 90, 120, 151, 181, 212, 243, 273, 304, 334] ! nat m + (if leap \<and> 2 \<le> m then 1 else 0)"

definition month_of :: "bool \<Rightarrow> int \<Rightarrow> int" where
  "month_of leap k =
     (let j = (if leap \<and> 60 \<le> k then k - 1 else k)
      in if j < 31 then 0 else if j < 59 \<or> leap \<and> k = 59 then 1 else if j < 90 then 2
         else if j < 120 then 3 else if j < 151 then 4 else if j < 181 then 5
         else if j < 212 then 6 else if j < 243 then 7 else if j < 273 then 8
         else if j < 304 then 9 else if j < 334 then 10 else 11)"

lemma month_cases:
  fixes m :: int
  assumes "0 \<le> m" "m < 12"
  obtains "m = 0" | "m = 1" | "m = 2" | "m = 3" | "m = 4" | "m = 5" | "m = 6" | "m = 7" | "m = 8"
    | "m = 9" | "m = 10" | "m = 11"
proof -
  have "m = 0 \<or> m = 1 \<or> m = 2 \<or> m = 3 \<or> m = 4 \<or> m = 5 \<or> m = 6 \<or> m = 7 \<or> m = 8 \<or> m = 9 \<or>
      m = 10 \<or> m = 11"
    using assms by presburger
  with that show thesis by blast
qed

lemma month_len_bounds: "0 \<le> m \<Longrightarrow> m < 12 \<Longrightarrow> 28 \<le> month_len l m \<and> month_len l m \<le> 31"
  by (erule (1) month_cases) (simp_all add: month_len_def)

lemma month_start_next:
  "0 \<le> m \<Longrightarrow> m < 11 \<Longrightarrow> month_start l (m + 1) = month_start l m + month_len l m"
  by (rule month_cases [of m]) (simp_all add: month_len_def month_start_def)

lemma month_of_range:
  "0 \<le> k \<Longrightarrow> 0 \<le> month_of l k \<and> month_of l k < 12"
  by (simp add: month_of_def Let_def)

lemma month_of_start:
  assumes "0 \<le> k" "k < (if l then 366 else 365)"
  shows "month_start l (month_of l k) \<le> k \<and> k < month_start l (month_of l k) + month_len l (month_of l k)"
proof -
  define m where "m = month_of l k"
  then have "0 \<le> m" "m < 12" using month_of_range [OF assms(1), of l] by auto
  then have "month_start l m \<le> k \<and> k < month_start l m + month_len l m"
    by (rule month_cases; insert m_def assms; cases l)
       (simp_all add: month_of_def month_start_def month_len_def Let_def split: if_splits)
  then show ?thesis by (simp add: m_def)
qed

lemma month_of_unique:
  assumes "0 \<le> m" "m < 12" "month_start l m \<le> k" "k < month_start l m + month_len l m"
  shows "month_of l k = m"
  using assms(1,2)
  by (rule month_cases; cases l; insert assms(3,4))
     (auto simp: month_of_def month_start_def month_len_def Let_def)

section \<open>Civil dates\<close>

definition MakeDay :: "int \<Rightarrow> int \<Rightarrow> int \<Rightarrow> int" where
  "MakeDay year month date =
     (let y = year + month div 12; m = month mod 12
      in DayFromYear y + month_start (InLeapYear y) m + date - 1)"

definition MonthFromDay :: "int \<Rightarrow> int" where
  "MonthFromDay d = (let y = YearFromDay d in month_of (InLeapYear y) (d - DayFromYear y))"

definition DateFromDay :: "int \<Rightarrow> int" where
  "DateFromDay d =
     (let y = YearFromDay d
      in d - DayFromYear y - month_start (InLeapYear y) (MonthFromDay d) + 1)"

definition DaysInMonth :: "int \<Rightarrow> int \<Rightarrow> int" where
  "DaysInMonth y m = month_len (InLeapYear y) m"

definition civil :: "int \<Rightarrow> int \<Rightarrow> int \<Rightarrow> bool" where
  "civil y m d \<longleftrightarrow> 0 \<le> m \<and> m < 12 \<and> 1 \<le> d \<and> d \<le> DaysInMonth y m"

lemma DayWithinYear:
  "0 \<le> d - DayFromYear (YearFromDay d)"
  "d - DayFromYear (YearFromDay d) < (if InLeapYear (YearFromDay d) then 366 else 365)"
  using YearFromDay_bounds [of d] DayFromYear_next [of "YearFromDay d"]
  by (auto simp: DaysInYear_def split: if_splits)

lemma civil_of_day: "civil (YearFromDay d) (MonthFromDay d) (DateFromDay d)"
  using month_of_range [OF DayWithinYear(1), of "InLeapYear (YearFromDay d)" d]
    month_of_start [OF DayWithinYear, of d]
  by (auto simp: civil_def MonthFromDay_def DateFromDay_def DaysInMonth_def Let_def)

lemma MakeDay_of_day [simp]: "MakeDay (YearFromDay d) (MonthFromDay d) (DateFromDay d) = d"
  using civil_of_day [of d] by (simp add: MakeDay_def DateFromDay_def civil_def Let_def)

lemma month_end: "0 \<le> m \<Longrightarrow> m < 12 \<Longrightarrow> month_start l m + month_len l m \<le> (if l then 366 else 365)"
  by (rule month_cases [of m]) (simp_all add: month_len_def month_start_def)

lemma day_of_civil:
  assumes "civil y m d"
  shows "YearFromDay (MakeDay y m d) = y \<and> MonthFromDay (MakeDay y m d) = m \<and>
    DateFromDay (MakeDay y m d) = d"
proof -
  let ?l = "InLeapYear y"
  have m: "0 \<le> m" "m < 12" and d: "1 \<le> d" "d \<le> month_len ?l m"
    using assms by (auto simp: civil_def DaysInMonth_def)
  have day: "MakeDay y m d = DayFromYear y + (month_start ?l m + d - 1)"
    using m by (simp add: MakeDay_def Let_def)
  have "0 \<le> month_start ?l m" using m by (rule month_cases) (simp_all add: month_start_def)
  then have y: "YearFromDay (MakeDay y m d) = y"
    using d month_end [OF m, of ?l] DayFromYear_next [of y]
    by (intro YearFromDay_unique) (auto simp: day DaysInYear_def split: if_splits)
  have "month_of ?l (month_start ?l m + d - 1) = m" using m d by (intro month_of_unique) auto
  then show ?thesis by (simp add: y MonthFromDay_def DateFromDay_def) (simp add: day)
qed

lemma MakeDay_shift: "MakeDay y m (d + k) = MakeDay y m d + k"
  by (simp add: MakeDay_def Let_def)

text \<open>One past the end of a month is the first of the next one.\<close>

lemma MakeDay_month_end:
  assumes "0 \<le> m" "m < 12"
  shows "MakeDay y (m + 1) d = MakeDay y m (DaysInMonth y m + d)"
proof (cases "m = 11")
  case True
  have "DayFromYear (y + 1) = DayFromYear y + month_start (InLeapYear y) 11 + month_len (InLeapYear y) 11"
    by (simp add: DayFromYear_next DaysInYear_def month_start_def month_len_def)
  with True show ?thesis by (simp add: MakeDay_def DaysInMonth_def Let_def month_start_def)
next
  case False
  then show ?thesis using assms month_start_next [of m "InLeapYear y"]
    by (simp add: MakeDay_def DaysInMonth_def Let_def)
qed

lemma MakeDay_carry: "MakeDay y (m + 12 * k) d = MakeDay (y + k) m d"
  by (simp add: MakeDay_def Let_def add.assoc)

lemma MakeDay_norm: "MakeDay y m d = MakeDay (y + m div 12) (m mod 12) d"
  by (simp add: MakeDay_def Let_def)

lemma DaysInMonth_bounds: "0 \<le> m \<Longrightarrow> m < 12 \<Longrightarrow> 28 \<le> DaysInMonth y m \<and> DaysInMonth y m \<le> 31"
  by (simp add: DaysInMonth_def month_len_bounds)

section \<open>Getters and setters\<close>

definition getUTCFullYear :: "date \<Rightarrow> int" where
  "getUTCFullYear t = YearFromDay (Day t)"

definition getUTCMonth :: "date \<Rightarrow> int" where
  "getUTCMonth t = MonthFromDay (Day t)"

definition getUTCDate :: "date \<Rightarrow> int" where
  "getUTCDate t = DateFromDay (Day t)"

definition getUTCDay :: "date \<Rightarrow> int" where
  "getUTCDay t = (Day t + 4) mod 7"

definition MakeDate :: "int \<Rightarrow> int \<Rightarrow> date" where
  "MakeDate day time = day * msPerDay + time"

definition setUTCDate :: "int \<Rightarrow> date \<Rightarrow> date" where
  "setUTCDate v t = MakeDate (MakeDay (getUTCFullYear t) (getUTCMonth t) v) (TimeWithinDay t)"

definition setUTCMonth :: "int \<Rightarrow> date \<Rightarrow> date" where
  "setUTCMonth v t = MakeDate (MakeDay (getUTCFullYear t) v (getUTCDate t)) (TimeWithinDay t)"

definition setUTCFullYear :: "int \<Rightarrow> date \<Rightarrow> date" where
  "setUTCFullYear v t = MakeDate (MakeDay v (getUTCMonth t) (getUTCDate t)) (TimeWithinDay t)"

text \<open>\<open>Date.UTC\<close> reads a year from 0 to 99 as one of the twentieth century.\<close>

definition Date_UTC :: "int \<Rightarrow> int \<Rightarrow> int \<Rightarrow> date" where
  "Date_UTC y m d = MakeDate (MakeDay (if 0 \<le> y \<and> y \<le> 99 then 1900 + y else y) m d) 0"

lemma time_split [simp]:
  "0 \<le> r \<Longrightarrow> r < msPerDay \<Longrightarrow> Day (MakeDate d r) = d"
  "0 \<le> r \<Longrightarrow> r < msPerDay \<Longrightarrow> TimeWithinDay (MakeDate d r) = r"
  by (simp_all add: Day_def TimeWithinDay_def MakeDate_def msPerDay_def)

lemma TimeWithinDay_range [simp]: "0 \<le> TimeWithinDay t" "TimeWithinDay t < msPerDay"
  by (simp_all add: TimeWithinDay_def msPerDay_def)

lemma MakeDate_join [simp]: "MakeDate (Day t) (TimeWithinDay t) = t"
  by (simp add: MakeDate_def Day_def TimeWithinDay_def)

lemma msPerDay_pos [simp]: "0 < msPerDay" by (simp add: msPerDay_def)

lemma setter_Day [simp]:
  "Day (setUTCDate v t) = MakeDay (getUTCFullYear t) (getUTCMonth t) v"
  "Day (setUTCMonth v t) = MakeDay (getUTCFullYear t) v (getUTCDate t)"
  "Day (setUTCFullYear v t) = MakeDay v (getUTCMonth t) (getUTCDate t)"
  "TimeWithinDay (setUTCDate v t) = TimeWithinDay t"
  "TimeWithinDay (setUTCMonth v t) = TimeWithinDay t"
  "TimeWithinDay (setUTCFullYear v t) = TimeWithinDay t"
  by (simp_all add: setUTCDate_def setUTCMonth_def setUTCFullYear_def)

lemma date_eqI: "Day t = Day u \<Longrightarrow> TimeWithinDay t = TimeWithinDay u \<Longrightarrow> t = u"
  by (metis MakeDate_join)

lemma getters_civil:
  assumes "Day t = MakeDay y m d" "civil y m d"
  shows "getUTCFullYear t = y" "getUTCMonth t = m" "getUTCDate t = d"
  using day_of_civil [OF assms(2)] assms(1)
  by (simp_all add: getUTCFullYear_def getUTCMonth_def getUTCDate_def)

lemma date_civil: "civil (getUTCFullYear t) (getUTCMonth t) (getUTCDate t)"
  by (simp add: getUTCFullYear_def getUTCMonth_def getUTCDate_def civil_of_day)

lemma Day_getters: "MakeDay (getUTCFullYear t) (getUTCMonth t) (getUTCDate t) = Day t"
  by (simp add: getUTCFullYear_def getUTCMonth_def getUTCDate_def)

lemma setUTCDate_shift: "setUTCDate (getUTCDate t + k) t = t + k * msPerDay"
proof -
  have "t = Day t * msPerDay + TimeWithinDay t" by (simp add: Day_def TimeWithinDay_def)
  moreover have "setUTCDate (getUTCDate t + k) t = (Day t + k) * msPerDay + TimeWithinDay t"
    using Day_getters [of t] by (simp add: setUTCDate_def MakeDay_shift MakeDate_def)
  ultimately show ?thesis by (simp add: distrib_right)
qed

end
