(* ===== verification/Js_Number.thy ===== *)
theory Js_Number
  imports Js_Prelude
begin

text \<open>
  Numbers as text: the decimal form \<open>String(n)\<close> of an integer, \<open>parseInt(s, 10)\<close>
  (\<open>None\<close> is \<open>NaN\<close>), and \<open>match(/[class]+/g)\<close>. Reading the decimal form gives the
  number back.
\<close>

definition digit_char :: "nat \<Rightarrow> char" where
  "digit_char n = char_of (48 + n)"

definition digit_val :: "char \<Rightarrow> int" where
  "digit_val c = int (char_code c) - 48"

fun nat_str :: "nat \<Rightarrow> string" where
  "nat_str n = (if n < 10 then [digit_char n] else nat_str (n div 10) @ [digit_char (n mod 10)])"

declare nat_str.simps [simp del]

definition int_str :: "int \<Rightarrow> string" where
  "int_str i = (if i < 0 then CHR ''-'' # nat_str (nat (- i)) else nat_str (nat i))"

definition digits_val :: "string \<Rightarrow> int" where
  "digits_val ds = foldl (\<lambda>a c. 10 * a + digit_val c) 0 ds"

definition parse_digits :: "string \<Rightarrow> int option" where
  "parse_digits s =
     (let ds = takeWhile is_digit_char s in if ds = [] then None else Some (digits_val ds))"

definition js_parseInt :: "string \<Rightarrow> int option" where
  "js_parseInt s =
     (case dropWhile is_js_space s of
        [] \<Rightarrow> None
      | c # cs \<Rightarrow> if c = CHR ''-'' then map_option uminus (parse_digits cs)
                  else if c = CHR ''+'' then parse_digits cs else parse_digits (c # cs))"

lemma char_code_digit [simp]: "n < 10 \<Longrightarrow> char_code (digit_char n) = 48 + n"
  by (simp add: char_code_def digit_char_def)

lemma is_digit_digit [simp]: "n < 10 \<Longrightarrow> is_digit_char (digit_char n)"
  by (simp add: is_digit_char_def)

lemma nat_str_digits: "list_all is_digit_char (nat_str n) \<and> nat_str n \<noteq> []"
proof (induction n rule: nat_str.induct)
  case (1 n)
  then show ?case by (cases "n < 10") (simp_all add: nat_str.simps [of n])
qed

lemma digits_val_nat_str: "digits_val (nat_str n) = int n"
proof (induction n rule: nat_str.induct)
  case (1 n)
  show ?case
  proof (cases "n < 10")
    case True
    then show ?thesis by (simp add: nat_str.simps [of n] digits_val_def digit_val_def)
  next
    case False
    have "int n = 10 * int (n div 10) + int (n mod 10)" by presburger
    then show ?thesis using 1 False
      by (subst nat_str.simps) (simp add: digits_val_def digit_val_def)
  qed
qed

lemma takeWhile_digits:
  "list_all is_digit_char ds \<Longrightarrow> rest = [] \<or> \<not> is_digit_char (hd rest) \<Longrightarrow>
     takeWhile is_digit_char (ds @ rest) = ds"
  by (induction ds) (auto simp: takeWhile_eq_Nil_iff)

lemma parse_digits_nat_str:
  "rest = [] \<or> \<not> is_digit_char (hd rest) \<Longrightarrow> parse_digits (nat_str n @ rest) = Some (int n)"
  using nat_str_digits [of n]
  by (simp add: parse_digits_def takeWhile_digits digits_val_nat_str)

lemma digit_not_space: "is_digit_char c \<Longrightarrow> \<not> is_js_space c \<and> c \<noteq> CHR ''-'' \<and> c \<noteq> CHR ''+''"
  by (auto simp: is_digit_char_def is_js_space_def char_code_def Let_def)

lemma parseInt_digits:
  assumes "list_all is_digit_char ds" "ds \<noteq> []"
  shows "js_parseInt ds = Some (digits_val ds)"
proof -
  obtain c cs where ds: "ds = c # cs" "is_digit_char c" using assms by (cases ds) auto
  then have "dropWhile is_js_space ds = c # cs" using digit_not_space [of c] by simp
  moreover have "takeWhile is_digit_char ds = ds" using takeWhile_digits [OF assms(1), of "[]"] by simp
  ultimately show ?thesis using ds digit_not_space [of c]
    by (simp add: js_parseInt_def parse_digits_def del: takeWhile_eq_all_conv)
qed

lemma parseInt_int_str: "js_parseInt (int_str i) = Some i"
proof (cases "i < 0")
  case True
  have "\<not> is_js_space CHR ''-''" by code_simp
  then show ?thesis
    using True parse_digits_nat_str [of "[]" "nat (- i)"] by (simp add: js_parseInt_def int_str_def)
next
  case False
  then show ?thesis using nat_str_digits [of "nat i"]
    by (simp add: int_str_def parseInt_digits digits_val_nat_str)
qed

section \<open>Maximal runs of a character class\<close>

function match_runs :: "('a \<Rightarrow> bool) \<Rightarrow> 'a list \<Rightarrow> 'a list list" where
  "match_runs P s =
     (case dropWhile (\<lambda>c. \<not> P c) s of
        [] \<Rightarrow> []
      | c # cs \<Rightarrow> (c # takeWhile P cs) # match_runs P (dropWhile P cs))"
  by pat_completeness auto
termination
proof (relation "measure (\<lambda>(P, s). length s)")
  fix P :: "'a \<Rightarrow> bool" and s c cs
  assume "dropWhile (\<lambda>c. \<not> P c) s = c # cs"
  then have "length cs < length s" using length_dropWhile_le [of "\<lambda>c. \<not> P c" s] by simp
  then show "((P, dropWhile P cs), P, s) \<in> measure (\<lambda>(P, s). length s)"
    using length_dropWhile_le [of P cs] by simp
qed simp

declare match_runs.simps [simp del]

lemma match_runs_skip: "list_all (\<lambda>c. \<not> P c) s \<Longrightarrow> match_runs P (s @ t) = match_runs P t"
  by (subst (1 2) match_runs.simps) (simp add: list_all_iff dropWhile_append3)

lemma match_runs_none: "list_all (\<lambda>c. \<not> P c) s \<Longrightarrow> match_runs P s = []"
proof -
  assume "list_all (\<lambda>c. \<not> P c) s"
  then have "dropWhile (\<lambda>c. \<not> P c) s = []" by (auto simp: list_all_iff dropWhile_eq_Nil_conv)
  then show ?thesis by (subst match_runs.simps) (simp only: list.case)
qed

lemma match_runs_run:
  assumes "list_all P v" "v \<noteq> []" "t = [] \<or> \<not> P (hd t)"
  shows "match_runs P (v @ t) = v # match_runs P t"
proof -
  obtain c cs where v: "v = c # cs" "P c" "list_all P cs" using assms by (cases v) auto
  have "takeWhile P (cs @ t) = cs" "dropWhile P (cs @ t) = t"
    using v(3) assms(3) by (induction cs) (auto simp: takeWhile_eq_Nil_iff dropWhile_eq_self_iff)
  then show ?thesis using v by (subst match_runs.simps) simp
qed

end
