(* ===== verification/Date_Format.thy ===== *)
theory Date_Format
  imports Js_Date Js_Number "HOL-Library.Sublist"
begin

text \<open>
  The date arithmetic and the text forms of \<open>bootstrap-datepicker.js\<close>: \<open>moveMonth\<close>,
  \<open>moveYear\<close> and the functions of \<open>DPGlobal\<close> that read and write dates. The clock is
  an argument (\<open>clock\<close>), the month and day names come from a record of \<open>dates\<close>.
\<close>

section \<open>The calendar tables\<close>

definition isLeapYear :: "int \<Rightarrow> bool" where
  "isLeapYear year \<longleftrightarrow>
     js_rem year 4 = 0 \<and> js_rem year 100 \<noteq> 0 \<or> js_rem year 400 = 0"

definition getDaysInMonth :: "int \<Rightarrow> int \<Rightarrow> int" where
  "getDaysInMonth year month =
     [31, if isLeapYear year then 29 else 28, 31, 30, 31, 30, 31, 31, 30, 31, 30, 31] ! nat month"

record locale_data =
  days :: "string list"
  daysShort :: "string list"
  daysMin :: "string list"
  months :: "string list"
  monthsShort :: "string list"
  lc_today :: string
  lc_clear :: string

definition dates_en :: locale_data where
  "dates_en =
     \<lparr>days = [''Sunday'', ''Monday'', ''Tuesday'', ''Wednesday'', ''Thursday'', ''Friday'',
              ''Saturday'', ''Sunday''],
      daysShort = [''Sun'', ''Mon'', ''Tue'', ''Wed'', ''Thu'', ''Fri'', ''Sat'', ''Sun''],
      daysMin = [''Su'', ''Mo'', ''Tu'', ''We'', ''Th'', ''Fr'', ''Sa'', ''Su''],
      months = [''January'', ''February'', ''March'', ''April'', ''May'', ''June'', ''July'',
                ''August'', ''September'', ''October'', ''November'', ''December''],
      monthsShort = [''Jan'', ''Feb'', ''Mar'', ''Apr'', ''May'', ''Jun'', ''Jul'', ''Aug'',
                     ''Sep'', ''Oct'', ''Nov'', ''Dec''],
      lc_today = ''Today'', lc_clear = ''Clear''\<rparr>"

section \<open>Moving by months\<close>

text \<open>
  The date-resetting loop of \<open>moveMonth\<close>. The guard on \<open>day\<close> only makes the recursion
  total: \<open>month_loop_clamps\<close> below shows that the test ends the loop first.
\<close>

function month_loop :: "(date \<Rightarrow> bool) \<Rightarrow> int \<Rightarrow> int \<Rightarrow> date \<Rightarrow> date" where
  "month_loop test new_month day new_date =
     (if test new_date \<and> 0 < day
      then month_loop test new_month (day - 1) (setUTCMonth new_month (setUTCDate (day - 1) new_date))
      else new_date)"
  by pat_completeness auto
termination
  by (relation "measure (\<lambda>(_, _, day, _). nat day)") auto

declare month_loop.simps [simp del]

text \<open>\<open>moveMonth\<close> for a single step (\<open>mag == 1\<close>), \<open>dir\<close> being 1 or -1.\<close>

definition moveMonth1 :: "int \<Rightarrow> date \<Rightarrow> date" where
  "moveMonth1 dir date =
     (let day = getUTCDate date;
          month = getUTCMonth date;
          nm = month + dir;
          new_date = setUTCMonth nm date;
          new_month = (if nm < 0 \<or> nm > 11 then js_rem (nm + 12) 12 else nm);
          test = (if dir = -1 then (\<lambda>d. getUTCMonth d = month)
                  else (\<lambda>d. getUTCMonth d \<noteq> new_month))
      in month_loop test new_month day new_date)"

definition moveMonth :: "date \<Rightarrow> int \<Rightarrow> date" where
  "moveMonth date dir =
     (if dir = 0 then date
      else (let mag = \<bar>dir\<bar>; sgn = (if dir > 0 then 1 else -1)
            in if mag = 1 then moveMonth1 sgn date
               else (let d1 = (moveMonth1 sgn ^^ nat mag) date;
                         new_month = getUTCMonth d1;
                         day = getUTCDate date
                     in month_loop (\<lambda>d. new_month \<noteq> getUTCMonth d) new_month day
                          (setUTCDate day d1))))"

definition moveYear :: "date \<Rightarrow> int \<Rightarrow> date" where
  "moveYear date dir = moveMonth date (dir * 12)"

section \<open>Formats\<close>

datatype part = P_d | P_dd | P_D | P_DD | P_m | P_mm | P_M | P_MM | P_yy | P_yyyy

definition part_text :: "part \<Rightarrow> string" where
  "part_text p =
     (case p of P_d \<Rightarrow> ''d'' | P_dd \<Rightarrow> ''dd'' | P_D \<Rightarrow> ''D'' | P_DD \<Rightarrow> ''DD'' | P_m \<Rightarrow> ''m''
      | P_mm \<Rightarrow> ''mm'' | P_M \<Rightarrow> ''M'' | P_MM \<Rightarrow> ''MM'' | P_yy \<Rightarrow> ''yy'' | P_yyyy \<Rightarrow> ''yyyy'')"

text \<open>The match of \<open>validParts\<close>, \<open>/dd?|DD?|mm?|MM?|yy(?:yy)?/\<close>, at the start of a string.\<close>

definition match_part :: "string \<Rightarrow> part option" where
  "match_part s =
     (if prefix ''dd'' s then Some P_dd else if prefix ''d'' s then Some P_d
      else if prefix ''DD'' s then Some P_DD else if prefix ''D'' s then Some P_D
      else if prefix ''mm'' s then Some P_mm else if prefix ''m'' s then Some P_m
      else if prefix ''MM'' s then Some P_MM else if prefix ''M'' s then Some P_M
      else if prefix ''yyyy'' s then Some P_yyyy else if prefix ''yy'' s then Some P_yy else None)"

datatype fmt_tok = TPart part | TChar char

function scan_format :: "string \<Rightarrow> fmt_tok list" where
  "scan_format s =
     (case s of
        [] \<Rightarrow> []
      | c # cs \<Rightarrow>
          (case match_part s of
             Some p \<Rightarrow> TPart p # scan_format (drop (length (part_text p)) s)
           | None \<Rightarrow> TChar c # scan_format cs))"
  by pat_completeness auto
termination
proof (relation "measure length")
  fix s c cs p assume "s = c # cs" "match_part s = Some p"
  then show "(drop (length (part_text p)) s, s) \<in> measure length"
    by (cases p) (auto simp: part_text_def)
qed auto

declare scan_format.simps [simp del]

text \<open>\<open>format.replace(validParts, '\0').split('\0')\<close>\<close>

fun split_toks :: "fmt_tok list \<Rightarrow> string list" where
  "split_toks [] = [[]]"
| "split_toks (TPart p # ts) = [] # split_toks ts"
| "split_toks (TChar c # ts) =
     (if char_code c = 0 then [] # split_toks ts
      else (case split_toks ts of [] \<Rightarrow> [[c]] | s # ss \<Rightarrow> (c # s) # ss))"

fun tok_parts :: "fmt_tok list \<Rightarrow> part list" where
  "tok_parts [] = []"
| "tok_parts (TPart p # ts) = p # tok_parts ts"
| "tok_parts (TChar c # ts) = tok_parts ts"

record dformat =
  separators :: "string list"
  parts :: "part list"

definition parseFormat :: "string \<Rightarrow> dformat js" where
  "parseFormat format =
     (let ts = scan_format format
      in if tok_parts ts = [] then Inl (JsError ''Invalid date format.'')
         else Inr \<lparr>separators = split_toks ts, parts = tok_parts ts\<rparr>)"

definition pad2 :: "int \<Rightarrow> string" where
  "pad2 n = (if n < 10 then ''0'' else []) @ int_str n"

definition part_val :: "locale_data \<Rightarrow> date \<Rightarrow> part \<Rightarrow> string" where
  "part_val L date p =
     (case p of
        P_d \<Rightarrow> int_str (getUTCDate date)
      | P_D \<Rightarrow> daysShort L ! nat (getUTCDay date)
      | P_DD \<Rightarrow> days L ! nat (getUTCDay date)
      | P_m \<Rightarrow> int_str (getUTCMonth date + 1)
      | P_M \<Rightarrow> monthsShort L ! nat (getUTCMonth date)
      | P_MM \<Rightarrow> months L ! nat (getUTCMonth date)
      | P_yy \<Rightarrow> drop 2 (int_str (getUTCFullYear date))
      | P_yyyy \<Rightarrow> int_str (getUTCFullYear date)
      | P_dd \<Rightarrow> pad2 (getUTCDate date)
      | P_mm \<Rightarrow> pad2 (getUTCMonth date + 1))"

fun format_loop :: "(part \<Rightarrow> string) \<Rightarrow> string list \<Rightarrow> part list \<Rightarrow> string" where
  "format_loop val [] [] = []"
| "format_loop val (s # ss) [] = s"
| "format_loop val [] (p # ps) = val p @ format_loop val [] ps"
| "format_loop val (s # ss) (p # ps) = s @ val p @ format_loop val ss ps"

definition formatDate :: "locale_data \<Rightarrow> dformat \<Rightarrow> date \<Rightarrow> string" where
  "formatDate L format date = format_loop (part_val L date) (separators format) (parts format)"

section \<open>Reading dates\<close>

text \<open>
  The clock: \<open>new Date()\<close> as a time value, and its local year, month and day of the month.
\<close>

record clock =
  now :: date
  localYear :: int
  localMonth :: int
  localDate :: int

text \<open>\<open>/^[\-+]\d+[dmwy]([\s,]+[\-+]\d+[dmwy])*$/\<close> with the offsets and units it matches.\<close>

function rel_parts :: "string \<Rightarrow> (int \<times> char) list option" where
  "rel_parts s =
     (case s of
        [] \<Rightarrow> None
      | sign # cs \<Rightarrow>
          (let ds = takeWhile is_digit_char cs
           in if sign \<noteq> CHR ''-'' \<and> sign \<noteq> CHR ''+'' \<or> ds = [] then None
              else (case dropWhile is_digit_char cs of
                      [] \<Rightarrow> None
                    | unit # rest \<Rightarrow>
                        if unit \<notin> set ''dmwy'' then None
                        else (let p = ((if sign = CHR ''-'' then - digits_val ds else digits_val ds), unit);
                                  sep = (\<lambda>c. is_js_space c \<or> c = CHR '','')
                              in if rest = [] then Some [p]
                                 else if takeWhile sep rest = [] then None
                                 else map_option (Cons p) (rel_parts (dropWhile sep rest))))))"
  by pat_completeness auto
termination
proof (relation "measure length")
  fix s sign cs ds unit rest and sep :: "char \<Rightarrow> bool"
  assume s: "s = sign # cs" "dropWhile is_digit_char cs = unit # rest"
  have "length (dropWhile sep rest) \<le> length rest" by (rule length_dropWhile_le)
  also have "\<dots> < length (dropWhile is_digit_char cs)" using s by simp
  also have "\<dots> \<le> length cs" by (rule length_dropWhile_le)
  finally show "(dropWhile sep rest, s) \<in> measure length" using s by simp
qed simp

declare rel_parts.simps [simp del]

definition rel_step :: "date \<Rightarrow> int \<times> char \<Rightarrow> date" where
  "rel_step date p =
     (let (dir, unit) = p
      in if unit = CHR ''d'' then setUTCDate (getUTCDate date + dir) date
         else if unit = CHR ''m'' then moveMonth date dir
         else if unit = CHR ''w'' then setUTCDate (getUTCDate date + dir * 7) date
         else moveYear date dir)"

text \<open>The characters excluded by \<open>nonpunctuation\<close>, within Latin-1.\<close>

definition is_punct :: "char \<Rightarrow> bool" where
  "is_punct c \<longleftrightarrow>
     (let n = char_code c
      in 32 \<le> n \<and> n \<le> 47 \<or> 58 \<le> n \<and> n \<le> 64 \<or> n = 91 \<or> n = 96 \<or> 123 \<le> n \<and> n \<le> 126 \<or>
         n = 9 \<or> n = 10 \<or> n = 13)"

text \<open>
  The number of the first name that agrees with the text as far as both go; 0 if none does.
\<close>

definition name_index :: "string list \<Rightarrow> string \<Rightarrow> int" where
  "name_index names p =
     (let ms = filter (\<lambda>name. take (length p) name = take (length (take (length p) name)) p) names
      in case ms of [] \<Rightarrow> 0 | m # _ \<Rightarrow> js_indexOf m names + 1)"

definition part_number :: "locale_data \<Rightarrow> part \<Rightarrow> string \<Rightarrow> int option" where
  "part_number L p s =
     (case js_parseInt s of
        Some v \<Rightarrow> Some v
      | None \<Rightarrow>
          if p = P_MM then Some (name_index (months L) s)
          else if p = P_M then Some (name_index (monthsShort L) s)
          else None)"

definition setters_order :: "part list" where
  "setters_order = [P_yyyy, P_yy, P_M, P_MM, P_m, P_mm, P_d, P_dd]"

text \<open>
  \<open>while (d.getUTCMonth() != v) d.setUTCDate(d.getUTCDate()-1)\<close>: setting a month overflows
  by three days at most, so that 31 rounds are more than enough (\<open>set_month_spec\<close>).
\<close>

fun month_back :: "nat \<Rightarrow> int \<Rightarrow> date \<Rightarrow> date" where
  "month_back 0 v d = d"
| "month_back (Suc n) v d =
     (if getUTCMonth d \<noteq> v then month_back n v (setUTCDate (getUTCDate d - 1) d) else d)"

definition set_month :: "int \<Rightarrow> date \<Rightarrow> date" where
  "set_month v d = (let v = (v - 1) mod 12 in month_back 31 v (setUTCMonth v d))"

definition setter :: "part \<Rightarrow> int \<Rightarrow> date \<Rightarrow> date" where
  "setter p v d =
     (if p = P_yyyy then setUTCFullYear v d
      else if p = P_yy then setUTCFullYear (2000 + v) d
      else if p \<in> {P_M, P_MM, P_m, P_mm} then set_month v d
      else setUTCDate v d)"

definition apply_setter :: "(part \<rightharpoonup> int option) \<Rightarrow> date \<Rightarrow> part \<Rightarrow> date" where
  "apply_setter parsed date s =
     (case parsed s of
        Some (Some v) \<Rightarrow> (case TimeClip (setter s v date) of Some d \<Rightarrow> d | None \<Rightarrow> date)
      | _ \<Rightarrow> date)"

definition parseDate :: "locale_data \<Rightarrow> clock \<Rightarrow> dformat \<Rightarrow> string \<Rightarrow> date" where
  "parseDate L clk format text =
     (case rel_parts text of
        Some ps \<Rightarrow>
          (let d = foldl rel_step (now clk) ps
           in Date_UTC (getUTCFullYear d) (getUTCMonth d) (getUTCDate d))
      | None \<Rightarrow>
          (let ws = match_runs (\<lambda>c. \<not> is_punct c) text;
               date = Date_UTC (localYear clk) (localMonth clk) (localDate clk);
               fparts = (if length ws \<noteq> length (parts format)
                         then filter (\<lambda>p. p \<in> set setters_order) (parts format) else parts format)
           in if length ws = length fparts
              then (let parsed = map_of (rev (zip fparts (map2 (part_number L) fparts ws)))
                    in foldl (apply_setter parsed) date setters_order)
              else date))"

section \<open>Months that are too short\<close>

lemma js_rem_zero: "0 < n \<Longrightarrow> js_rem a n = 0 \<longleftrightarrow> a mod n = 0"
  by (simp add: js_rem_def mod_eq_0_iff_dvd)

lemma isLeapYear_InLeapYear: "isLeapYear y = InLeapYear y"
  by (simp add: isLeapYear_def InLeapYear_def js_rem_zero)

lemma getDaysInMonth_DaysInMonth: "getDaysInMonth y m = DaysInMonth y m"
  by (simp add: getDaysInMonth_def DaysInMonth_def month_len_def isLeapYear_InLeapYear)

text \<open>A day from 1 to 31 past the end of a month lies early in the next month of the year.\<close>

lemma overflow:
  assumes "0 \<le> m" "m < 12" "d \<le> 31" "DaysInMonth y m < d"
  shows "m < 11" "MakeDay y m d = MakeDay y (m + 1) (d - DaysInMonth y m)"
    "civil y (m + 1) (d - DaysInMonth y m)" "DaysInMonth y (m + 1) = 31"
proof -
  have m: "m < 11 \<and> DaysInMonth y (m + 1) = 31"
    using assms(1,2) by (rule month_cases) (insert assms(3,4), simp_all add: DaysInMonth_def month_len_def)
  then show "m < 11" "DaysInMonth y (m + 1) = 31" by simp_all
  show "MakeDay y m d = MakeDay y (m + 1) (d - DaysInMonth y m)"
    using MakeDay_month_end [OF assms(1,2), of y "d - DaysInMonth y m"] by simp
  show "civil y (m + 1) (d - DaysInMonth y m)"
    using assms m DaysInMonth_bounds [OF assms(1,2), of y] by (auto simp: civil_def)
qed

text \<open>What a test of the loop must do: hold in the next month and not in the month wanted.\<close>

definition month_test :: "int \<Rightarrow> (date \<Rightarrow> bool) \<Rightarrow> bool" where
  "month_test m test \<longleftrightarrow>
     (\<forall>t. (getUTCMonth t = m \<longrightarrow> \<not> test t) \<and> (m < 11 \<and> getUTCMonth t = m + 1 \<longrightarrow> test t))"

lemma month_loop_clamps:
  assumes "month_test m test" "0 \<le> m" "m < 12" "1 \<le> day" "day \<le> 31"
    "Day t = MakeDay y m day" "TimeWithinDay t = r"
  shows "month_loop test m day t = MakeDate (MakeDay y m (min day (DaysInMonth y m))) r"
  using assms(4-)
proof (induction "nat day" arbitrary: day t)
  case (Suc n)
  show ?case
  proof (cases "day \<le> DaysInMonth y m")
    case True
    then have "getUTCMonth t = m"
      using Suc.prems assms(2,3) getters_civil(2) [of t y m day] by (simp add: civil_def)
    then have "\<not> test t" using assms(1) by (simp add: month_test_def)
    then show ?thesis using True Suc.prems MakeDate_join [of t]
      by (simp add: month_loop.simps [of test m day t])
  next
    case False
    then have over: "DaysInMonth y m < day" by simp
    note o = overflow [OF assms(2,3) \<open>day \<le> 31\<close> over]
    have g: "getUTCFullYear t = y" "getUTCMonth t = m + 1"
      using getters_civil [OF _ o(3), of t] Suc.prems(3) o(2) by simp_all
    then have "test t" using assms(1) o(1) by (simp add: month_test_def)
    have d28: "28 < day" using over DaysInMonth_bounds [OF assms(2,3), of y] by linarith
    let ?t1 = "setUTCDate (day - 1) t" and ?t2 = "setUTCMonth m (setUTCDate (day - 1) t)"
    have "civil y (m + 1) (day - 1)"
      using assms(2) o(1,4) d28 Suc.prems(2) by (simp add: civil_def)
    then have "getUTCFullYear ?t1 = y" "getUTCDate ?t1 = day - 1"
      using getters_civil [of ?t1 y "m + 1" "day - 1"] g by simp_all
    then have t2: "Day ?t2 = MakeDay y m (day - 1)" "TimeWithinDay ?t2 = r"
      using Suc.prems by simp_all
    have "month_loop test m (day - 1) ?t2 = MakeDate (MakeDay y m (min (day - 1) (DaysInMonth y m))) r"
      using Suc.hyps(1) [of "day - 1" ?t2] Suc.hyps(2) Suc.prems d28 t2 by simp
    moreover have "min (day - 1) (DaysInMonth y m) = min day (DaysInMonth y m)" using over by auto
    ultimately show ?thesis using \<open>test t\<close> d28 by (simp add: month_loop.simps [of test m day t])
  qed
qed simp

text \<open>The day of the month \<open>k\<close> months after a date, clamped to the month's end.\<close>

definition month_shift :: "int \<Rightarrow> date \<Rightarrow> int \<Rightarrow> date" where
  "month_shift k t d =
     (let n = 12 * getUTCFullYear t + getUTCMonth t + k
      in MakeDate (MakeDay (n div 12) (n mod 12) (min d (DaysInMonth (n div 12) (n mod 12))))
           (TimeWithinDay t))"

lemma month_shift_getters:
  assumes "1 \<le> d"
  shows "12 * getUTCFullYear (month_shift k t d) + getUTCMonth (month_shift k t d) =
      12 * getUTCFullYear t + getUTCMonth t + k"
    "getUTCDate (month_shift k t d) = min d (DaysInMonth (getUTCFullYear (month_shift k t d))
      (getUTCMonth (month_shift k t d)))"
    "TimeWithinDay (month_shift k t d) = TimeWithinDay t"
proof -
  define n where "n = 12 * getUTCFullYear t + getUTCMonth t + k"
  let ?d = "min d (DaysInMonth (n div 12) (n mod 12))"
  have c: "civil (n div 12) (n mod 12) ?d"
    using assms DaysInMonth_bounds [of "n mod 12" "n div 12"] by (auto simp: civil_def)
  have "Day (month_shift k t d) = MakeDay (n div 12) (n mod 12) ?d"
    by (simp add: month_shift_def n_def Let_def)
  note g = getters_civil [OF this c]
  show "12 * getUTCFullYear (month_shift k t d) + getUTCMonth (month_shift k t d) =
      12 * getUTCFullYear t + getUTCMonth t + k" unfolding g using n_def by simp
  show "getUTCDate (month_shift k t d) = min d (DaysInMonth (getUTCFullYear (month_shift k t d))
      (getUTCMonth (month_shift k t d)))" unfolding g ..
  show "TimeWithinDay (month_shift k t d) = TimeWithinDay t" by (simp add: month_shift_def Let_def)
qed

lemma month_number_inj:
  "12 * y + m = 12 * y' + m' \<Longrightarrow> 0 \<le> m \<Longrightarrow> m < 12 \<Longrightarrow> 0 \<le> m' \<Longrightarrow> m' < 12 \<Longrightarrow> y = y' \<and> m = m'"
  for y m y' m' :: int by presburger

text \<open>The month and the test of a single step.\<close>

lemma step_month:
  assumes "0 \<le> m" "m < 12" "k = 1 \<or> k = -1"
  shows "(if m + k < 0 \<or> m + k > 11 then js_rem (m + k + 12) 12 else m + k) = (m + k) mod 12"
  using assms by (auto simp: mod_pos_pos_trivial) presburger

lemma step_test:
  assumes "0 \<le> m" "m < 12" "k = 1 \<or> k = -1"
  shows "month_test ((m + k) mod 12) (if k = -1 then (\<lambda>d. getUTCMonth d = m) else (\<lambda>d. getUTCMonth d \<noteq> (m + k) mod 12))"
proof (cases "k = -1")
  case True
  have "(m - 1) mod 12 \<noteq> m" "(m - 1) mod 12 < 11 \<Longrightarrow> (m - 1) mod 12 + 1 = m"
    using assms by presburger+
  with True show ?thesis by (auto simp: month_test_def)
qed (auto simp: month_test_def)

lemma step_Day:
  assumes "n = 12 * getUTCFullYear t + getUTCMonth t + k"
  shows "Day (setUTCMonth (getUTCMonth t + k) t) = MakeDay (n div 12) (n mod 12) (getUTCDate t)"
    "n mod 12 = (getUTCMonth t + k) mod 12"
proof -
  have dv: "n div 12 = getUTCFullYear t + (getUTCMonth t + k) div 12" "n mod 12 = (getUTCMonth t + k) mod 12"
    by (simp_all add: assms add.assoc)
  show "Day (setUTCMonth (getUTCMonth t + k) t) = MakeDay (n div 12) (n mod 12) (getUTCDate t)"
    unfolding dv MakeDay_norm [symmetric] by simp
qed (simp add: assms add.assoc)

lemma date_bounds: "0 \<le> getUTCMonth t" "getUTCMonth t < 12" "1 \<le> getUTCDate t" "getUTCDate t \<le> 31"
  using date_civil [of t] DaysInMonth_bounds [of "getUTCMonth t" "getUTCFullYear t"] by (auto simp: civil_def)

lemma moveMonth1_shift:
  assumes "k = 1 \<or> k = -1"
  shows "moveMonth1 k t = month_shift k t (getUTCDate t)"
proof -
  define n where "n = 12 * getUTCFullYear t + getUTCMonth t + k"
  note m = date_bounds(1,2) [of t] and day = date_bounds(3,4) [of t]
  have test: "month_test (n mod 12) (if k = -1 then (\<lambda>d. getUTCMonth d = getUTCMonth t) else (\<lambda>d. getUTCMonth d \<noteq> n mod 12))"
    unfolding step_Day(2) [OF n_def] by (rule step_test [OF m assms])
  from month_loop_clamps [OF test _ _ day step_Day(1) [OF n_def] refl] show ?thesis
    unfolding moveMonth1_def month_shift_def Let_def step_month [OF m assms] step_Day(2) [OF n_def, symmetric] n_def [symmetric] by simp
qed

lemma moveMonth_steps:
  assumes "k = 1 \<or> k = -1" "0 < n"
  shows "12 * getUTCFullYear ((moveMonth1 k ^^ n) t) + getUTCMonth ((moveMonth1 k ^^ n) t) =
      12 * getUTCFullYear t + getUTCMonth t + int n * k \<and>
    TimeWithinDay ((moveMonth1 k ^^ n) t) = TimeWithinDay t"
proof -
  have d: "1 \<le> getUTCDate u" for u using date_civil [of u] by (simp add: civil_def)
  show ?thesis
    by (induction n) (simp_all add: moveMonth1_shift [OF assms(1)] month_shift_getters [OF d] distrib_right)
qed

lemma month_test_neq: "month_test m (\<lambda>d. m \<noteq> getUTCMonth d)"
  by (auto simp: month_test_def)

lemma moveMonth_shift: "moveMonth t k = month_shift k t (getUTCDate t)"
proof -
  have c: "civil (getUTCFullYear t) (getUTCMonth t) (getUTCDate t)" by (rule date_civil)
  then have day: "1 \<le> getUTCDate t" "getUTCDate t \<le> 31" and m: "0 \<le> getUTCMonth t" "getUTCMonth t < 12"
    using DaysInMonth_bounds [of "getUTCMonth t" "getUTCFullYear t"] by (auto simp: civil_def)
  consider "k = 0" | "k = 1 \<or> k = -1" | "\<bar>k\<bar> > 1" by linarith
  then show ?thesis
  proof cases
    case 1
    then show ?thesis using c m
      by (simp add: moveMonth_def month_shift_def Let_def civil_def Day_getters)
  next
    case 2
    then show ?thesis by (auto simp: moveMonth_def Let_def moveMonth1_shift)
  next
    case 3
    define s where "s = (if 0 < k then 1 else - 1 :: int)"
    define d1 where "d1 = (moveMonth1 s ^^ nat \<bar>k\<bar>) t"
    define n where "n = 12 * getUTCFullYear t + getUTCMonth t + k"
    have s: "s = 1 \<or> s = -1" "\<bar>k\<bar> * s = k" by (auto simp: s_def)
    have d1: "12 * getUTCFullYear d1 + getUTCMonth d1 = n" "TimeWithinDay d1 = TimeWithinDay t"
      using moveMonth_steps [OF s(1), of "nat \<bar>k\<bar>" t] 3 s(2) by (simp_all add: d1_def n_def)
    have m1: "0 \<le> getUTCMonth d1" "getUTCMonth d1 < 12" using date_civil [of d1] by (auto simp: civil_def)
    then have n: "getUTCFullYear d1 = n div 12" "getUTCMonth d1 = n mod 12" using d1(1) by auto
    have "moveMonth t k = month_loop (\<lambda>d. getUTCMonth d1 \<noteq> getUTCMonth d) (getUTCMonth d1)
        (getUTCDate t) (setUTCDate (getUTCDate t) d1)"
      using 3 by (auto simp: moveMonth_def Let_def s_def [symmetric] d1_def [symmetric])
    also have "\<dots> = MakeDate (MakeDay (getUTCFullYear d1) (getUTCMonth d1)
        (min (getUTCDate t) (DaysInMonth (getUTCFullYear d1) (getUTCMonth d1)))) (TimeWithinDay t)"
      by (rule month_loop_clamps [OF month_test_neq m1 day]) (simp_all add: d1)
    finally show ?thesis by (simp add: month_shift_def n n_def Let_def)
  qed
qed

text \<open>
  On unbounded time values, moving by any number of months lands in the month that many months
  away, on the same day or that month's last day. \<open>Date_Range\<close> treats the bounds of dates.
\<close>

lemma moveMonth_clamps:
  "let t' = moveMonth t k in
     12 * getUTCFullYear t' + getUTCMonth t' = 12 * getUTCFullYear t + getUTCMonth t + k \<and>
     getUTCDate t' = min (getUTCDate t) (getDaysInMonth (getUTCFullYear t') (getUTCMonth t')) \<and>
     TimeWithinDay t' = TimeWithinDay t"
proof -
  have "1 \<le> getUTCDate t" using date_civil [of t] by (simp add: civil_def)
  from month_shift_getters [OF this, of k t] show ?thesis
    by (simp add: Let_def moveMonth_shift getDaysInMonth_DaysInMonth)
qed

section \<open>Reading back a written date\<close>

lemma month_back_spec:
  assumes "0 \<le> m" "m < 12" "1 \<le> d" "d \<le> 31" "Day t = MakeDay y m d"
    "nat (d - DaysInMonth y m) < n"
  shows "getUTCFullYear (month_back n m t) = y \<and> getUTCMonth (month_back n m t) = m \<and>
    TimeWithinDay (month_back n m t) = TimeWithinDay t"
  using assms(3-)
proof (induction n arbitrary: d t)
  case (Suc n)
  show ?case
  proof (cases "d \<le> DaysInMonth y m")
    case True
    then show ?thesis using getters_civil [OF Suc.prems(3)] assms(1,2) Suc.prems(1) by (simp add: civil_def)
  next
    case False
    then have over: "DaysInMonth y m < d" by simp
    note o = overflow [OF assms(1,2) \<open>d \<le> 31\<close> over]
    have "getUTCMonth t = m + 1" using getters_civil [OF _ o(3), of t] Suc.prems(3) o(2) by simp
    then have step: "month_back (Suc n) m t = month_back n m (setUTCDate (getUTCDate t - 1) t)" by simp
    have "Day (setUTCDate (getUTCDate t - 1) t) = Day t - 1"
      using Day_getters [of t] MakeDay_shift [of "getUTCFullYear t" "getUTCMonth t" "getUTCDate t" "- 1"] by simp
    also have "\<dots> = MakeDay y m (d - 1)" using Suc.prems(3) MakeDay_shift [of y m d "- 1"] by simp
    finally have "Day (setUTCDate (getUTCDate t - 1) t) = MakeDay y m (d - 1)" .
    moreover have "1 \<le> d - 1" using over DaysInMonth_bounds [OF assms(1,2), of y] by linarith
    ultimately show ?thesis
      using Suc.IH [of "d - 1" "setUTCDate (getUTCDate t - 1) t"] Suc.prems over unfolding step by simp
  qed
qed simp

lemma date_range: "0 \<le> getUTCMonth t" "getUTCMonth t < 12" "1 \<le> getUTCDate t" "getUTCDate t \<le> 31"
  using date_civil [of t] DaysInMonth_bounds [of "getUTCMonth t" "getUTCFullYear t"]
  by (auto simp: civil_def)

lemma set_month_spec:
  assumes "1 \<le> v" "v \<le> 12"
  shows "getUTCFullYear (set_month v t) = getUTCFullYear t \<and> getUTCMonth (set_month v t) = v - 1 \<and>
    TimeWithinDay (set_month v t) = TimeWithinDay t"
proof -
  have "(v - 1) mod 12 = v - 1" using assms by simp
  moreover have "nat (getUTCDate t - DaysInMonth (getUTCFullYear t) (v - 1)) < 31"
    using date_range [of t] DaysInMonth_bounds [of "v - 1" "getUTCFullYear t"] assms by auto
  ultimately show ?thesis
    using month_back_spec [of "v - 1" "getUTCDate t" "setUTCMonth (v - 1) t" "getUTCFullYear t" 31]
      date_range [of t] assms by (simp add: set_month_def Let_def)
qed

lemma year_of_overflow:
  assumes "0 \<le> m" "m < 12" "1 \<le> d" "d \<le> 31" "Day t = MakeDay y m d"
  shows "getUTCFullYear t = y"
proof (cases "d \<le> DaysInMonth y m")
  case True
  then show ?thesis using getters_civil(1) [OF assms(5)] assms by (simp add: civil_def)
next
  case False
  then show ?thesis
    using overflow [of m d y] getters_civil(1) [of t y "m + 1" "d - DaysInMonth y m"] assms by simp
qed

lemma clip_year:
  assumes "0 \<le> getUTCFullYear t" "getUTCFullYear t \<le> 275000"
  shows "TimeClip t = Some t"
proof -
  have "DayFromYear (getUTCFullYear t) \<le> Day t" "Day t < DayFromYear (getUTCFullYear t + 1)"
    by (simp_all add: getUTCFullYear_def YearFromDay_bounds)
  then have "- 800000 \<le> Day t" "Day t \<le> 99900000"
    using DayFromYear_linear(2) [of "getUTCFullYear t"] DayFromYear_linear(1) [of "getUTCFullYear t + 1"]
      assms by simp_all
  moreover have "t = Day t * 86400000 + TimeWithinDay t"
    by (simp add: Day_def TimeWithinDay_def msPerDay_def)
  moreover have "0 \<le> TimeWithinDay t" "TimeWithinDay t < 86400000"
    using TimeWithinDay_range [of t] by (simp_all add: msPerDay_def)
  ultimately have "\<bar>t\<bar> \<le> 8640000000000000" by linarith
  then show ?thesis by (simp add: TimeClip_def)
qed

text \<open>
  The formats that determine a date: a year in full, a month and a day of the month, in any
  order, separated by punctuation.
\<close>

definition month_parts :: "part set" where
  "month_parts = {P_m, P_mm, P_M, P_MM}"

definition day_parts :: "part set" where
  "day_parts = {P_d, P_dd}"

definition good_parts :: "part list \<Rightarrow> bool" where
  "good_parts ps \<longleftrightarrow>
     (\<exists>pm\<in>month_parts. \<exists>pd\<in>day_parts. ps \<in> {[P_yyyy, pm, pd], [P_yyyy, pd, pm], [pm, P_yyyy, pd],
        [pd, P_yyyy, pm], [pm, pd, P_yyyy], [pd, pm, P_yyyy]})"

definition good_format :: "dformat \<Rightarrow> bool" where
  "good_format f \<longleftrightarrow> good_parts (parts f) \<and> length (separators f) = 4 \<and>
     list_all (list_all is_punct) (separators f) \<and> separators f ! 1 \<noteq> [] \<and> separators f ! 2 \<noteq> []"

definition part_of :: "date \<Rightarrow> part \<Rightarrow> int" where
  "part_of t p = (if p = P_yyyy then getUTCFullYear t else if p \<in> month_parts then getUTCMonth t + 1
     else getUTCDate t)"

definition date_parts :: "part set" where
  "date_parts = insert P_yyyy (month_parts \<union> day_parts)"

lemma digit_not_punct: "is_digit_char c \<Longrightarrow> \<not> is_punct c"
  by (simp add: is_digit_char_def is_punct_def Let_def)

lemma pad2_digits:
  assumes "0 \<le> n"
  shows "list_all is_digit_char (pad2 n) \<and> pad2 n \<noteq> [] \<and> js_parseInt (pad2 n) = Some n"
proof -
  have "is_digit_char CHR ''0''" "digit_val CHR ''0'' = 0" by code_simp+
  moreover have "list_all is_digit_char (int_str n)" "digits_val (int_str n) = n"
    using assms nat_str_digits [of "nat n"] by (auto simp: int_str_def digits_val_nat_str)
  ultimately show ?thesis using nat_str_digits [of "nat n"] assms
    by (auto simp: pad2_def parseInt_digits digits_val_def int_str_def)
qed

lemma int_str_digits:
  "0 \<le> n \<Longrightarrow> list_all is_digit_char (int_str n) \<and> int_str n \<noteq> [] \<and> js_parseInt (int_str n) = Some n"
  using nat_str_digits [of "nat n"] parseInt_int_str [of n] by (simp add: int_str_def)

definition name_ok :: "string list \<Rightarrow> int \<Rightarrow> bool" where
  "name_ok names m \<longleftrightarrow> (let s = names ! nat m in s \<noteq> [] \<and> list_all (\<lambda>c. \<not> is_punct c) s \<and>
     \<not> is_digit_char (hd s) \<and> hd s \<notin> set ''+-'' \<and> js_parseInt s = None \<and> name_index names s = m + 1)"

lemma names_en: "0 \<le> m \<Longrightarrow> m < 12 \<Longrightarrow> name_ok (months dates_en) m \<and> name_ok (monthsShort dates_en) m"
  by (erule (1) month_cases; hypsubst; code_simp)

lemma part_val_reads:
  assumes "p \<in> date_parts" "0 \<le> getUTCFullYear t"
  shows "part_val dates_en t p \<noteq> []" "list_all (\<lambda>c. \<not> is_punct c) (part_val dates_en t p)"
    "list_all is_digit_char (part_val dates_en t p) \<or> \<not> is_digit_char (hd (part_val dates_en t p))"
    "hd (part_val dates_en t p) \<notin> set ''+-''"
    "part_number dates_en p (part_val dates_en t p) = Some (part_of t p)"
proof -
  let ?v = "part_val dates_en t p"
  have "(list_all is_digit_char ?v \<and> ?v \<noteq> [] \<and> js_parseInt ?v = Some (part_of t p)) \<or>
    (p \<in> {P_M, P_MM} \<and> name_ok (if p = P_M then monthsShort dates_en else months dates_en) (getUTCMonth t) \<and>
     ?v = (if p = P_M then monthsShort dates_en else months dates_en) ! nat (getUTCMonth t))"
    using assms date_range [of t] names_en [of "getUTCMonth t"]
    by (auto simp: date_parts_def month_parts_def day_parts_def part_val_def part_of_def
        pad2_digits int_str_digits)
  then have *: "?v \<noteq> [] \<and> list_all (\<lambda>c. \<not> is_punct c) ?v \<and>
      (list_all is_digit_char ?v \<or> \<not> is_digit_char (hd ?v)) \<and> hd ?v \<notin> set ''+-'' \<and>
      part_number dates_en p ?v = Some (part_of t p)"
  proof (elim disjE)
    assume a: "list_all is_digit_char ?v \<and> ?v \<noteq> [] \<and> js_parseInt ?v = Some (part_of t p)"
    then have "is_digit_char (hd ?v)" by (cases ?v) auto
    then have "hd ?v \<notin> set ''+-''" using digit_not_space by auto
    moreover have "list_all (\<lambda>c. \<not> is_punct c) ?v"
      using a by (auto simp: list_all_iff digit_not_punct)
    ultimately show ?thesis using a by (simp add: part_number_def)
  qed (auto simp: name_ok_def part_number_def part_of_def month_parts_def Let_def)
  then show "?v \<noteq> []" "list_all (\<lambda>c. \<not> is_punct c) ?v"
    "list_all is_digit_char ?v \<or> \<not> is_digit_char (hd ?v)" "hd ?v \<notin> set ''+-''"
    "part_number dates_en p ?v = Some (part_of t p)" by blast+
qed

lemma rel_parts_none:
  assumes "list_all is_punct s0" "v \<noteq> []" "list_all is_digit_char v \<or> \<not> is_digit_char (hd v)"
    "hd v \<notin> set ''+-''" "s1 \<noteq> []" "list_all is_punct s1"
  shows "rel_parts (s0 @ v @ s1 @ rest) = None"
proof -
  obtain a v' where v: "v = a # v'" using assms(2) by (cases v) auto
  obtain b s1' where s1: "s1 = b # s1'" "is_punct b" using assms(5,6) by (cases s1) auto
  have b: "\<not> is_digit_char b" "b \<notin> set ''dmwy''"
    using s1(2) digit_not_punct by (blast, auto simp: is_punct_def char_code_def)
  show ?thesis
  proof (cases s0)
    case Nil
    then show ?thesis using assms(4) v by (subst rel_parts.simps) simp
  next
    case (Cons c s0')
    have "takeWhile is_digit_char (s0' @ v @ s1 @ rest) = [] \<or>
      (s0' = [] \<and> takeWhile is_digit_char (v @ s1 @ rest) = v \<and>
       dropWhile is_digit_char (v @ s1 @ rest) = b # s1' @ rest)"
    proof (cases "s0' = [] \<and> list_all is_digit_char v")
      case True
      then have "\<forall>x\<in>set v. is_digit_char x" by (simp add: list_all_iff)
      then show ?thesis using True s1(1) b(1) by (simp add: dropWhile_append3 takeWhile_append2)
    next
      case False
      then have "\<not> is_digit_char (hd (s0' @ v @ s1 @ rest))"
        using assms(1-3) Cons digit_not_punct by (cases s0') auto
      then show ?thesis by (cases "s0' @ v @ s1 @ rest") auto
    qed
    then show ?thesis using Cons b(2) by (subst rel_parts.simps) (auto simp: Let_def)
  qed
qed

lemma match_runs_three:
  assumes "list_all is_punct s0" "list_all is_punct s1" "list_all is_punct s2" "list_all is_punct s3"
    "s1 \<noteq> []" "s2 \<noteq> []" and v: "\<And>v. v \<in> {v1, v2, v3} \<Longrightarrow> v \<noteq> [] \<and> list_all (\<lambda>c. \<not> is_punct c) v"
  shows "match_runs (\<lambda>c. \<not> is_punct c) (s0 @ v1 @ s1 @ v2 @ s2 @ v3 @ s3) = [v1, v2, v3]"
proof -
  let ?P = "\<lambda>c. \<not> is_punct c"
  have hd: "s @ t = [] \<or> \<not> ?P (hd (s @ t))" if "list_all is_punct s" "s \<noteq> [] \<or> t = []" for s t
    using that by (cases s) auto
  have sk: "match_runs ?P (s @ t) = match_runs ?P t" if "list_all is_punct s" for s t
    using that match_runs_skip [of ?P s t] by (simp add: list_all_iff)
  have rn: "match_runs ?P (u @ s @ t) = u # match_runs ?P t"
    if "u \<in> {v1, v2, v3}" "list_all is_punct s" "s \<noteq> [] \<or> t = []" for u s t
    using match_runs_run [of ?P u "s @ t"] v [OF that(1)] hd [OF that(2,3)] sk [OF that(2)] by auto
  have "match_runs ?P [] = []" by (simp add: match_runs.simps)
  then have "match_runs ?P (v3 @ s3) = [v3]" using rn [of v3 s3 "[]"] assms by simp
  then have "match_runs ?P (v2 @ s2 @ v3 @ s3) = [v2, v3]" using rn [of v2 s2 "v3 @ s3"] assms by simp
  then show ?thesis using rn [of v1 s1 "v2 @ s2 @ v3 @ s3"] sk assms by simp
qed

text \<open>The setters, in their order, build the date from any starting date.\<close>

lemma setters_build:
  assumes "pm \<in> month_parts" "pd \<in> day_parts"
    "\<And>p. parsed p = (if p = P_yyyy \<or> p = pm \<or> p = pd then Some (Some (part_of t p)) else None)"
    "0 \<le> getUTCFullYear t" "getUTCFullYear t \<le> 275000" "TimeWithinDay d0 = TimeWithinDay t"
  shows "foldl (apply_setter parsed) d0 setters_order = t"
proof -
  define t1 where "t1 = setUTCFullYear (getUTCFullYear t) d0"
  define t2 where "t2 = set_month (getUTCMonth t + 1) t1"
  have y1: "getUTCFullYear t1 = getUTCFullYear t" "TimeWithinDay t1 = TimeWithinDay t"
    using year_of_overflow [OF date_range, of t1] assms(6) by (simp_all add: t1_def)
  have t2: "getUTCFullYear t2 = getUTCFullYear t" "getUTCMonth t2 = getUTCMonth t"
    "TimeWithinDay t2 = TimeWithinDay t"
    using set_month_spec [of "getUTCMonth t + 1" t1] y1 date_range [of t] by (simp_all add: t2_def)
  have t3: "setUTCDate (getUTCDate t) t2 = t"
    by (rule date_eqI) (simp_all add: t2 Day_getters)
  note clip = clip_year [of t1] clip_year [of t2] clip_year [of t]
  show ?thesis
    using assms(1,2) clip assms(4,5) y1 t2(1) t3
    by (auto simp: setters_order_def apply_setter_def assms(3) month_parts_def day_parts_def part_of_def
        setter_def t1_def [symmetric] t2_def [symmetric])
qed

lemma Date_UTC_midnight [simp]: "TimeWithinDay (Date_UTC y m d) = 0"
  by (simp add: Date_UTC_def)

text \<open>
  C14: reading back a date that was written gives the same date: for every format made of a
  four-digit year, a month (number or English name) and a day, in any order and with
  punctuation between them, and for every midnight of the years 0 to 275000, whatever the
  clock says.
\<close>

theorem format_parse_roundtrip:
  assumes "good_format f" "TimeWithinDay t = 0" "0 \<le> getUTCFullYear t" "getUTCFullYear t \<le> 275000"
  shows "parseDate dates_en clk f (formatDate dates_en f t) = t"
proof -
  let ?v = "part_val dates_en t" and ?P = "\<lambda>c. \<not> is_punct c"
  obtain s0 s1 s2 s3 where s: "separators f = [s0, s1, s2, s3]"
    using assms(1) by (auto simp: good_format_def length_Suc_conv eval_nat_numeral)
  obtain pm pd where p: "pm \<in> month_parts" "pd \<in> day_parts"
      "parts f \<in> {[P_yyyy, pm, pd], [P_yyyy, pd, pm], [pm, P_yyyy, pd], [pd, P_yyyy, pm],
         [pm, pd, P_yyyy], [pd, pm, P_yyyy]}"
    using assms(1) unfolding good_format_def good_parts_def by blast
  from p(3) have "\<exists>a b c. parts f = [a, b, c] \<and> {a, b, c} = {P_yyyy, pm, pd}"
    by (elim insertE emptyE) (rule exI, rule exI, rule exI, rule conjI, assumption, blast)+
  then obtain a b c where ps: "parts f = [a, b, c]" "pm \<in> month_parts" "pd \<in> day_parts"
      "{a, b, c} = {P_yyyy, pm, pd}" using p(1,2) by blast
  have sp: "list_all is_punct s0" "list_all is_punct s1" "list_all is_punct s2" "list_all is_punct s3"
      "s1 \<noteq> []" "s2 \<noteq> []" using assms(1) s by (auto simp: good_format_def)
  have "{a, b, c} \<subseteq> date_parts" unfolding ps(4) using ps(2,3) by (auto simp: date_parts_def)
  then have dp: "a \<in> date_parts" "b \<in> date_parts" "c \<in> date_parts" by auto
  note rd = part_val_reads [OF _ assms(3)]
  have written: "formatDate dates_en f t = s0 @ ?v a @ s1 @ ?v b @ s2 @ ?v c @ s3"
    by (simp add: formatDate_def s ps(1))
  have rel: "rel_parts (formatDate dates_en f t) = None"
    unfolding written by (intro rel_parts_none sp rd dp)
  have ws: "match_runs ?P (formatDate dates_en f t) = [?v a, ?v b, ?v c]"
    unfolding written using rd(1,2) dp by (intro match_runs_three sp) auto
  let ?m = "map_of (rev (zip [a, b, c] (map2 (part_number dates_en) [a, b, c] [?v a, ?v b, ?v c])))"
  have "?m p = (if p \<in> {a, b, c} then Some (Some (part_of t p)) else None)" for p
    using rd(5) dp by auto
  then have "?m p = (if p = P_yyyy \<or> p = pm \<or> p = pd then Some (Some (part_of t p)) else None)" for p
    unfolding ps(4) by simp
  then have "foldl (apply_setter ?m) d0 setters_order = t" if "TimeWithinDay d0 = 0" for d0
    using setters_build [OF ps(2,3), of ?m t d0] assms that by simp
  then show ?thesis by (simp add: parseDate_def rel ws ps(1) Let_def)
qed

theorem format_parse_roundtrip_witness:
  "parseDate dates_en \<lparr>now = 0, localYear = 2020, localMonth = 1, localDate = 29\<rparr>
     \<lparr>separators = [[], ''/'', ''/'', []], parts = [P_mm, P_dd, P_yyyy]\<rparr>
     (formatDate dates_en \<lparr>separators = [[], ''/'', ''/'', []], parts = [P_mm, P_dd, P_yyyy]\<rparr>
        1488240000000) = 1488240000000 \<and>
   parseFormat ''mm/dd/yyyy'' = Inr \<lparr>separators = [[], ''/'', ''/'', []], parts = [P_mm, P_dd, P_yyyy]\<rparr>"
proof -
  let ?f = "\<lparr>separators = [[], ''/'', ''/'', []], parts = [P_mm, P_dd, P_yyyy]\<rparr> :: dformat"
  have "is_punct CHR ''/''" by code_simp
  then have "good_format ?f" by (auto simp: good_format_def good_parts_def month_parts_def day_parts_def)
  moreover have "TimeWithinDay 1488240000000 = 0" "0 \<le> getUTCFullYear 1488240000000"
    "getUTCFullYear 1488240000000 \<le> 275000" by code_simp+
  moreover have "parseFormat ''mm/dd/yyyy'' = Inr ?f" by code_simp
  ultimately show ?thesis
    using format_parse_roundtrip [of ?f 1488240000000 "\<lparr>now = 0, localYear = 2020, localMonth = 1, localDate = 29\<rparr>"]
    by simp
qed

end
