(* ===== verification/Date_Range.thy ===== *)
theory Date_Range
  imports Date_Format
begin

text \<open>
  \<open>moveMonth\<close> of \<open>bootstrap-datepicker.js\<close> on the dates of the language, which end 100,000,000
  days before and after 1970. A date beyond is invalid: its time value and everything read
  from it are NaN, which differs from every number and from itself. The other theories compute
  with unbounded time values; here \<open>None\<close> is NaN, the setters clip (\<open>TimeClip\<close>), and the
  date-resetting loop is a partial function, so that a call that does not return is the
  outer \<open>None\<close>.
\<close>

section \<open>Dates and numbers that may be NaN\<close>

type_synonym num = "int option"
type_synonym jdate = "date option"

definition js_eq :: "num \<Rightarrow> num \<Rightarrow> bool" where
  "js_eq a b = (case (a, b) of (Some x, Some y) \<Rightarrow> x = y | _ \<Rightarrow> False)"

definition get_date :: "jdate \<Rightarrow> num" where
  "get_date d = map_option getUTCDate d"

definition get_month :: "jdate \<Rightarrow> num" where
  "get_month d = map_option getUTCMonth d"

definition set_date :: "num \<Rightarrow> jdate \<Rightarrow> jdate" where
  "set_date v d = Option.bind d (\<lambda>t. Option.bind v (\<lambda>v. TimeClip (setUTCDate v t)))"

definition set_month_of :: "num \<Rightarrow> jdate \<Rightarrow> jdate" where
  "set_month_of v d = Option.bind d (\<lambda>t. Option.bind v (\<lambda>v. TimeClip (setUTCMonth v t)))"

section \<open>The function\<close>

partial_function (option) reset_loop :: "(jdate \<Rightarrow> bool) \<Rightarrow> num \<Rightarrow> num \<Rightarrow> jdate \<Rightarrow> jdate option" where
  "reset_loop test new_month day new_date =
     (if test new_date
      then reset_loop test new_month (map_option (\<lambda>x. x - 1) day)
             (set_month_of new_month (set_date (map_option (\<lambda>x. x - 1) day) new_date))
      else Some new_date)"

definition wrap_month :: "num \<Rightarrow> num" where
  "wrap_month = map_option (\<lambda>m. if m < 0 \<or> m > 11 then js_rem (m + 12) 12 else m)"

definition move_one :: "int \<Rightarrow> jdate \<Rightarrow> jdate option" where
  "move_one dir date =
     (let day = get_date date;
          month = get_month date;
          new_month = wrap_month (map_option (\<lambda>m. m + dir) month);
          test = (if dir = -1 then (\<lambda>d. js_eq (get_month d) month) else (\<lambda>d. \<not> js_eq (get_month d) new_month))
      in reset_loop test new_month day (set_month_of (map_option (\<lambda>m. m + dir) month) date))"

primrec move_steps :: "nat \<Rightarrow> int \<Rightarrow> jdate \<Rightarrow> jdate option" where
  "move_steps 0 dir d = Some d"
| "move_steps (Suc n) dir d = Option.bind (move_steps n dir d) (move_one dir)"

definition move_month :: "jdate \<Rightarrow> int \<Rightarrow> jdate option" where
  "move_month date dir =
     (if dir = 0 then Some date
      else (let mag = \<bar>dir\<bar>; sgn = (if dir > 0 then 1 else -1)
            in if mag = 1 then move_one sgn date
               else Option.bind (move_steps (nat mag) sgn date) (\<lambda>d1.
                      let day = get_date date; new_month = get_month d1
                      in reset_loop (\<lambda>d. \<not> js_eq new_month (get_month d)) new_month day (set_date day d1))))"

section \<open>The loop on an invalid date\<close>

text \<open>No setter repairs an invalid date, so a test that holds of it holds for ever.\<close>

lemma reset_loop_valid:
  assumes "reset_loop test m d x = Some r"
  shows "test x \<longrightarrow> x \<noteq> None"
proof (rule reset_loop.raw_induct [where P = "\<lambda>test m d x r. test x \<longrightarrow> x \<noteq> None", OF _ assms])
  fix f test m d x r
  assume IH: "\<And>test m d x r. f test m d x = Some r \<Longrightarrow> test x \<longrightarrow> x \<noteq> None"
    and eq: "(if test x then f test m (map_option (\<lambda>x. x - 1) d) (set_month_of m (set_date (map_option (\<lambda>x. x - 1) d) x))
      else Some x) = Some r"
  show "test x \<longrightarrow> x \<noteq> None"
    using IH [of test m "map_option (\<lambda>x. x - 1) d" None r] eq by (cases x) (auto simp: set_date_def set_month_of_def)
qed

lemma reset_loop_nan: "test None \<Longrightarrow> reset_loop test m d None = None"
  using reset_loop_valid [of test m d None] by (cases "reset_loop test m d None") auto

section \<open>The ends of the range\<close>

definition in_range :: "date \<Rightarrow> bool" where
  "in_range t \<longleftrightarrow> \<bar>t\<bar> \<le> 8640000000000000"

lemma TimeClip_range: "TimeClip t = (if in_range t then Some t else None)"
  by (simp add: TimeClip_def in_range_def)

lemma in_range_day:
  "in_range t \<longleftrightarrow> -100000000 \<le> Day t \<and> (Day t < 100000000 \<or> Day t = 100000000 \<and> TimeWithinDay t = 0)"
proof -
  have "t = Day t * 86400000 + TimeWithinDay t" by (simp add: Day_def TimeWithinDay_def msPerDay_def)
  moreover have "0 \<le> TimeWithinDay t" "TimeWithinDay t < 86400000" using TimeWithinDay_range [of t] by (simp_all add: msPerDay_def)
  ultimately show ?thesis unfolding in_range_def by linarith
qed

text \<open>
  The range ends in April and in September; no month shorter than 31 days ends within 31 days
  before one of its ends.
\<close>

lemma short_month_end:
  assumes "0 \<le> m" "m < 12" "DaysInMonth y m < 31" "D = MakeDay y m (DaysInMonth y m)"
  shows "D < - 100000000 - 31 \<or> - 100000000 \<le> D \<and> D < 100000000 - 31 \<or> 100000000 < D"
proof (rule ccontr)
  assume a: "\<not> ?thesis"
  have y: "YearFromDay D = y"
    using day_of_civil [of y m "DaysInMonth y m"] DaysInMonth_bounds [OF assms(1,2), of y] assms by (simp add: civil_def)
  consider "100000000 - 31 \<le> D" "D \<le> 100000000" | "- 100000000 - 31 \<le> D" "D < - 100000000" using a by linarith
  then show False
  proof cases
    case 1
    then have "YearFromDay D = 275760" by (intro YearFromDay_unique) (simp_all add: DayFromYear_def)
    then have "y = 275760" using y by simp
    show False
      by (rule month_cases [OF assms(1,2)]; use \<open>y = 275760\<close> 1 assms(3,4) in \<open>simp add: MakeDay_def DaysInMonth_def month_len_def month_start_def InLeapYear_def DayFromYear_def\<close>)
  next
    case 2
    then have "YearFromDay D = - 271821" by (intro YearFromDay_unique) (simp_all add: DayFromYear_def)
    then have "y = - 271821" using y by simp
    show False
      by (rule month_cases [OF assms(1,2)]; use \<open>y = - 271821\<close> 2 assms(3,4) in \<open>simp add: MakeDay_def DaysInMonth_def month_len_def month_start_def InLeapYear_def DayFromYear_def\<close>)
  qed
qed

text \<open>So the days that follow the end of a short month are in the range when that end is.\<close>

lemma in_range_over:
  assumes "0 \<le> m" "m < 12" "DaysInMonth y m < 31" "Day t = MakeDay y m (DaysInMonth y m)"
    "Day t \<le> Day u" "Day u \<le> Day t + 31"
  shows "in_range u \<longleftrightarrow> in_range t"
  using short_month_end [OF assms(1-4)] assms(5,6) unfolding in_range_day by linarith

lemma in_range_clamped:
  assumes "0 \<le> m" "m < 12" "1 \<le> day" "day \<le> 31" "Day u = MakeDay y m day"
    "R = MakeDate (MakeDay y m (min day (DaysInMonth y m))) (TimeWithinDay u)"
  shows "in_range u \<longleftrightarrow> in_range R"
proof (cases "day \<le> DaysInMonth y m")
  case True
  then show ?thesis using assms MakeDate_join [of u] by simp
next
  case False
  then have R: "Day R = MakeDay y m (DaysInMonth y m)" using assms(6) by simp
  have "Day u = Day R + (day - DaysInMonth y m)" using R assms(5) MakeDay_shift [of y m "DaysInMonth y m" "day - DaysInMonth y m"] by simp
  then show ?thesis
    using in_range_over [OF assms(1,2) _ R, of u] False DaysInMonth_bounds [OF assms(1,2), of y] assms(4) by simp
qed

section \<open>Moving within the range\<close>

lemma reset_loop_clamps:
  assumes "month_test m (\<lambda>t. test (Some t))" "0 \<le> m" "m < 12" "1 \<le> day" "day \<le> 31" "Day t = MakeDay y m day" "TimeWithinDay t = r"
    "in_range (MakeDate (MakeDay y m (min day (DaysInMonth y m))) r)"
  shows "reset_loop test (Some m) (Some day) (Some t) = Some (Some (MakeDate (MakeDay y m (min day (DaysInMonth y m))) r))"
  using assms(4-)
proof (induction "nat day" arbitrary: day t)
  case (Suc n)
  let ?len = "DaysInMonth y m"
  show ?case
  proof (cases "day \<le> ?len")
    case True
    then have "getUTCMonth t = m" using Suc.prems assms(2,3) getters_civil(2) [of t y m day] by (simp add: civil_def)
    then have "\<not> test (Some t)" using assms(1) by (simp add: month_test_def)
    then show ?thesis using True Suc.prems MakeDate_join [of t] by (simp add: reset_loop.simps [of test])
  next
    case False
    then have over: "?len < day" by simp
    note o = overflow [OF assms(2,3) \<open>day \<le> 31\<close> over]
    have g: "getUTCFullYear t = y" "getUTCMonth t = m + 1" using getters_civil [OF _ o(3), of t] Suc.prems(3) o(2) by simp_all
    then have "test (Some t)" using assms(1) o(1) by (simp add: month_test_def)
    have d28: "28 < day" using over DaysInMonth_bounds [OF assms(2,3), of y] by linarith
    let ?R = "MakeDate (MakeDay y m ?len) r" and ?t1 = "setUTCDate (day - 1) t"
    have r: "0 \<le> r" "r < msPerDay" using TimeWithinDay_range [of t] Suc.prems(4) by auto
    have R: "in_range ?R" "Day ?R = MakeDay y m ?len" using Suc.prems(5) over r by simp_all
    have "Day ?t1 = MakeDay y m ?len + (day - 1)"
      using g MakeDay_month_end [OF assms(2,3), of y "day - 1"] MakeDay_shift [of y m ?len "day - 1"] by simp
    then have r1: "in_range ?t1"
      using in_range_over [OF assms(2,3) _ R(2), of ?t1] over Suc.prems(2) R d28 by simp
    have "civil y (m + 1) (day - 1)" using assms(2) o(1,4) d28 Suc.prems(2) by (simp add: civil_def)
    then have "getUTCFullYear ?t1 = y" "getUTCDate ?t1 = day - 1" using getters_civil [of ?t1 y "m + 1" "day - 1"] g by simp_all
    then have t2: "Day (setUTCMonth m ?t1) = MakeDay y m (day - 1)" "TimeWithinDay (setUTCMonth m ?t1) = r" using Suc.prems by simp_all
    have same: "min (day - 1) ?len = min day ?len" using over by auto
    have "in_range (setUTCMonth m ?t1)"
      using in_range_clamped [OF assms(2,3) _ _ t2(1) refl] t2(2) same Suc.prems(2,5) d28 by simp
    then have "reset_loop test (Some m) (Some day) (Some t) = reset_loop test (Some m) (Some (day - 1)) (Some (setUTCMonth m ?t1))"
      using \<open>test (Some t)\<close> r1 by (simp add: reset_loop.simps [of test _ "Some day"] set_date_def set_month_of_def TimeClip_range)
    then show ?thesis using Suc.hyps(1) [of "day - 1" "setUTCMonth m ?t1"] Suc.hyps(2) Suc.prems d28 t2 same by simp
  qed
qed simp

text \<open>
  A single step. Going forward past the end of the range does not return; going back past it
  gives an invalid date.
\<close>

lemma move_one_shift:
  assumes "k = 1 \<or> k = -1" "R = month_shift k t (getUTCDate t)"
  shows "move_one k (Some t) = (if in_range R then Some (Some R) else if k = -1 then Some None else None)"
proof -
  define n where "n = 12 * getUTCFullYear t + getUTCMonth t + k"
  define u where "u = setUTCMonth (getUTCMonth t + k) t"
  note m = date_bounds(1,2) [of t] and day = date_bounds(3,4) [of t]
  let ?test = "if k = -1 then (\<lambda>d. js_eq (get_month d) (Some (getUTCMonth t))) else (\<lambda>d. \<not> js_eq (get_month d) (Some (n mod 12)))"
  have wrap: "wrap_month (Some (getUTCMonth t + k)) = Some (n mod 12)"
    using step_month [OF m assms(1)] step_Day(2) [OF n_def] by (simp add: wrap_month_def)
  have one: "move_one k (Some t) = reset_loop ?test (Some (n mod 12)) (Some (getUTCDate t)) (TimeClip u)"
    by (simp add: move_one_def Let_def get_date_def get_month_def wrap set_month_of_def u_def)
  have D: "Day u = MakeDay (n div 12) (n mod 12) (getUTCDate t)" unfolding u_def by (rule step_Day(1) [OF n_def])
  have R: "R = MakeDate (MakeDay (n div 12) (n mod 12) (min (getUTCDate t) (DaysInMonth (n div 12) (n mod 12)))) (TimeWithinDay u)"
    by (simp add: assms(2) month_shift_def n_def u_def Let_def)
  have clamped: "in_range u \<longleftrightarrow> in_range R" by (rule in_range_clamped [OF _ _ day D R]) simp_all
  show ?thesis
  proof (cases "in_range R")
    case True
    have "month_test (n mod 12) (\<lambda>t. ?test (Some t))"
      using step_test [OF m assms(1)] unfolding step_Day(2) [OF n_def, symmetric]
      by (cases "k = -1") (simp_all add: js_eq_def get_month_def)
    from reset_loop_clamps [OF this _ _ day D refl] show ?thesis using True clamped R one by (simp add: TimeClip_range)
  next
    case False
    then have u: "TimeClip u = None" using clamped by (simp add: TimeClip_range)
    show ?thesis
    proof (cases "k = -1")
      case True
      then show ?thesis using False one u by (simp add: reset_loop.simps [of _ _ _ None]) (simp add: js_eq_def get_month_def)
    next
      case neq: False
      then show ?thesis using False by (simp add: one u reset_loop_nan js_eq_def get_month_def)
    qed
  qed
qed

lemma move_one_nan: "move_one (-1) None = Some None"
  by (simp add: move_one_def Let_def set_month_of_def get_month_def reset_loop.simps [of _ _ _ None]) (simp add: js_eq_def)

lemma steps_in_range:
  assumes "k = 1 \<or> k = -1" "\<And>i. i \<le> n \<Longrightarrow> in_range ((moveMonth1 k ^^ i) t)"
  shows "move_steps n k (Some t) = Some (Some ((moveMonth1 k ^^ n) t))"
  using assms(2)
proof (induction n)
  case (Suc n)
  have "month_shift k ((moveMonth1 k ^^ n) t) (getUTCDate ((moveMonth1 k ^^ n) t)) = (moveMonth1 k ^^ Suc n) t"
    by (simp add: moveMonth1_shift [OF assms(1)])
  moreover have "in_range ((moveMonth1 k ^^ Suc n) t)" by (rule Suc.prems) simp
  ultimately show ?case using Suc by (simp only: move_steps.simps move_one_shift [OF assms(1) refl] bind.simps if_True le_SucI)
qed simp

lemma steps_out_of_range:
  assumes "k = 1 \<or> k = -1" "in_range t" "i \<le> n" "\<not> in_range ((moveMonth1 k ^^ i) t)"
  shows "move_steps n k (Some t) = (if k = -1 then Some None else None)"
proof -
  define j where "j = (LEAST i. \<not> in_range ((moveMonth1 k ^^ i) t))"
  have j: "\<not> in_range ((moveMonth1 k ^^ j) t)" "\<And>i. i < j \<Longrightarrow> in_range ((moveMonth1 k ^^ i) t)"
    unfolding j_def using LeastI [of "\<lambda>i. \<not> in_range ((moveMonth1 k ^^ i) t)" i] assms(4) not_less_Least by blast+
  have "j \<le> n" unfolding j_def using Least_le [of _ i] assms(3,4) by (meson le_trans)
  obtain p where p: "j = Suc p" using j(1) assms(2) by (cases j) auto
  have "month_shift k ((moveMonth1 k ^^ p) t) (getUTCDate ((moveMonth1 k ^^ p) t)) = (moveMonth1 k ^^ j) t"
    by (simp add: moveMonth1_shift [OF assms(1)] p)
  moreover have "move_steps p k (Some t) = Some (Some ((moveMonth1 k ^^ p) t))"
    using steps_in_range [OF assms(1)] j(2) p by simp
  ultimately have start: "move_steps j k (Some t) = (if k = -1 then Some None else None)"
    using j(1) by (simp add: p move_one_shift [OF assms(1) refl])
  show ?thesis
    using \<open>j \<le> n\<close> by (induction rule: dec_induct) (use start assms(1) in \<open>auto simp: move_one_nan\<close>)
qed

section \<open>Moving by any number of months\<close>

text \<open>Dates in consecutive months are in that order, so the steps of a move go one way.\<close>

lemma month_number_next:
  fixes y m :: int
  shows "12 * y' + m' = 12 * y + m + 1 \<Longrightarrow> 0 \<le> m \<Longrightarrow> m < 12 \<Longrightarrow> 0 \<le> m' \<Longrightarrow> m' < 12 \<Longrightarrow> y' = y + (m + 1) div 12 \<and> m' = (m + 1) mod 12"
  using month_number_inj [of y' m' "y + 1" 0] month_number_inj [of y' m' y "m + 1"] by (cases "m = 11") auto

lemma next_month_later:
  assumes "12 * getUTCFullYear u + getUTCMonth u = 12 * getUTCFullYear t + getUTCMonth t + 1"
  shows "Day t < Day u"
proof -
  let ?y = "getUTCFullYear t" and ?m = "getUTCMonth t"
  note m = date_bounds(1,2) [of t]
  have "getUTCFullYear u = ?y + (?m + 1) div 12" "getUTCMonth u = (?m + 1) mod 12"
    using month_number_next [OF assms m date_bounds(1,2) [of u]] by simp_all
  then have "Day u = MakeDay ?y ?m (DaysInMonth ?y ?m + getUTCDate u)"
    using Day_getters [of u] MakeDay_norm [of ?y "?m + 1" "getUTCDate u"] MakeDay_month_end [OF m] by simp
  moreover have "Day t = MakeDay ?y ?m (DaysInMonth ?y ?m) + (getUTCDate t - DaysInMonth ?y ?m)"
    using Day_getters [of t] MakeDay_shift [of ?y ?m "DaysInMonth ?y ?m" "getUTCDate t - DaysInMonth ?y ?m"] by simp
  ultimately show ?thesis
    using date_civil [of t] date_bounds(3) [of u] by (simp add: MakeDay_shift civil_def)
qed

lemma steps_between:
  assumes "k = 1 \<or> k = -1" "i \<le> n" "in_range t" "in_range ((moveMonth1 k ^^ n) t)"
  shows "in_range ((moveMonth1 k ^^ i) t)"
proof -
  let ?s = "\<lambda>i. (moveMonth1 k ^^ i) t"
  have month: "12 * getUTCFullYear (?s (Suc i)) + getUTCMonth (?s (Suc i)) = 12 * getUTCFullYear (?s i) + getUTCMonth (?s i) + k" for i
    using moveMonth_steps [OF assms(1), of 1 "?s i"] by simp
  have "Day (?s i) < Day (?s (Suc i))" if "k = 1" for i using next_month_later month [of i] that by simp
  then have up: "Day t \<le> Day (?s i) \<and> Day (?s i) \<le> Day (?s n)" if "k = 1"
    using lift_Suc_mono_le [of "\<lambda>i. Day (?s i)" 0 i] lift_Suc_mono_le [of "\<lambda>i. Day (?s i)" i n] that assms(2) by (simp add: less_imp_le)
  have "Day (?s (Suc i)) < Day (?s i)" if "k = -1" for i using next_month_later [of "?s i" "?s (Suc i)"] month [of i] that by simp
  then have down: "Day (?s i) \<le> Day t \<and> Day (?s n) \<le> Day (?s i)" if "k = -1"
    using lift_Suc_antimono_le [of "\<lambda>i. Day (?s i)" 0 i] lift_Suc_antimono_le [of "\<lambda>i. Day (?s i)" i n] that assms(2) by (simp add: less_imp_le)
  have time: "TimeWithinDay (?s i) = TimeWithinDay t" for i using moveMonth_steps [OF assms(1), of i t] by (cases i) auto
  consider "k = 1" | "k = -1" using assms(1) by blast
  then show ?thesis
  proof cases
    case 1
    then show ?thesis using up assms(3,4) unfolding in_range_day time by linarith
  next
    case 2
    then show ?thesis using down assms(3,4) unfolding in_range_day time by linarith
  qed
qed

text \<open>The steps may lose the last days of a month, but no more: the last step is on the day or after the 27th.\<close>

lemma steps_day:
  assumes "k = 1 \<or> k = -1"
  shows "getUTCDate ((moveMonth1 k ^^ n) t) = getUTCDate t \<or> 28 \<le> getUTCDate ((moveMonth1 k ^^ n) t) \<and> getUTCDate ((moveMonth1 k ^^ n) t) \<le> getUTCDate t"
proof (induction n)
  case (Suc n)
  let ?u = "(moveMonth1 k ^^ n) t" and ?v = "(moveMonth1 k ^^ Suc n) t"
  have "getUTCDate ?v = min (getUTCDate ?u) (DaysInMonth (getUTCFullYear ?v) (getUTCMonth ?v))"
    using month_shift_getters(2) [OF date_bounds(3), of k ?u] by (simp add: moveMonth1_shift [OF assms])
  then show ?case using Suc DaysInMonth_bounds [of "getUTCMonth ?v" "getUTCFullYear ?v"] date_bounds(1,2) [of ?v] by (auto simp: min_def split: if_splits)
qed simp

lemma range_ends: "DateFromDay 100000000 = 13" "DateFromDay (- 100000000) = 20"
  by (simp_all add: DateFromDay_def MonthFromDay_def YearFromDay_def DayFromYear_def InLeapYear_def month_of_def month_start_def)

lemma in_range_same_month:
  assumes "civil y m a" "civil y m b" "28 \<le> a" "a \<le> b" "Day u = MakeDay y m a" "Day v = MakeDay y m b" "TimeWithinDay u = TimeWithinDay v"
  shows "in_range u \<longleftrightarrow> in_range v"
proof -
  have "\<not> (MakeDay y m a \<le> d \<and> d \<le> MakeDay y m b)" if "DateFromDay d < 28" for d
  proof
    assume d: "MakeDay y m a \<le> d \<and> d \<le> MakeDay y m b"
    define c where "c = a + (d - MakeDay y m a)"
    have "MakeDay y m b = MakeDay y m a + (b - a)" using MakeDay_shift [of y m a "b - a"] by simp
    then have "civil y m c" "a \<le> c" using d assms(1,2) by (auto simp: civil_def c_def)
    moreover have "MakeDay y m c = d" unfolding c_def by (simp add: MakeDay_shift)
    ultimately show False using day_of_civil [of y m c] that assms(3) by simp
  qed
  from this [of 100000000] this [of "- 100000000"] show ?thesis
    using assms(4-7) MakeDay_shift [of y m a "b - a"] range_ends unfolding in_range_day by auto
qed

lemma last_step_range:
  fixes k t n
  defines "d \<equiv> (moveMonth1 k ^^ n) t"
  assumes "k = 1 \<or> k = -1" "getUTCFullYear d = y" "getUTCMonth d = m"
    "Day u = MakeDay y m (min (getUTCDate t) (DaysInMonth y m))" "TimeWithinDay u = TimeWithinDay d"
  shows "in_range d \<longleftrightarrow> in_range u"
proof -
  have m: "0 \<le> m" "m < 12" using date_bounds(1,2) [of d] assms(4) by auto
  have c: "civil y m (getUTCDate d)" "civil y m (min (getUTCDate t) (DaysInMonth y m))"
    using date_civil [of d] date_bounds(3) [of t] DaysInMonth_bounds [OF m, of y] m assms(3,4) by (auto simp: civil_def)
  have D: "Day d = MakeDay y m (getUTCDate d)" using Day_getters [of d] assms(3,4) by simp
  show ?thesis
  proof (cases "getUTCDate d = getUTCDate t")
    case True
    then have "min (getUTCDate t) (DaysInMonth y m) = getUTCDate d" using c(1) by (simp add: civil_def)
    then have "Day d = Day u" unfolding D assms(5) by (rule arg_cong [OF sym])
    then have "d = u" using assms(6) by (metis date_eqI)
    then show ?thesis by simp
  next
    case False
    then have "28 \<le> getUTCDate d" "getUTCDate d \<le> min (getUTCDate t) (DaysInMonth y m)"
      using steps_day [OF assms(2), of n t] c(1) by (auto simp: d_def [symmetric] civil_def)
    then show ?thesis using in_range_same_month [OF c _ _ D assms(5)] assms(6) by simp
  qed
qed

lemma move_month_shift:
  fixes t k
  defines "t' \<equiv> month_shift k t (getUTCDate t)"
  assumes "in_range t"
  shows "move_month (Some t) k = (if in_range t' then Some (Some t') else if k = -1 then Some None else None)"
proof -
  define n where "n = 12 * getUTCFullYear t + getUTCMonth t + k"
  define y m where "y = n div 12" and "m = n mod 12"
  have m: "0 \<le> m" "m < 12" by (simp_all add: m_def)
  have t': "t' = MakeDate (MakeDay y m (min (getUTCDate t) (DaysInMonth y m))) (TimeWithinDay t)"
    by (simp add: t'_def month_shift_def n_def [symmetric] y_def m_def Let_def)
  consider "k = 0" | "k = 1 \<or> k = -1" | "\<bar>k\<bar> > 1" by linarith
  then show ?thesis
  proof cases
    case 1
    then show ?thesis using moveMonth_shift [of t 0] assms(2) by (simp add: moveMonth_def move_month_def t'_def)
  next
    case 2
    then show ?thesis using move_one_shift [OF 2 t'_def [THEN meta_eq_to_obj_eq]] by (auto simp: move_month_def)
  next
    case 3
    define s where "s = (if 0 < k then 1 else - 1 :: int)"
    define d1 where "d1 = (moveMonth1 s ^^ nat \<bar>k\<bar>) t"
    have s: "s = 1 \<or> s = -1" "\<bar>k\<bar> * s = k" by (auto simp: s_def)
    have mm: "move_month (Some t) k = Option.bind (move_steps (nat \<bar>k\<bar>) s (Some t)) (\<lambda>d1.
        reset_loop (\<lambda>d. \<not> js_eq (get_month d1) (get_month d)) (get_month d1) (Some (getUTCDate t)) (set_date (Some (getUTCDate t)) d1))"
      using 3 by (auto simp: move_month_def Let_def s_def get_date_def)
    have d1: "12 * getUTCFullYear d1 + getUTCMonth d1 = n" "TimeWithinDay d1 = TimeWithinDay t"
      using moveMonth_steps [OF s(1), of "nat \<bar>k\<bar>" t] 3 s(2) by (simp_all add: d1_def n_def)
    have g: "getUTCFullYear d1 = y" "getUTCMonth d1 = m" using d1(1) date_bounds(1,2) [of d1] by (auto simp: y_def m_def)
    note day = date_bounds(3,4) [of t]
    have T': "Day t' = MakeDay y m (min (getUTCDate t) (DaysInMonth y m))" "TimeWithinDay t' = TimeWithinDay d1"
      using d1(2) by (simp_all add: t')
    have same: "in_range d1 \<longleftrightarrow> in_range t'"
      using last_step_range [OF s(1) g [unfolded d1_def] T' [unfolded d1_def]] by (simp add: d1_def)
    show ?thesis
    proof (cases "in_range t'")
      case True
      let ?u = "setUTCDate (getUTCDate t) d1"
      have steps: "move_steps (nat \<bar>k\<bar>) s (Some t) = Some (Some d1)"
        unfolding d1_def by (rule steps_in_range [OF s(1) steps_between [OF s(1) _ assms(2)]]) (use same True in \<open>auto simp: d1_def\<close>)
      have U: "Day ?u = MakeDay y m (getUTCDate t)" "TimeWithinDay ?u = TimeWithinDay t" using g d1(2) by simp_all
      have R: "in_range (MakeDate (MakeDay y m (min (getUTCDate t) (DaysInMonth y m))) (TimeWithinDay t))"
        using True by (simp add: t')
      have "in_range ?u" using in_range_clamped [OF m day U(1) refl] R U(2) by simp
      moreover have "month_test m (\<lambda>t. \<not> js_eq (Some m) (get_month (Some t)))" using month_test_neq [of m] by (simp add: js_eq_def get_month_def)
      ultimately show ?thesis
        using reset_loop_clamps [OF _ m day U R] True
        by (simp add: mm steps set_date_def TimeClip_range get_month_def g t')
    next
      case False
      then have "move_steps (nat \<bar>k\<bar>) s (Some t) = (if s = -1 then Some None else None)"
        using steps_out_of_range [OF s(1) assms(2) order_refl] same by (simp add: d1_def)
      moreover have "k \<noteq> -1" using 3 by simp
      ultimately show ?thesis using False by (simp add: mm set_date_def get_month_def reset_loop_nan js_eq_def)
    qed
  qed
qed

text \<open>Within the range the function on unbounded time values computes the same.\<close>

lemma move_month_unbounded: "in_range t \<Longrightarrow> in_range (moveMonth t k) \<Longrightarrow> move_month (Some t) k = Some (Some (moveMonth t k))"
  using move_month_shift [of t k] by (simp add: moveMonth_shift)

text \<open>
  C13: moving a date by any number of months, forwards or backwards, on dates as the language
  has them. Let the result wanted be the date in the month that many months away, on the same
  day of the month or, where that month is shorter, on its last day, at the same time of the
  day. If it lies in the range of dates, 100,000,000 days on each side of 1970, the call
  returns it; in particular the loops end. If it lies beyond, then the call does not return,
  except that a move by one month back returns an invalid date.
\<close>

theorem move_month_spec:
  assumes "in_range t" "12 * y + m = 12 * getUTCFullYear t + getUTCMonth t + k" "0 \<le> m" "m < 12"
    "t' = MakeDate (MakeDay y m (min (getUTCDate t) (getDaysInMonth y m))) (TimeWithinDay t)"
  shows "move_month (Some t) k = (if in_range t' then Some (Some t') else if k = -1 then Some None else None)"
proof -
  have "(12 * y + m) div 12 = y" "(12 * y + m) mod 12 = m" using assms(3,4) by simp_all
  then have "month_shift k t (getUTCDate t) = t'"
    unfolding month_shift_def assms(2) [symmetric] Let_def by (simp only: assms(5) getDaysInMonth_DaysInMonth)
  then show ?thesis using move_month_shift [OF assms(1), of k] by simp
qed

text \<open>From 31 January 2015 by one month and by thirteen, and from the last month of the range.\<close>

theorem move_month_spec_witness:
  "move_month (Some (Date_UTC 2015 0 31)) 13 = Some (Some (Date_UTC 2016 1 29)) \<and>
   move_month (Some (Date_UTC 275760 8 1)) 1 = None \<and> move_month (Some (Date_UTC (-271821) 4 1)) (-1) = Some None"
proof (intro conjI)
  have "getUTCFullYear (Date_UTC 2015 0 31) = 2015" "getUTCMonth (Date_UTC 2015 0 31) = 0" "getUTCDate (Date_UTC 2015 0 31) = 31"
    "in_range (Date_UTC 2015 0 31)" "in_range (Date_UTC 2016 1 29)"
    "MakeDate (MakeDay 2016 1 (min 31 (getDaysInMonth 2016 1))) (TimeWithinDay (Date_UTC 2015 0 31)) = Date_UTC 2016 1 29" by code_simp+
  then show "move_month (Some (Date_UTC 2015 0 31)) 13 = Some (Some (Date_UTC 2016 1 29))"
    by (subst move_month_spec [where y = 2016 and m = 1 and t' = "Date_UTC 2016 1 29"]) simp_all
next
  define u where "u = MakeDate (MakeDay 275760 9 (min 1 (getDaysInMonth 275760 9))) (TimeWithinDay (Date_UTC 275760 8 1))"
  have "getUTCFullYear (Date_UTC 275760 8 1) = 275760" "getUTCMonth (Date_UTC 275760 8 1) = 8" "getUTCDate (Date_UTC 275760 8 1) = 1"
    "in_range (Date_UTC 275760 8 1)" by code_simp+
  moreover have "\<not> in_range u" unfolding u_def by code_simp
  ultimately show "move_month (Some (Date_UTC 275760 8 1)) 1 = None"
    by (subst move_month_spec [where y = 275760 and m = 9 and t' = u]) (simp_all add: u_def)
next
  define u where "u = MakeDate (MakeDay (-271821) 3 (min 1 (getDaysInMonth (-271821) 3))) (TimeWithinDay (Date_UTC (-271821) 4 1))"
  have "getUTCFullYear (Date_UTC (-271821) 4 1) = -271821" "getUTCMonth (Date_UTC (-271821) 4 1) = 4" "getUTCDate (Date_UTC (-271821) 4 1) = 1"
    "in_range (Date_UTC (-271821) 4 1)" by code_simp+
  moreover have "\<not> in_range u" unfolding u_def by code_simp
  ultimately show "move_month (Some (Date_UTC (-271821) 4 1)) (-1) = Some None"
    by (subst move_month_spec [where y = "-271821" and m = 3 and t' = u]) (simp_all add: u_def)
qed

end
