(* ===== verification/Datepicker.thy ===== *)
theory Datepicker
  imports Date_Format Js_Regex
begin

text \<open>
  The widget of \<open>bootstrap-datepicker.js\<close>: options, state, rendering and every handler of
  \<open>Datepicker\<close>, and \<open>DateRangePicker\<close>. The DOM is what the code reads back from it: the
  value of the input, whether the picker is visible, the rendered cells with their classes,
  and the visibility of the arrows. Triggered events are logged. The clock and the time zone
  are arguments.
\<close>

record env = clock +
  tzOffset :: "date \<Rightarrow> int"

definition utc_to_local :: "env \<Rightarrow> date \<Rightarrow> date" where
  "utc_to_local E utc = utc + tzOffset E utc * 60000"

definition local_to_utc :: "env \<Rightarrow> date \<Rightarrow> date" where
  "local_to_utc E local = local - tzOffset E local * 60000"

text \<open>
  \<open>_local_to_utc(_zero_time(local))\<close>: the wall clock of a local date, its time dropped, read
  as a UTC date. (The two-digit years are those of the \<open>Date\<close> constructor.)
\<close>

definition zero_time_to_utc :: "env \<Rightarrow> date \<Rightarrow> date" where
  "zero_time_to_utc E local =
     (let wall = local_to_utc E local
      in Date_UTC (getUTCFullYear wall) (getUTCMonth wall) (Js_Date.getUTCDate wall))"

section \<open>Options\<close>

datatype before = BUndefined | BBool bool | BStr string
  | BObj "bool option" "string option" "string option"

datatype today_btn = TodayOff | TodayOn | TodayLinked

record options =
  o_startDate :: "date option"
  o_endDate :: "date option"
  o_weekStart :: int
  o_weekEnd :: int
  o_startView :: int
  o_minViewMode :: int
  o_daysOfWeekDisabled :: "int option list"
  o_format :: dformat
  o_locale :: locale_data
  o_autoclose :: bool
  o_todayBtn :: today_btn
  o_clearBtn :: bool
  o_todayHighlight :: bool
  o_calendarWeeks :: bool
  o_forceParse :: bool
  o_keyboardNavigation :: bool
  o_beforeShowDay :: "(date \<Rightarrow> before) option"
  o_orient_x :: string
  o_orient_y :: string

text \<open>
  \<open>o_startDate = None\<close> is \<open>-Infinity\<close>, \<open>o_endDate = None\<close> is \<open>Infinity\<close>; \<open>o_format\<close>
  is the parsed format, \<open>o_locale\<close> the entry of \<open>dates\<close> for the language. The raw options
  as the caller gives them:
\<close>

datatype view_opt = VNum int | VStr string
datatype date_opt = DFalsy | DInfinite | DDate date | DText string
datatype dow_opt = DowList "int option list" | DowText string

record raw_options =
  r_language :: string
  r_startView :: view_opt
  r_minViewMode :: view_opt
  r_weekStart :: int
  r_format :: string
  r_startDate :: date_opt
  r_endDate :: date_opt
  r_daysOfWeekDisabled :: dow_opt
  r_orientation :: string
  r_autoclose :: bool
  r_todayBtn :: today_btn
  r_clearBtn :: bool
  r_todayHighlight :: bool
  r_calendarWeeks :: bool
  r_forceParse :: bool
  r_keyboardNavigation :: bool
  r_beforeShowDay :: "(date \<Rightarrow> before) option"

text \<open>
  \<open>dates[lang]\<close>, then its part before the first dash, then the default language (which
  \<open>dates\<close> always has: the third argument).
\<close>

definition resolve_language :: "(string \<rightharpoonup> locale_data) \<Rightarrow> string \<Rightarrow> locale_data \<Rightarrow> locale_data" where
  "resolve_language dates lang fallback =
     (case dates lang of
        Some L \<Rightarrow> L
      | None \<Rightarrow> (case dates (takeWhile (\<lambda>c. c \<noteq> CHR ''-'') lang) of Some L \<Rightarrow> L | None \<Rightarrow> fallback))"

definition view_number :: "string \<Rightarrow> string \<Rightarrow> view_opt \<Rightarrow> int" where
  "view_number one two v =
     (if v = VNum 2 \<or> v = VStr two then 2 else if v = VNum 1 \<or> v = VStr one then 1 else 0)"

definition limit_date :: "env \<Rightarrow> locale_data \<Rightarrow> dformat \<Rightarrow> date_opt \<Rightarrow> date option" where
  "limit_date E L f d =
     (case d of
        DFalsy \<Rightarrow> None
      | DInfinite \<Rightarrow> None
      | DDate t \<Rightarrow> Some (zero_time_to_utc E t)
      | DText s \<Rightarrow> Some (parseDate L (clock.truncate E) f s))"

text \<open>\<open>s.split(/[,\s]*/)\<close>, whose pieces are single characters, read as numbers.\<close>

definition split_dow :: "string \<Rightarrow> int option list" where
  "split_dow s =
     (let sep = (\<lambda>c. c = CHR '','' \<or> is_js_space c)
      in if s = [] then []
         else (if sep (hd s) then [None] else []) @ map (\<lambda>c. js_parseInt [c]) (filter (\<lambda>c. \<not> sep c) s) @
              (if sep (last s) then [None] else []))"

text \<open>
  The alternatives \<open>^auto|left|right|top|bottom$\<close>, \<open>^left|right$\<close> and \<open>^top|bottom$\<close>: the
  anchors belong to the outer words only.
\<close>

definition process_orientation :: "string \<Rightarrow> string \<times> string" where
  "process_orientation orientation =
     (let lc = js_lower orientation;
          plc = filter (\<lambda>w. prefix ''auto'' w \<or> js_contains ''left'' w \<or> js_contains ''right'' w \<or>
                  js_contains ''top'' w \<or> suffix ''bottom'' w) (split_runs is_js_space lc)
      in if lc = [] \<or> lc = ''auto'' then (''auto'', ''auto'')
         else if length plc = 1
         then (if hd plc = ''top'' \<or> hd plc = ''bottom'' then (''auto'', hd plc)
               else if hd plc = ''left'' \<or> hd plc = ''right'' then (hd plc, ''auto'')
               else (''auto'', ''auto''))
         else (let xs = filter (\<lambda>w. prefix ''left'' w \<or> suffix ''right'' w) plc;
                   ys = filter (\<lambda>w. prefix ''top'' w \<or> suffix ''bottom'' w) plc
               in (case xs of [] \<Rightarrow> ''auto'' | x # _ \<Rightarrow> x, case ys of [] \<Rightarrow> ''auto'' | y # _ \<Rightarrow> y)))"

definition process_options :: "env \<Rightarrow> (string \<rightharpoonup> locale_data) \<Rightarrow> raw_options \<Rightarrow> options js" where
  "process_options E dates r =
     js_bind (parseFormat (r_format r)) (\<lambda>f.
       let L = resolve_language dates (r_language r) dates_en;
           minView = view_number ''months'' ''years'' (r_minViewMode r);
           weekStart = js_rem (r_weekStart r) 7;
           orient = process_orientation (r_orientation r)
       in Inr \<lparr>o_startDate = limit_date E L f (r_startDate r),
               o_endDate = limit_date E L f (r_endDate r),
               o_weekStart = weekStart, o_weekEnd = js_rem (weekStart + 6) 7,
               o_startView = max (view_number ''year'' ''decade'' (r_startView r)) minView,
               o_minViewMode = minView,
               o_daysOfWeekDisabled =
                 (case r_daysOfWeekDisabled r of DowList l \<Rightarrow> l | DowText s \<Rightarrow> split_dow s),
               o_format = f, o_locale = L, o_autoclose = r_autoclose r, o_todayBtn = r_todayBtn r,
               o_clearBtn = r_clearBtn r, o_todayHighlight = r_todayHighlight r,
               o_calendarWeeks = r_calendarWeeks r, o_forceParse = r_forceParse r,
               o_keyboardNavigation = r_keyboardNavigation r, o_beforeShowDay = r_beforeShowDay r,
               o_orient_x = fst orient, o_orient_y = snd orient\<rparr>)"

section \<open>State\<close>

record cell =
  c_open :: bool
  c_week :: "int option"
  c_classes :: "string set"
  c_title :: "string option"
  c_text :: int
  c_close :: bool

record year_cell =
  y_text :: int
  y_old :: bool
  y_new :: bool
  y_active :: bool
  y_disabled :: bool

record datepicker =
  dp_o :: options
  dp_isInput :: bool
  dp_component :: bool
  dp_hasInput :: bool
  dp_isInline :: bool
  dp_date :: date
  dp_viewDate :: date
  dp_viewMode :: int
  dp_allow_update :: bool
  dp_range :: "date list option"
  dp_visible :: bool
  dp_val :: string
  dp_dataDate :: string
  dp_title :: string
  dp_cells :: "cell list"
  dp_months :: "(bool \<times> bool) list"
  dp_years :: "year_cell list"
  dp_prev :: bool
  dp_next :: bool
  dp_events :: "(string \<times> date) list"

text \<open>
  \<open>dp_months\<close> has (active, disabled) per month; \<open>dp_dataDate\<close> is the element's
  \<open>data-date\<close>, empty when there is none.
\<close>

definition dp_trigger :: "string \<Rightarrow> date \<Rightarrow> datepicker \<Rightarrow> datepicker" where
  "dp_trigger event d dp = dp\<lparr>dp_events := dp_events dp @ [(event, d)]\<rparr>"

definition getFormattedDate :: "datepicker \<Rightarrow> string" where
  "getFormattedDate dp = formatDate (o_locale (dp_o dp)) (o_format (dp_o dp)) (dp_date dp)"

definition setValue :: "datepicker \<Rightarrow> datepicker" where
  "setValue dp =
     (let formatted = getFormattedDate dp
      in if \<not> dp_isInput dp
         then (if dp_component dp then (if dp_hasInput dp then dp\<lparr>dp_val := formatted\<rparr> else dp) else dp)
         else dp\<lparr>dp_val := formatted\<rparr>)"

definition dp_setUTCDate :: "date \<Rightarrow> datepicker \<Rightarrow> datepicker" where
  "dp_setUTCDate d dp = setValue (dp\<lparr>dp_date := d\<rparr>)"

definition dp_setDate :: "env \<Rightarrow> date \<Rightarrow> datepicker \<Rightarrow> datepicker" where
  "dp_setDate E d dp = dp_setUTCDate (local_to_utc E d) dp"

definition updateNavArrows :: "datepicker \<Rightarrow> datepicker" where
  "updateNavArrows dp =
     (if \<not> dp_allow_update dp then dp
      else (let o' = dp_o dp; year = getUTCFullYear (dp_viewDate dp); month = getUTCMonth (dp_viewDate dp);
                atStart = (case o_startDate o' of None \<Rightarrow> False
                           | Some s \<Rightarrow> year \<le> getUTCFullYear s \<and> (dp_viewMode dp = 0 \<longrightarrow> month \<le> getUTCMonth s));
                atEnd = (case o_endDate o' of None \<Rightarrow> False
                         | Some e \<Rightarrow> year \<ge> getUTCFullYear e \<and> (dp_viewMode dp = 0 \<longrightarrow> month \<ge> getUTCMonth e))
            in if dp_viewMode dp \<in> {0, 1, 2} then dp\<lparr>dp_prev := \<not> atStart, dp_next := \<not> atEnd\<rparr> else dp))"

section \<open>Rendering\<close>

definition before_start :: "options \<Rightarrow> date \<Rightarrow> bool" where
  "before_start o' d = (case o_startDate o' of None \<Rightarrow> False | Some s \<Rightarrow> d < s)"

definition after_end :: "options \<Rightarrow> date \<Rightarrow> bool" where
  "after_end o' d = (case o_endDate o' of None \<Rightarrow> False | Some e \<Rightarrow> d > e)"

definition getClassNames :: "env \<Rightarrow> datepicker \<Rightarrow> date \<Rightarrow> string list" where
  "getClassNames E dp date =
     (let o' = dp_o dp; year = getUTCFullYear (dp_viewDate dp); month = getUTCMonth (dp_viewDate dp);
          y = getUTCFullYear date; m = getUTCMonth date
      in (if y < year \<or> y = year \<and> m < month then [''old'']
          else if y > year \<or> y = year \<and> m > month then [''new''] else []) @
         (if o_todayHighlight o' \<and> y = localYear E \<and> m = localMonth E \<and> getUTCDate date = localDate E
          then [''today''] else []) @
         (if dp_date dp \<noteq> 0 \<and> date = dp_date dp then [''active''] else []) @
         (if before_start o' date \<or> after_end o' date \<or> Some (getUTCDay date) \<in> set (o_daysOfWeekDisabled o')
          then [''disabled''] else []) @
         (case dp_range dp of
            None \<Rightarrow> []
          | Some r \<Rightarrow> (if date > hd r \<and> date < last r then [''range''] else []) @
                      (if date \<in> set r then [''selected''] else [])))"

definition calWeek :: "int \<Rightarrow> date \<Rightarrow> int" where
  "calWeek weekStart d =
     (let ws = d + js_rem (weekStart - getUTCDay d - 7) 7 * msPerDay;
          th = ws + js_rem (7 + 4 - getUTCDay ws) 7 * msPerDay;
          y0 = Date_UTC (getUTCFullYear th) 0 1;
          yth = y0 + js_rem (7 + 4 - getUTCDay y0) 7 * msPerDay
      in (th - yth) div msPerDay div 7 + 1)"

definition grid_start :: "int \<Rightarrow> date \<Rightarrow> date" where
  "grid_start weekStart viewDate =
     (let p0 = Date_UTC (getUTCFullYear viewDate) (getUTCMonth viewDate - 1) 28;
          day = getDaysInMonth (getUTCFullYear p0) (getUTCMonth p0);
          p1 = setUTCDate day p0
      in setUTCDate (day - js_rem (getUTCDay p1 - weekStart + 7) 7) p1)"

function day_loop :: "date \<Rightarrow> date \<Rightarrow> date list" where
  "day_loop nextMonth d =
     (if d < nextMonth then d # day_loop nextMonth (setUTCDate (getUTCDate d + 1) d) else [])"
  by pat_completeness auto
termination
  by (relation "measure (\<lambda>(n, d). nat (n - d))") (simp_all add: setUTCDate_shift)

declare day_loop.simps [simp del]

definition grid :: "int \<Rightarrow> date \<Rightarrow> date list" where
  "grid weekStart viewDate =
     (let s = grid_start weekStart viewDate in day_loop (setUTCDate (getUTCDate s + 42) s) s)"

text \<open>
  One cell. The variable \<open>tooltip\<close> lives outside the loop, so it is threaded through the
  cells.
\<close>

definition before_obj :: "before \<Rightarrow> bool option \<times> string option \<times> string option" where
  "before_obj b =
     (case b of BUndefined \<Rightarrow> (None, None, None) | BBool e \<Rightarrow> (Some e, None, None)
      | BStr c \<Rightarrow> (None, Some c, None) | BObj e c t \<Rightarrow> (e, c, t))"

definition fill_cell :: "env \<Rightarrow> datepicker \<Rightarrow> string option \<Rightarrow> date \<Rightarrow> cell" where
  "fill_cell E dp tooltip d =
     (let o' = dp_o dp;
          cls = getClassNames E dp d @ [''day''];
          (en, extra, tip) = (case o_beforeShowDay o' of None \<Rightarrow> (None, None, None)
                              | Some f \<Rightarrow> before_obj (f (utc_to_local E d)));
          cls' = cls @ (if en = Some False then [''disabled''] else []) @
                 (case extra of None \<Rightarrow> [] | Some c \<Rightarrow> if c = [] then [] else split_runs is_js_space c);
          opens = (getUTCDay d = o_weekStart o')
      in \<lparr>c_open = opens, c_week = (if opens \<and> o_calendarWeeks o' then Some (calWeek (o_weekStart o') d) else None),
          c_classes = set cls',
          c_title = (case tip of None \<Rightarrow> tooltip | Some s \<Rightarrow> if s = [] then tooltip else Some s),
          c_text = getUTCDate d, c_close = (getUTCDay d = o_weekEnd o')\<rparr>)"

fun fill_cells :: "env \<Rightarrow> datepicker \<Rightarrow> string option \<Rightarrow> date list \<Rightarrow> cell list" where
  "fill_cells E dp tooltip [] = []"
| "fill_cells E dp tooltip (d # ds) =
     (let c = fill_cell E dp tooltip d in c # fill_cells E dp (c_title c) ds)"

definition fill_month :: "datepicker \<Rightarrow> int \<Rightarrow> bool \<times> bool" where
  "fill_month dp i =
     (let o' = dp_o dp; year = getUTCFullYear (dp_viewDate dp); cur = getUTCFullYear (dp_date dp)
      in (cur \<noteq> 0 \<and> cur = year \<and> i = getUTCMonth (dp_date dp),
          (case o_startDate o' of None \<Rightarrow> False
           | Some s \<Rightarrow> year < getUTCFullYear s \<or> year = getUTCFullYear s \<and> i < getUTCMonth s) \<or>
          (case o_endDate o' of None \<Rightarrow> False
           | Some e \<Rightarrow> year > getUTCFullYear e \<or> year = getUTCFullYear e \<and> i > getUTCMonth e)))"

definition decade :: "int \<Rightarrow> int" where
  "decade year = (if year < 0 then - ((- year) div 10) else year div 10) * 10"

definition fill_year :: "datepicker \<Rightarrow> int \<Rightarrow> year_cell" where
  "fill_year dp i =
     (let o' = dp_o dp; year = decade (getUTCFullYear (dp_viewDate dp)) + i
      in \<lparr>y_text = year, y_old = (i = -1), y_new = (i = 10),
          y_active = (getUTCFullYear (dp_date dp) = year),
          y_disabled = ((case o_startDate o' of None \<Rightarrow> False | Some s \<Rightarrow> year < getUTCFullYear s) \<or>
                        (case o_endDate o' of None \<Rightarrow> False | Some e \<Rightarrow> year > getUTCFullYear e))\<rparr>)"

definition fill :: "env \<Rightarrow> datepicker \<Rightarrow> datepicker" where
  "fill E dp =
     (let dp1 = updateNavArrows dp; v = dp_viewDate dp; L = o_locale (dp_o dp)
      in dp1\<lparr>dp_title := months L ! nat (getUTCMonth v) @ '' '' @ int_str (getUTCFullYear v),
             dp_cells := fill_cells E dp None (grid (o_weekStart (dp_o dp)) v),
             dp_months := map (fill_month dp) [0..11],
             dp_years := map (fill_year dp) [- 1..10]\<rparr>)"

text \<open>\<open>fillDow\<close>: the headings of the seven columns.\<close>

definition fillDow :: "options \<Rightarrow> string list" where
  "fillDow o' = (if o_calendarWeeks o' then [''&nbsp;''] else []) @
     map (\<lambda>dowCnt. daysMin (o_locale o') ! nat (js_rem dowCnt 7)) [o_weekStart o'..o_weekStart o' + 6]"

definition setRange :: "env \<Rightarrow> date list \<Rightarrow> datepicker \<Rightarrow> datepicker" where
  "setRange E r dp = fill E (dp\<lparr>dp_range := (if r = [] then None else Some r)\<rparr>)"

section \<open>Operations\<close>

datatype update_arg = UNone | UText string | UDate date

definition clamp_date :: "options \<Rightarrow> date \<Rightarrow> date" where
  "clamp_date o' d =
     (if before_start o' d then the (o_startDate o')
      else if after_end o' d then the (o_endDate o') else d)"

text \<open>\<open>update\<close>; the first argument is the time of the old date, \<open>None\<close> in the constructor.\<close>

definition update_from :: "env \<Rightarrow> date option \<Rightarrow> update_arg \<Rightarrow> datepicker \<Rightarrow> datepicker" where
  "update_from E oldDate arg dp =
     (if \<not> dp_allow_update dp then dp
      else (let parse = parseDate (o_locale (dp_o dp)) (clock.truncate E) (o_format (dp_o dp));
                typed = (if dp_isInput dp then dp_val dp
                         else if dp_dataDate dp \<noteq> [] then dp_dataDate dp else dp_val dp);
                dp1 = (case arg of
                         UDate d \<Rightarrow> setValue (dp\<lparr>dp_date := local_to_utc E d\<rparr>)
                       | UText s \<Rightarrow> setValue (dp\<lparr>dp_date := parse s\<rparr>)
                       | UNone \<Rightarrow>
                           (let d = parse typed; dp0 = dp\<lparr>dp_dataDate := [], dp_date := d\<rparr>
                            in if typed \<noteq> []
                               then (if oldDate \<noteq> Some d then dp_trigger ''changeDate'' d dp0 else dp0)
                               else dp_trigger ''clearDate'' d dp0));
                c = clamp_date (dp_o dp) (dp_date dp1)
            in fill E (dp1\<lparr>dp_viewDate := c, dp_date := c\<rparr>)))"

definition update :: "env \<Rightarrow> update_arg \<Rightarrow> datepicker \<Rightarrow> datepicker" where
  "update E arg dp = update_from E (Some (dp_date dp)) arg dp"

definition showMode :: "int \<Rightarrow> datepicker \<Rightarrow> datepicker" where
  "showMode dir dp =
     updateNavArrows
       (if dir \<noteq> 0 then dp\<lparr>dp_viewMode := max (o_minViewMode (dp_o dp)) (min 2 (dp_viewMode dp + dir))\<rparr>
        else dp)"

definition show_picker :: "datepicker \<Rightarrow> datepicker" where
  "show_picker dp = dp_trigger ''show'' (dp_date dp) (dp\<lparr>dp_visible := True\<rparr>)"

definition hide :: "datepicker \<Rightarrow> datepicker" where
  "hide dp =
     (if dp_isInline dp \<or> \<not> dp_visible dp then dp
      else (let dp1 = showMode 0 (dp\<lparr>dp_visible := False, dp_viewMode := o_startView (dp_o dp)\<rparr>);
                dp2 = (if o_forceParse (dp_o dp1) \<and>
                          (dp_isInput dp1 \<and> dp_val dp1 \<noteq> [] \<or> dp_hasInput dp1 \<and> dp_val dp1 \<noteq> [])
                       then setValue dp1 else dp1)
            in dp_trigger ''hide'' (dp_date dp2) dp2))"

text \<open>\<open>which\<close>: whether the date is set (\<open>'date'\<close> or none) and the view (\<open>'view'\<close> or none).\<close>

definition dp_set_date :: "env \<Rightarrow> bool \<Rightarrow> bool \<Rightarrow> date \<Rightarrow> datepicker \<Rightarrow> datepicker" where
  "dp_set_date E setDate setView date dp =
     (let dp1 = (if setDate then dp\<lparr>dp_date := date\<rparr> else dp);
          dp2 = (if setView then dp1\<lparr>dp_viewDate := date\<rparr> else dp1);
          dp3 = setValue (fill E dp2);
          dp4 = dp_trigger ''changeDate'' (dp_date dp3) dp3
      in if o_autoclose (dp_o dp4) \<and> setDate then hide dp4 else dp4)"

text \<open>
  The setters of options: the raw options with the new one are stored and processed again,
  and the picker is updated.
\<close>

definition reprocess ::
  "env \<Rightarrow> (string \<rightharpoonup> locale_data) \<Rightarrow> raw_options \<Rightarrow> datepicker \<Rightarrow> (raw_options \<times> datepicker) js" where
  "reprocess E dates raw dp =
     js_bind (process_options E dates raw)
       (\<lambda>o'. Inr (raw, updateNavArrows (update E UNone (dp\<lparr>dp_o := o'\<rparr>))))"

definition setStartDate ::
  "env \<Rightarrow> (string \<rightharpoonup> locale_data) \<Rightarrow> date_opt \<Rightarrow> raw_options \<Rightarrow> datepicker \<Rightarrow> (raw_options \<times> datepicker) js" where
  "setStartDate E dates d raw dp = reprocess E dates (raw\<lparr>r_startDate := d\<rparr>) dp"

definition setEndDate ::
  "env \<Rightarrow> (string \<rightharpoonup> locale_data) \<Rightarrow> date_opt \<Rightarrow> raw_options \<Rightarrow> datepicker \<Rightarrow> (raw_options \<times> datepicker) js" where
  "setEndDate E dates d raw dp = reprocess E dates (raw\<lparr>r_endDate := d\<rparr>) dp"

definition setDaysOfWeekDisabled ::
  "env \<Rightarrow> (string \<rightharpoonup> locale_data) \<Rightarrow> dow_opt \<Rightarrow> raw_options \<Rightarrow> datepicker \<Rightarrow> (raw_options \<times> datepicker) js" where
  "setDaysOfWeekDisabled E dates d raw dp = reprocess E dates (raw\<lparr>r_daysOfWeekDisabled := d\<rparr>) dp"

text \<open>
  A click in the picker: on a heading (switch, arrows, today, clear), on a month or a year,
  or on the cell at an index of the rendered table.
\<close>

datatype target = TSwitch | TPrev | TNext | TToday | TClear | TMonth nat | TYear nat | TDay nat

definition navStep :: "int \<Rightarrow> int" where
  "navStep viewMode = [1, 1, 10] ! nat viewMode"

definition click_nav :: "env \<Rightarrow> int \<Rightarrow> datepicker \<Rightarrow> datepicker" where
  "click_nav E way dp =
     (let dir = navStep (dp_viewMode dp) * way
      in fill E
           (if dp_viewMode dp = 0
            then (let v = moveMonth (dp_viewDate dp) dir in dp_trigger ''changeMonth'' v (dp\<lparr>dp_viewDate := v\<rparr>))
            else (let v = moveYear (dp_viewDate dp) dir; dp1 = dp\<lparr>dp_viewDate := v\<rparr>
                  in if dp_viewMode dp = 1 then dp_trigger ''changeYear'' v dp1 else dp1)))"

definition click_today :: "env \<Rightarrow> datepicker \<Rightarrow> datepicker" where
  "click_today E dp =
     (let date = Date_UTC (localYear E) (localMonth E) (localDate E)
      in dp_set_date E (o_todayBtn (dp_o dp) = TodayLinked) True date (showMode (- 2) dp))"

definition click_clear :: "env \<Rightarrow> datepicker \<Rightarrow> datepicker" where
  "click_clear E dp =
     (let dp1 = (if dp_isInput dp \<or> dp_component dp \<and> dp_hasInput dp then dp\<lparr>dp_val := []\<rparr> else dp);
          dp2 = update E UNone (dp_trigger ''changeDate'' (dp_date dp1) dp1)
      in if o_autoclose (dp_o dp2) then hide dp2 else dp2)"

definition click_month :: "env \<Rightarrow> nat \<Rightarrow> datepicker \<Rightarrow> datepicker" where
  "click_month E i dp =
     (if i < length (dp_months dp) \<and> \<not> snd (dp_months dp ! i)
      then (let v1 = setUTCDate 1 (dp_viewDate dp);
                year = getUTCFullYear v1;
                v2 = setUTCMonth (int i) v1;
                dp1 = dp_trigger ''changeMonth'' v2 (dp\<lparr>dp_viewDate := v2\<rparr>);
                dp2 = (if o_minViewMode (dp_o dp1) = 1
                       then dp_set_date E True True (Date_UTC year (int i) 1) dp1 else dp1)
            in fill E (showMode (- 1) dp2))
      else dp)"

definition click_year :: "env \<Rightarrow> nat \<Rightarrow> datepicker \<Rightarrow> datepicker" where
  "click_year E i dp =
     (if i < length (dp_years dp) \<and> \<not> y_disabled (dp_years dp ! i)
      then (let v1 = setUTCDate 1 (dp_viewDate dp);
                year = y_text (dp_years dp ! i);
                v2 = setUTCFullYear year v1;
                dp1 = dp_trigger ''changeYear'' v2 (dp\<lparr>dp_viewDate := v2\<rparr>);
                dp2 = (if o_minViewMode (dp_o dp1) = 2
                       then dp_set_date E True True (Date_UTC year 0 1) dp1 else dp1)
            in fill E (showMode (- 1) dp2))
      else dp)"

definition click_day :: "env \<Rightarrow> nat \<Rightarrow> datepicker \<Rightarrow> datepicker" where
  "click_day E i dp =
     (if i < length (dp_cells dp) \<and> ''day'' \<in> c_classes (dp_cells dp ! i) \<and>
         ''disabled'' \<notin> c_classes (dp_cells dp ! i)
      then (let c = dp_cells dp ! i;
                day = (if c_text c = 0 then 1 else c_text c);
                year = getUTCFullYear (dp_viewDate dp);
                month = getUTCMonth (dp_viewDate dp);
                (year, month) =
                  (if ''old'' \<in> c_classes c then (if month = 0 then (year - 1, 11) else (year, month - 1))
                   else if ''new'' \<in> c_classes c then (if month = 11 then (year + 1, 0) else (year, month + 1))
                   else (year, month))
            in dp_set_date E True True (Date_UTC year month day) dp)
      else dp)"

definition click :: "env \<Rightarrow> target \<Rightarrow> datepicker \<Rightarrow> datepicker" where
  "click E tgt dp =
     (case tgt of
        TSwitch \<Rightarrow> showMode 1 dp
      | TPrev \<Rightarrow> click_nav E (- 1) dp
      | TNext \<Rightarrow> click_nav E 1 dp
      | TToday \<Rightarrow> click_today E dp
      | TClear \<Rightarrow> click_clear E dp
      | TMonth i \<Rightarrow> click_month E i dp
      | TYear i \<Rightarrow> click_year E i dp
      | TDay i \<Rightarrow> click_day E i dp)"

definition dateWithinRange :: "options \<Rightarrow> date \<Rightarrow> bool" where
  "dateWithinRange o' d \<longleftrightarrow> \<not> before_start o' d \<and> \<not> after_end o' d"

text \<open>
  The arrow keys: \<open>dir\<close> is -1 or 1, \<open>step\<close> 1 day (left, right) or 7 (up, down).
\<close>

definition key_arrow :: "env \<Rightarrow> bool \<Rightarrow> bool \<Rightarrow> int \<Rightarrow> int \<Rightarrow> datepicker \<Rightarrow> datepicker" where
  "key_arrow E ctrl shift dir step dp =
     (if \<not> o_keyboardNavigation (dp_o dp) then dp
      else (let move = (if ctrl then (\<lambda>d. moveYear d dir) else if shift then (\<lambda>d. moveMonth d dir)
                        else (\<lambda>d. setUTCDate (Js_Date.getUTCDate d + dir * step) d));
                newDate = move (dp_date dp);
                newViewDate = move (dp_viewDate dp);
                dp1 = (if ctrl then dp_trigger ''changeYear'' (dp_viewDate dp) dp
                       else if shift then dp_trigger ''changeMonth'' (dp_viewDate dp) dp else dp)
            in if dateWithinRange (dp_o dp) newDate
               then (let dp2 = update E UNone (setValue (dp1\<lparr>dp_date := newDate, dp_viewDate := newViewDate\<rparr>))
                     in dp_trigger ''changeDate'' (dp_date dp2) dp2)
               else dp1))"

definition keydown :: "env \<Rightarrow> int \<Rightarrow> bool \<Rightarrow> bool \<Rightarrow> datepicker \<Rightarrow> datepicker" where
  "keydown E keyCode ctrl shift dp =
     (if \<not> dp_visible dp then (if keyCode = 27 then show_picker dp else dp)
      else if keyCode = 27 then hide dp
      else if keyCode = 37 \<or> keyCode = 39 then key_arrow E ctrl shift (if keyCode = 37 then -1 else 1) 1 dp
      else if keyCode = 38 \<or> keyCode = 40 then key_arrow E ctrl shift (if keyCode = 38 then -1 else 1) 7 dp
      else if keyCode = 13 \<or> keyCode = 9 then hide dp
      else dp)"

text \<open>The constructor, on an element of one of the kinds it tells apart.\<close>

definition new_Datepicker ::
  "env \<Rightarrow> (string \<rightharpoonup> locale_data) \<Rightarrow> raw_options \<Rightarrow> bool \<Rightarrow> bool \<Rightarrow> bool \<Rightarrow> bool \<Rightarrow> string \<Rightarrow> string \<Rightarrow>
   datepicker js" where
  "new_Datepicker E dates raw isInput component hasInput isDiv val dataDate =
     js_bind (process_options E dates raw) (\<lambda>o'.
       let inl = (\<not> isInput \<and> \<not> (component \<and> hasInput) \<and> isDiv);
           dp = \<lparr>dp_o = o', dp_isInput = isInput, dp_component = component, dp_hasInput = hasInput,
                 dp_isInline = inl, dp_date = 0, dp_viewDate = 0, dp_viewMode = o_startView o',
                 dp_allow_update = True, dp_range = None, dp_visible = False, dp_val = val,
                 dp_dataDate = dataDate, dp_title = [], dp_cells = [], dp_months = [], dp_years = [],
                 dp_prev = True, dp_next = True, dp_events = []\<rparr>;
           dp1 = showMode 0 (update_from E None UNone dp)
       in Inr (if inl then show_picker dp1 else dp1))"

section \<open>The calendar sheet\<close>

lemma day_loop_map: "day_loop (d + int n * msPerDay) d = map (\<lambda>i. d + int i * msPerDay) [0..<n]"
proof (induction n arbitrary: d)
  case (Suc n)
  have "0 < msPerDay + msPerDay * int n" by (simp add: msPerDay_def)
  then have "day_loop (d + int (Suc n) * msPerDay) d = d # day_loop (d + msPerDay + int n * msPerDay) (d + msPerDay)"
    using setUTCDate_shift [of d 1] by (simp add: day_loop.simps [of _ d] algebra_simps)
  also have "\<dots> = d # map (\<lambda>i. d + int (Suc i) * msPerDay) [0..<n]"
    unfolding Suc by (simp add: algebra_simps)
  finally show ?case by (simp add: map_upt_Suc del: upt_Suc)
qed (simp add: day_loop.simps)

text \<open>The first day of the month shown.\<close>

definition first_day :: "date \<Rightarrow> int" where
  "first_day v = MakeDay (getUTCFullYear v) (getUTCMonth v) 1"

definition two_digit_year :: "int \<Rightarrow> bool" where
  "two_digit_year y \<longleftrightarrow> 0 \<le> y \<and> y \<le> 99"

lemma Date_UTC_year: "\<not> two_digit_year y \<Longrightarrow> Date_UTC y m d = MakeDate (MakeDay y m d) 0"
  by (auto simp: Date_UTC_def two_digit_year_def)

lemma prev_month_end:
  fixes y m d :: int
  assumes "d \<le> 0" "- 27 \<le> d"
  defines "n \<equiv> 12 * y + m - 1"
  shows "civil (n div 12) (n mod 12) (DaysInMonth (n div 12) (n mod 12) + d)"
    "MakeDay (n div 12) (n mod 12) (DaysInMonth (n div 12) (n mod 12) + d) = MakeDay y m d"
proof -
  have r: "0 \<le> n mod 12" "n mod 12 < 12" by simp_all
  show "civil (n div 12) (n mod 12) (DaysInMonth (n div 12) (n mod 12) + d)"
    using DaysInMonth_bounds [OF r, of "n div 12"] assms(1,2) by (simp add: civil_def)
  have "MakeDay (n div 12) (n mod 12 + 1) d = MakeDay y m d"
    using MakeDay_carry [of 0 "n mod 12 + 1" "n div 12" d] MakeDay_carry [of 0 m y d]
    by (simp add: n_def algebra_simps)
  then show "MakeDay (n div 12) (n mod 12) (DaysInMonth (n div 12) (n mod 12) + d) = MakeDay y m d"
    using MakeDay_month_end [OF r, of "n div 12" d] by simp
qed

lemma getUTCDay_range: "0 \<le> getUTCDay t" "getUTCDay t < 7"
  by (simp_all add: getUTCDay_def)

lemma getUTCDay_shift: "getUTCDay (t + k * msPerDay) = (getUTCDay t + k) mod 7"
proof -
  have "Day (t + k * msPerDay) = Day t + k" by (simp add: Day_def msPerDay_def)
  then show ?thesis by (simp add: getUTCDay_def mod_add_left_eq) (simp add: ac_simps)
qed

lemma grid_start_spec:
  assumes "0 \<le> ws" "ws < 7" "\<not> two_digit_year (getUTCFullYear v)"
  shows "\<exists>r. 0 \<le> r \<and> r < 7 \<and> grid_start ws v = (first_day v - 1 - r) * msPerDay \<and>
    getUTCDay (grid_start ws v) = ws"
proof -
  define y m n where "y = getUTCFullYear v" and "m = getUTCMonth v" and "n = 12 * y + m - 1"
  let ?dim = "DaysInMonth (n div 12) (n mod 12)"
  define p0 where "p0 = Date_UTC y (m - 1) 28"
  have n: "n = (m - 1) + 12 * y" by (simp add: n_def)
  have "MakeDay y (m - 1) 28 = MakeDay (n div 12) (n mod 12) 28"
    unfolding n div_mult_self2 mod_mult_self2 using MakeDay_norm [of y "m - 1" 28] by simp
  then have p0: "Day p0 = MakeDay (n div 12) (n mod 12) 28" "TimeWithinDay p0 = 0"
    using assms(3) by (simp_all add: p0_def Date_UTC_year y_def)
  have "civil (n div 12) (n mod 12) 28"
    using DaysInMonth_bounds [of "n mod 12" "n div 12"] by (simp add: civil_def)
  note g0 = getters_civil [OF p0(1) this]
  define p1 where "p1 = setUTCDate ?dim p0"
  have p1: "Day p1 = MakeDay (n div 12) (n mod 12) ?dim" "TimeWithinDay p1 = 0"
    by (simp_all add: p1_def g0 p0)
  have "civil (n div 12) (n mod 12) ?dim" using prev_month_end(1) [of 0 y m] by (simp add: n_def)
  note g1 = getters_civil [OF p1(1) this]
  define r where "r = (getUTCDay p1 - ws) mod 7"
  have "js_rem (getUTCDay p1 - ws + 7) 7 = r"
    using getUTCDay_range [of p1] assms(2) by (simp add: r_def)
  then have gs: "grid_start ws v = setUTCDate (?dim - r) p1"
    by (simp add: grid_start_def Let_def y_def [symmetric] m_def [symmetric] p0_def [symmetric] g0
        getDaysInMonth_DaysInMonth p1_def [symmetric])
  have last: "Day p1 = first_day v - 1"
    using prev_month_end(2) [of 0 y m] MakeDay_shift [of y m 0 1]
    by (simp add: p1(1) n_def first_day_def y_def [symmetric] m_def [symmetric])
  have "Day (grid_start ws v) = Day p1 - r"
    using MakeDay_shift [of "n div 12" "n mod 12" ?dim "- r"] by (simp add: gs g1 p1(1))
  then have D: "Day (grid_start ws v) = first_day v - 1 - r" by (simp add: last)
  have "TimeWithinDay (grid_start ws v) = 0" by (simp add: gs p1)
  then have "grid_start ws v = (first_day v - 1 - r) * msPerDay"
    using MakeDate_join [of "grid_start ws v"] D by (simp add: MakeDate_def)
  moreover have "getUTCDay (grid_start ws v) = (getUTCDay p1 - r) mod 7"
    by (simp add: getUTCDay_def D last mod_diff_left_eq algebra_simps)
  then have "getUTCDay (grid_start ws v) = ws"
    using assms(1,2) by (simp add: r_def mod_diff_right_eq)
  ultimately show ?thesis by (intro exI [of _ r]) (simp add: r_def)
qed

lemma grid_map:
  "grid ws v = map (\<lambda>i. grid_start ws v + int i * msPerDay) [0..<42]"
  using day_loop_map [of "grid_start ws v" 42] setUTCDate_shift [of "grid_start ws v" 42]
  by (simp add: grid_def Let_def)

text \<open>
  C15: the sheet the picker shows has 42 consecutive days, six weeks that start on the
  configured day of the week. It begins before the first of the month shown and contains
  every day of that month. (Years 0 to 99 are excluded: see below.)
\<close>

theorem grid_shows_month:
  assumes "0 \<le> ws" "ws < 7" "\<not> two_digit_year (getUTCFullYear v)"
  shows "length (grid ws v) = 42 \<and>
    (\<forall>i<42. grid ws v ! i = grid ws v ! 0 + int i * msPerDay \<and>
       getUTCDay (grid ws v ! i) = (ws + int i) mod 7) \<and>
    grid ws v ! 0 < MakeDate (first_day v) 0 \<and>
    (\<forall>d. civil (getUTCFullYear v) (getUTCMonth v) d \<longrightarrow>
       MakeDate (MakeDay (getUTCFullYear v) (getUTCMonth v) d) 0 \<in> set (grid ws v))"
proof -
  obtain r where r: "0 \<le> r" "r < 7" "grid_start ws v = (first_day v - 1 - r) * msPerDay"
      "getUTCDay (grid_start ws v) = ws" using grid_start_spec [OF assms] by blast
  have nth: "grid ws v ! i = grid_start ws v + int i * msPerDay" if "i < 42" for i
    using that by (simp add: grid_map del: upt_conv_Cons)
  have "getUTCDay (grid_start ws v + k * msPerDay) = (ws + k) mod 7" for k
    using getUTCDay_shift [of "grid_start ws v" k] r(4) by simp
  then have days: "\<forall>i<42. grid ws v ! i = grid ws v ! 0 + int i * msPerDay \<and>
       getUTCDay (grid ws v ! i) = (ws + int i) mod 7" by (simp add: nth)
  have mem: "MakeDate (MakeDay (getUTCFullYear v) (getUTCMonth v) d) 0 \<in> set (grid ws v)"
    if "civil (getUTCFullYear v) (getUTCMonth v) d" for d
  proof -
    let ?i = "nat (d + r)"
    have "0 \<le> d + r" "d + r < 42"
      using that r DaysInMonth_bounds [of "getUTCMonth v" "getUTCFullYear v"] by (auto simp: civil_def)
    moreover have "MakeDate (MakeDay (getUTCFullYear v) (getUTCMonth v) d) 0 = grid_start ws v + (d + r) * msPerDay"
    proof -
      have "MakeDay (getUTCFullYear v) (getUTCMonth v) d = (first_day v - 1 - r) + (d + r)"
        using MakeDay_shift [of "getUTCFullYear v" "getUTCMonth v" 1 "d - 1"] by (simp add: first_day_def)
      then show ?thesis unfolding r(3) MakeDate_def by (simp only: distrib_right add_0_right)
    qed
    ultimately show ?thesis using nth [of ?i] nth_mem [of ?i "grid ws v"] by (simp add: grid_map)
  qed
  have "grid ws v ! 0 < MakeDate (first_day v) 0"
    using r nth [of 0] by (simp add: MakeDate_def msPerDay_def)
  with days mem show ?thesis by (simp add: grid_map)
qed

theorem grid_shows_month_witness:
  "MakeDate (MakeDay 2024 1 29) 0 \<in> set (grid 1 1707523200000)"
proof -
  have "0 \<le> (1::int)" "(1::int) < 7" "\<not> two_digit_year (getUTCFullYear 1707523200000)"
    "getUTCFullYear 1707523200000 = 2024" "getUTCMonth 1707523200000 = 1" "civil 2024 1 29"
    by code_simp+
  then show ?thesis using grid_shows_month [of 1 1707523200000] by metis
qed



section \<open>Frames\<close>

lemma updateNavArrows_frame [simp]:
  "dp_o (updateNavArrows dp) = dp_o dp" "dp_date (updateNavArrows dp) = dp_date dp"
  "dp_viewDate (updateNavArrows dp) = dp_viewDate dp" "dp_viewMode (updateNavArrows dp) = dp_viewMode dp"
  "dp_allow_update (updateNavArrows dp) = dp_allow_update dp" "dp_val (updateNavArrows dp) = dp_val dp"
  "dp_isInput (updateNavArrows dp) = dp_isInput dp" "dp_visible (updateNavArrows dp) = dp_visible dp"
  "dp_cells (updateNavArrows dp) = dp_cells dp"
  by (simp_all add: updateNavArrows_def Let_def)

lemma fill_frame [simp]:
  "dp_o (fill E dp) = dp_o dp" "dp_date (fill E dp) = dp_date dp"
  "dp_viewDate (fill E dp) = dp_viewDate dp" "dp_viewMode (fill E dp) = dp_viewMode dp"
  "dp_allow_update (fill E dp) = dp_allow_update dp" "dp_val (fill E dp) = dp_val dp"
  "dp_isInput (fill E dp) = dp_isInput dp" "dp_visible (fill E dp) = dp_visible dp"
  by (simp_all add: fill_def Let_def)

lemma setValue_frame [simp]:
  "dp_o (setValue dp) = dp_o dp" "dp_date (setValue dp) = dp_date dp"
  "dp_viewDate (setValue dp) = dp_viewDate dp" "dp_viewMode (setValue dp) = dp_viewMode dp"
  "dp_allow_update (setValue dp) = dp_allow_update dp" "dp_isInput (setValue dp) = dp_isInput dp"
  by (simp_all add: setValue_def Let_def)

lemma trigger_frame [simp]:
  "dp_o (dp_trigger e d dp) = dp_o dp" "dp_date (dp_trigger e d dp) = dp_date dp"
  "dp_viewDate (dp_trigger e d dp) = dp_viewDate dp" "dp_viewMode (dp_trigger e d dp) = dp_viewMode dp"
  "dp_allow_update (dp_trigger e d dp) = dp_allow_update dp" "dp_val (dp_trigger e d dp) = dp_val dp"
  "dp_isInput (dp_trigger e d dp) = dp_isInput dp"
  by (simp_all add: dp_trigger_def)

lemma showMode_frame [simp]:
  "dp_o (showMode k dp) = dp_o dp" "dp_date (showMode k dp) = dp_date dp"
  "dp_viewDate (showMode k dp) = dp_viewDate dp" "dp_allow_update (showMode k dp) = dp_allow_update dp"
  by (simp_all add: showMode_def)

lemma hide_frame [simp]:
  "dp_o (hide dp) = dp_o dp" "dp_date (hide dp) = dp_date dp" "dp_viewDate (hide dp) = dp_viewDate dp"
  "dp_allow_update (hide dp) = dp_allow_update dp"
  by (simp_all add: hide_def Let_def)

lemma set_date_frame [simp]:
  "dp_o (dp_set_date E a b d dp) = dp_o dp"
  "dp_date (dp_set_date E a b d dp) = (if a then d else dp_date dp)"
  "dp_viewDate (dp_set_date E a b d dp) = (if b then d else dp_viewDate dp)"
  by (simp_all add: dp_set_date_def Let_def)

section \<open>Choosing a day\<close>

lemma fill_cells_length [simp]: "length (fill_cells E dp tip ds) = length ds"
  by (induction E dp tip ds rule: fill_cells.induct) (auto simp: Let_def)

lemma fill_cells_nth:
  "i < length ds \<Longrightarrow> \<exists>tip'. fill_cells E dp tip ds ! i = fill_cell E dp tip' (ds ! i)"
proof (induction ds arbitrary: i tip)
  case (Cons d ds)
  then show ?case by (cases i) (auto simp: Let_def)
qed simp

lemma cell_classes:
  assumes "o_beforeShowDay (dp_o dp) = None"
  shows "c_classes (fill_cell E dp tip d) = insert ''day'' (set (getClassNames E dp d))"
    "c_text (fill_cell E dp tip d) = getUTCDate d"
  using assms by (auto simp: fill_cell_def Let_def)

lemma class_old_new:
  fixes dp :: datepicker and d :: date
  defines "n \<equiv> 12 * getUTCFullYear (dp_viewDate dp) + getUTCMonth (dp_viewDate dp)"
    and "k \<equiv> 12 * getUTCFullYear d + getUTCMonth d"
  shows "''old'' \<in> set (getClassNames E dp d) \<longleftrightarrow> k < n" "''new'' \<in> set (getClassNames E dp d) \<longleftrightarrow> n < k"
    "''disabled'' \<notin> set (getClassNames E dp d) \<Longrightarrow> dateWithinRange (dp_o dp) d"
proof -
  have r: "0 \<le> getUTCMonth d" "getUTCMonth d < 12" "0 \<le> getUTCMonth (dp_viewDate dp)"
    "getUTCMonth (dp_viewDate dp) < 12" using date_range by auto
  show "''old'' \<in> set (getClassNames E dp d) \<longleftrightarrow> k < n"
    using r by (auto simp: getClassNames_def Let_def n_def k_def split: option.splits)
  show "''new'' \<in> set (getClassNames E dp d) \<longleftrightarrow> n < k"
    using r by (auto simp: getClassNames_def Let_def n_def k_def split: option.splits)
  show "''disabled'' \<notin> set (getClassNames E dp d) \<Longrightarrow> dateWithinRange (dp_o dp) d"
    by (auto simp: getClassNames_def Let_def dateWithinRange_def split: if_splits)
qed

text \<open>Every day of the sheet lies in the month shown or in one of its neighbours.\<close>

lemma grid_month:
  assumes "0 \<le> ws" "ws < 7" "\<not> two_digit_year (getUTCFullYear v)" "i < 42"
  defines "n \<equiv> 12 * getUTCFullYear v + getUTCMonth v" and "t \<equiv> grid ws v ! i"
  shows "TimeWithinDay t = 0" "12 * getUTCFullYear t + getUTCMonth t \<in> {n - 1, n, n + 1}"
proof -
  let ?y = "getUTCFullYear v" and ?m = "getUTCMonth v"
  obtain r where r: "0 \<le> r" "r < 7" "grid_start ws v = (first_day v - 1 - r) * msPerDay"
    using grid_start_spec [OF assms(1-3)] by blast
  define k where "k = int i - r"
  have k: "- 7 < k" "k < 42" using assms(4) r by (auto simp: k_def)
  have "t = grid_start ws v + int i * msPerDay" using assms(4) by (simp add: t_def grid_map del: upt_conv_Cons)
  also have "\<dots> = MakeDate (first_day v - 1 + k) 0"
    unfolding r(3) MakeDate_def k_def by (simp add: algebra_simps)
  finally have t: "t = MakeDate (first_day v - 1 + k) 0" .
  then show "TimeWithinDay t = 0" by simp
  have D: "Day t = MakeDay ?y ?m k"
    using MakeDay_shift [of ?y ?m 1 "k - 1"] by (simp add: t first_day_def)
  have m: "0 \<le> ?m" "?m < 12" by (rule date_range)+
  note dim = DaysInMonth_bounds [OF m, of ?y]
  consider "k \<le> 0" | "1 \<le> k" "k \<le> DaysInMonth ?y ?m" | "DaysInMonth ?y ?m < k" by linarith
  then show "12 * getUTCFullYear t + getUTCMonth t \<in> {n - 1, n, n + 1}"
  proof cases
    case 1
    then have "- 27 \<le> k" using k by simp
    note p = prev_month_end [OF 1 this, of ?y ?m]
    show ?thesis using getters_civil [OF _ p(1), of t] D p(2) by (simp add: n_def)
  next
    case 2
    then have "civil ?y ?m k" using m by (simp add: civil_def)
    then show ?thesis using getters_civil [OF D] by (simp add: n_def)
  next
    case 3
    let ?d = "k - DaysInMonth ?y ?m" and ?n = "n + 1"
    have "MakeDay ?y ?m k = MakeDay ?y (?m + 1) ?d"
      using MakeDay_month_end [OF m, of ?y ?d] by simp
    also have "\<dots> = MakeDay (?n div 12) (?n mod 12) ?d"
      using MakeDay_carry [of 0 "?n mod 12" "?n div 12" ?d] MakeDay_carry [of 0 "?m + 1" ?y ?d]
      by (simp add: n_def algebra_simps)
    finally have "Day t = MakeDay (?n div 12) (?n mod 12) ?d" using D by simp
    moreover have "civil (?n div 12) (?n mod 12) ?d"
      using 3 k dim DaysInMonth_bounds [of "?n mod 12" "?n div 12"] by (simp add: civil_def)
    ultimately show ?thesis using getters_civil [of t "?n div 12" "?n mod 12" ?d] by simp
  qed
qed

lemma neighbour_month:
  fixes y m y' m' :: int
  assumes "0 \<le> m" "m < 12" "0 \<le> m'" "m' < 12"
  shows "12 * y' + m' = 12 * y + m - 1 \<Longrightarrow> (if m = 0 then (y - 1, 11) else (y, m - 1)) = (y', m')"
    "12 * y' + m' = 12 * y + m + 1 \<Longrightarrow> (if m = 11 then (y + 1, 0) else (y, m + 1)) = (y', m')"
    "12 * y' + m' = 12 * y + m \<Longrightarrow> (y, m) = (y', m')"
  using assms month_number_inj [of "y - 1" 11 y' m'] month_number_inj [of y "m - 1" y' m']
    month_number_inj [of "y + 1" 0 y' m'] month_number_inj [of y "m + 1" y' m']
    month_number_inj [of y m y' m'] by auto

text \<open>
  a click on an enabled cell of the rendered sheet selects exactly the day the cell was
  rendered for, also when that day belongs to the month before or after; the view follows,
  and the day lies within the allowed range. (Years up to 100 are excluded: see below.)
\<close>

lemma click_selects_day:
  assumes "0 \<le> o_weekStart (dp_o dp)" "o_weekStart (dp_o dp) < 7" "100 < getUTCFullYear (dp_viewDate dp)"
    "o_beforeShowDay (dp_o dp) = None" "i < 42"
    "''disabled'' \<notin> c_classes (dp_cells (fill E dp) ! i)"
  shows "let dp' = click E (TDay i) (fill E dp); d = grid (o_weekStart (dp_o dp)) (dp_viewDate dp) ! i
    in dp_date dp' = d \<and> dp_viewDate dp' = d \<and> dateWithinRange (dp_o dp') d"
proof -
  let ?v = "dp_viewDate dp" and ?g = "grid (o_weekStart (dp_o dp)) (dp_viewDate dp)"
  define y m where "y = getUTCFullYear ?v" and "m = getUTCMonth ?v"
  define d where "d = ?g ! i"
  have ntd: "\<not> two_digit_year (getUTCFullYear ?v)" using assms(3) by (simp add: two_digit_year_def)
  have len: "length ?g = 42" by (simp add: grid_map)
  note gm = grid_month [OF assms(1,2) ntd assms(5), folded d_def]
  have cells: "dp_cells (fill E dp) = fill_cells E dp None ?g" by (simp add: fill_def Let_def)
  obtain tip where c: "dp_cells (fill E dp) ! i = fill_cell E dp tip d"
    using fill_cells_nth [of i ?g E dp None] assms(5) len unfolding cells d_def by auto
  note cls = cell_classes [OF assms(4), of E tip d]
  have m: "0 \<le> m" "m < 12" unfolding m_def by (rule date_range)+
  let ?y' = "getUTCFullYear d" and ?m' = "getUTCMonth d"
  have r: "0 \<le> ?m'" "?m' < 12" "1 \<le> getUTCDate d" by (rule date_range)+
  have pick: "(if ''old'' \<in> c_classes (fill_cell E dp tip d) then (if m = 0 then (y - 1, 11) else (y, m - 1))
      else if ''new'' \<in> c_classes (fill_cell E dp tip d) then (if m = 11 then (y + 1, 0) else (y, m + 1))
      else (y, m)) = (?y', ?m')"
    using class_old_new(1,2) [of E dp d] gm(2) neighbour_month [OF m r(1,2), of "getUTCFullYear d" y]
    unfolding cls(1) y_def [symmetric] m_def [symmetric] by auto
  have "?y' > 99" using gm(2) r m assms(3) unfolding y_def [symmetric] m_def [symmetric] by auto
  then have "Date_UTC ?y' ?m' (getUTCDate d) = MakeDate (Day d) 0"
    by (simp add: Date_UTC_year two_digit_year_def Day_getters)
  also have "\<dots> = d" using MakeDate_join [of d] gm(1) by simp
  finally have date: "Date_UTC ?y' ?m' (getUTCDate d) = d" .
  have "click E (TDay i) (fill E dp) = dp_set_date E True True d (fill E dp)"
  proof -
    have "i < length (dp_cells (fill E dp)) \<and> ''day'' \<in> c_classes (dp_cells (fill E dp) ! i) \<and>
        ''disabled'' \<notin> c_classes (dp_cells (fill E dp) ! i)"
      using assms(5,6) len unfolding c by (simp add: cells cls(1))
    note enabled = this
    show ?thesis
      unfolding click_def click_day_def target.case Let_def fill_frame y_def [symmetric] m_def [symmetric]
      using r(3) date by (subst if_P [OF enabled]) (simp only: c pick cls(2) case_prod_conv, simp)
  qed
  moreover have "dateWithinRange (dp_o dp) d"
    using assms(6) class_old_new(3) [of E dp d] unfolding c cls(1) by simp
  ultimately show ?thesis by (simp add: Let_def d_def)
qed

section \<open>A picker to evaluate\<close>

definition defaults :: raw_options where
  "defaults =
     \<lparr>r_language = ''en'', r_startView = VNum 0, r_minViewMode = VNum 0, r_weekStart = 0,
      r_format = ''mm/dd/yyyy'', r_startDate = DInfinite, r_endDate = DInfinite,
      r_daysOfWeekDisabled = DowList [], r_orientation = ''auto'', r_autoclose = False,
      r_todayBtn = TodayOff, r_clearBtn = False, r_todayHighlight = False, r_calendarWeeks = False,
      r_forceParse = True, r_keyboardNavigation = True, r_beforeShowDay = None\<rparr>"

definition sample_env :: env where
  "sample_env = \<lparr>now = 1718500000000, localYear = 2024, localMonth = 5, localDate = 16,
     tzOffset = (\<lambda>_. 0)\<rparr>"

text \<open>A visible text input with the default options, between two dates, that shows a date.\<close>

definition sample_options :: "date option \<Rightarrow> date option \<Rightarrow> options" where
  "sample_options s e =
     \<lparr>o_startDate = s, o_endDate = e, o_weekStart = 0, o_weekEnd = 6, o_startView = 0,
      o_minViewMode = 0, o_daysOfWeekDisabled = [],
      o_format = \<lparr>separators = [[], ''/'', ''/'', []], parts = [P_mm, P_dd, P_yyyy]\<rparr>,
      o_locale = dates_en, o_autoclose = False, o_todayBtn = TodayLinked, o_clearBtn = False,
      o_todayHighlight = False, o_calendarWeeks = False, o_forceParse = True,
      o_keyboardNavigation = True, o_beforeShowDay = None, o_orient_x = ''auto'',
      o_orient_y = ''auto''\<rparr>"

definition sample_picker :: "date option \<Rightarrow> date option \<Rightarrow> date \<Rightarrow> datepicker" where
  "sample_picker s e d =
     \<lparr>dp_o = sample_options s e, dp_isInput = True, dp_component = False, dp_hasInput = False,
      dp_isInline = False, dp_date = d, dp_viewDate = d, dp_viewMode = 0, dp_allow_update = True,
      dp_range = None, dp_visible = True, dp_val = [], dp_dataDate = [], dp_title = [],
      dp_cells = [], dp_months = [], dp_years = [], dp_prev = True, dp_next = True, dp_events = []\<rparr>"

lemma sample_options_process:
  "process_options sample_env (\<lambda>l. None) (defaults\<lparr>r_todayBtn := TodayLinked\<rparr>) =
     Inr (sample_options None None)"
proof -
  have "parseFormat ''mm/dd/yyyy'' = Inr \<lparr>separators = [[], ''/'', ''/'', []], parts = [P_mm, P_dd, P_yyyy]\<rparr>"
    "process_orientation ''auto'' = (''auto'', ''auto'')" by code_simp+
  then show ?thesis
    by (simp add: process_options_def defaults_def sample_options_def Let_def resolve_language_def
        view_number_def limit_date_def)
qed

section \<open>The allowed range\<close>

definition range_ok :: "options \<Rightarrow> bool" where
  "range_ok o' = (case (o_startDate o', o_endDate o') of (Some s, Some e) \<Rightarrow> s \<le> e | _ \<Rightarrow> True)"

lemma clamp_within: "range_ok o' \<Longrightarrow> dateWithinRange o' (clamp_date o' d)"
  by (auto simp: range_ok_def dateWithinRange_def clamp_date_def before_start_def after_end_def
      split: option.splits)

lemma clamp_id: "dateWithinRange o' d \<Longrightarrow> clamp_date o' d = d"
  by (auto simp: dateWithinRange_def clamp_date_def)

lemma update_spec:
  "dp_allow_update dp \<Longrightarrow>
   \<exists>d. dp_date (update_from E old arg dp) = clamp_date (dp_o dp) d \<and>
       dp_viewDate (update_from E old arg dp) = clamp_date (dp_o dp) d \<and>
       (arg = UNone \<and> dp_isInput dp \<longrightarrow>
          d = parseDate (o_locale (dp_o dp)) (clock.truncate E) (o_format (dp_o dp)) (dp_val dp) \<and>
          dp_val (update_from E old arg dp) = dp_val dp)"
  by (cases arg) (auto simp: update_from_def Let_def)

text \<open>
  after every \<open>update\<close>, whether by typing, from an argument or by a date object, the
  picker's date lies between the start date and the end date, and the sheet shows it.
\<close>

lemma update_within_range:
  assumes "dp_allow_update dp" "range_ok (dp_o dp)"
  shows "dateWithinRange (dp_o dp) (dp_date (update E arg dp)) \<and>
    dp_viewDate (update E arg dp) = dp_date (update E arg dp)"
  using update_spec [OF assms(1), of E "Some (dp_date dp)" arg] clamp_within [OF assms(2)]
  by (auto simp: update_def)

text \<open>What an arrow key does to a date.\<close>

definition arrow_move :: "int \<Rightarrow> bool \<Rightarrow> bool \<Rightarrow> date \<Rightarrow> date" where
  "arrow_move keyCode ctrl shift d =
     (let dir = (if keyCode = 37 \<or> keyCode = 38 then -1 else 1)
      in if ctrl then moveMonth d (12 * dir) else if shift then moveMonth d dir
         else d + dir * (if keyCode = 37 \<or> keyCode = 39 then 1 else 7) * msPerDay)"

lemma key_arrow_spec:
  fixes dp :: datepicker and dir step :: int and ctrl shift :: bool
  defines "new \<equiv> (if ctrl then moveYear (dp_date dp) dir else if shift then moveMonth (dp_date dp) dir
      else setUTCDate (getUTCDate (dp_date dp) + dir * step) (dp_date dp))"
  assumes "o_keyboardNavigation (dp_o dp)" "dp_isInput dp" "dp_allow_update dp"
    "o_locale (dp_o dp) = dates_en" "good_format (o_format (dp_o dp))"
    "TimeWithinDay new = 0" "0 \<le> getUTCFullYear new" "getUTCFullYear new \<le> 275000"
  shows "if dateWithinRange (dp_o dp) new
    then dp_date (key_arrow E ctrl shift dir step dp) = new \<and>
         dp_viewDate (key_arrow E ctrl shift dir step dp) = new \<and>
         dp_val (key_arrow E ctrl shift dir step dp) = formatDate dates_en (o_format (dp_o dp)) new
    else dp_date (key_arrow E ctrl shift dir step dp) = dp_date dp \<and>
         dp_viewDate (key_arrow E ctrl shift dir step dp) = dp_viewDate dp \<and>
         dp_val (key_arrow E ctrl shift dir step dp) = dp_val dp"
proof (cases "dateWithinRange (dp_o dp) new")
  case True
  let ?text = "formatDate dates_en (o_format (dp_o dp)) new"
  define dp1 where "dp1 = (if ctrl then dp_trigger ''changeYear'' (dp_viewDate dp) dp
     else if shift then dp_trigger ''changeMonth'' (dp_viewDate dp) dp else dp)"
  define nv where "nv = (if ctrl then (\<lambda>d. moveYear d dir) else if shift then (\<lambda>d. moveMonth d dir)
     else (\<lambda>d. setUTCDate (getUTCDate d + dir * step) d)) (dp_viewDate dp)"
  define dp2 where "dp2 = setValue (dp1\<lparr>dp_date := new, dp_viewDate := nv\<rparr>)"
  have dp1: "dp_o dp1 = dp_o dp" "dp_isInput dp1" "dp_allow_update dp1" using assms by (simp_all add: dp1_def)
  have dp2: "dp_o dp2 = dp_o dp" "dp_isInput dp2" "dp_allow_update dp2" "dp_val dp2 = ?text"
    using dp1 assms(5) by (simp_all add: dp2_def setValue_def Let_def getFormattedDate_def)
  have "parseDate dates_en (clock.truncate E) (o_format (dp_o dp)) ?text = new"
    using assms(6-9) by (rule format_parse_roundtrip)
  then have u: "dp_date (update E UNone dp2) = new" "dp_viewDate (update E UNone dp2) = new"
      "dp_val (update E UNone dp2) = ?text"
    using update_spec [OF dp2(3), of E "Some (dp_date dp2)" UNone] dp2 assms(5) clamp_id [OF True]
    by (auto simp: update_def)
  have "key_arrow E ctrl shift dir step dp =
      dp_trigger ''changeDate'' (dp_date (update E UNone dp2)) (update E UNone dp2)"
    using assms(2) True unfolding new_def
    by (cases ctrl; cases shift) (simp_all add: key_arrow_def Let_def dp2_def nv_def dp1_def new_def)
  then show ?thesis using True u by simp
next
  case False
  then show ?thesis using assms(2) unfolding new_def
    by (cases ctrl; cases shift) (simp_all add: key_arrow_def Let_def)
qed

lemma arrow_move_cases:
  assumes "keyCode \<in> {37, 38, 39, 40}"
  shows "arrow_move keyCode ctrl shift d =
    (let dir = (if keyCode = 37 \<or> keyCode = 38 then -1 else 1); step = (if keyCode = 37 \<or> keyCode = 39 then 1 else 7)
     in if ctrl then moveYear d dir else if shift then moveMonth d dir
        else setUTCDate (getUTCDate d + dir * step) d)"
  by (simp add: arrow_move_def moveYear_def Let_def setUTCDate_shift mult.commute)

text \<open>
  in an open picker on a text input an arrow key moves the date by a day or a week, with
  shift by a month, with control by a year, clamped to the month's end; the input then shows
  the new date and the sheet too. A key that would leave the allowed range changes neither
  the date nor the input.
\<close>

lemma keydown_moves:
  assumes "keyCode \<in> {37, 38, 39, 40}" "dp_visible dp" "o_keyboardNavigation (dp_o dp)" "dp_isInput dp"
    "dp_allow_update dp" "o_locale (dp_o dp) = dates_en" "good_format (o_format (dp_o dp))"
    "TimeWithinDay (dp_date dp) = 0" "0 \<le> getUTCFullYear (arrow_move keyCode ctrl shift (dp_date dp))"
    "getUTCFullYear (arrow_move keyCode ctrl shift (dp_date dp)) \<le> 275000"
  shows "let new = arrow_move keyCode ctrl shift (dp_date dp); dp' = keydown E keyCode ctrl shift dp
    in if dateWithinRange (dp_o dp) new
       then dp_date dp' = new \<and> dp_viewDate dp' = new \<and>
            dp_val dp' = formatDate dates_en (o_format (dp_o dp)) new
       else dp_date dp' = dp_date dp \<and> dp_viewDate dp' = dp_viewDate dp \<and> dp_val dp' = dp_val dp"
proof -
  define dir step :: int where "dir = (if keyCode = 37 \<or> keyCode = 38 then -1 else 1)"
    and "step = (if keyCode = 37 \<or> keyCode = 39 then 1 else 7)"
  let ?new = "arrow_move keyCode ctrl shift (dp_date dp)"
  have new: "?new = (if ctrl then moveYear (dp_date dp) dir else if shift then moveMonth (dp_date dp) dir
      else setUTCDate (getUTCDate (dp_date dp) + dir * step) (dp_date dp))"
    using arrow_move_cases [OF assms(1)] by (simp add: Let_def dir_def step_def)
  have "TimeWithinDay ?new = 0"
    using assms(8) month_shift_getters(3) [OF date_range(3)]
    by (simp add: new moveYear_def moveMonth_shift)
  moreover have "keydown E keyCode ctrl shift dp = key_arrow E ctrl shift dir step dp"
    using assms(1,2) by (auto simp: keydown_def dir_def step_def)
  ultimately show ?thesis
    using key_arrow_spec [where dp = dp and dir = dir and step = step and ctrl = ctrl and shift = shift
        and E = E, folded new] assms(3-7,9,10) unfolding Let_def by presburger
qed

section \<open>Where the picker goes wrong\<close>

text \<open>
  in the years 0 to 99 the sheet shows the wrong century. \<open>fill\<close> builds its first day
  with \<open>Date.UTC\<close>, which adds 1900 to such a year, so the days rendered for a month of the
  year \<open>y\<close> are those of the year \<open>1900 + y\<close>.
\<close>

lemma two_digit_year_sheet:
  assumes "two_digit_year (getUTCFullYear v)" "getUTCFullYear w = 1900 + getUTCFullYear v"
    "getUTCMonth w = getUTCMonth v"
  shows "grid ws v = grid ws w"
  using assms by (simp add: grid_def grid_start_def Date_UTC_def two_digit_year_def)

text \<open>
  The linked \<open>today\<close> button ignores the allowed range: with a start date in the future
  it selects a day before the start date.
\<close>

lemma today_ignores_range:
  "\<not> dateWithinRange (sample_options (Some 1719792000000) None)
     (dp_date (click sample_env TToday (sample_picker (Some 1719792000000) None 1719792000000)))"
proof -
  have "Date_UTC 2024 5 16 < 1719792000000" by code_simp
  then show ?thesis
    by (simp add: click_def click_today_def Let_def sample_env_def dateWithinRange_def before_start_def)
       (simp add: sample_picker_def sample_options_def)
qed

section \<open>The view mode\<close>

datatype dp_event = EClick target | EKey int bool bool | EShow | EHide | EUpdate update_arg

fun dp_step :: "env \<Rightarrow> datepicker \<Rightarrow> dp_event \<Rightarrow> datepicker" where
  "dp_step E dp (EClick t) = click E t dp"
| "dp_step E dp (EKey k ctrl shift) = keydown E k ctrl shift dp"
| "dp_step E dp EShow = show_picker dp"
| "dp_step E dp EHide = hide dp"
| "dp_step E dp (EUpdate a) = update E a dp"

definition view_inv :: "datepicker \<Rightarrow> bool" where
  "view_inv dp \<longleftrightarrow> 0 \<le> o_minViewMode (dp_o dp) \<and> o_minViewMode (dp_o dp) \<le> o_startView (dp_o dp) \<and>
     o_startView (dp_o dp) \<le> 2 \<and> o_minViewMode (dp_o dp) \<le> dp_viewMode dp \<and> dp_viewMode dp \<le> 2"

lemma view_inv_cong: "dp_o dp = dp_o dp' \<Longrightarrow> dp_viewMode dp = dp_viewMode dp' \<Longrightarrow> view_inv dp = view_inv dp'"
  by (simp add: view_inv_def)

lemma view_inv_frames [simp]:
  "view_inv (fill E dp) = view_inv dp" "view_inv (setValue dp) = view_inv dp"
  "view_inv (dp_trigger e d dp) = view_inv dp" "view_inv (dp\<lparr>dp_date := x\<rparr>) = view_inv dp"
  "view_inv (dp\<lparr>dp_viewDate := x\<rparr>) = view_inv dp" "view_inv (dp\<lparr>dp_val := s\<rparr>) = view_inv dp"
  "view_inv (dp\<lparr>dp_dataDate := s\<rparr>) = view_inv dp" "view_inv (dp\<lparr>dp_visible := b\<rparr>) = view_inv dp"
  by (rule view_inv_cong; simp)+

lemma view_inv_showMode: "view_inv dp \<Longrightarrow> view_inv (showMode k dp)"
  by (auto simp: view_inv_def showMode_def)

lemma view_inv_hide: "view_inv dp \<Longrightarrow> view_inv (hide dp)"
  by (auto simp: hide_def Let_def intro!: view_inv_showMode) (simp_all add: view_inv_def)

lemma view_inv_update: "view_inv dp \<Longrightarrow> view_inv (update E a dp)"
  by (cases a) (auto simp: update_def update_from_def Let_def)

lemma view_inv_set_date: "view_inv dp \<Longrightarrow> view_inv (dp_set_date E a b d dp)"
  by (auto simp: dp_set_date_def Let_def intro!: view_inv_hide)

lemma view_inv_click: "view_inv dp \<Longrightarrow> view_inv (click E t dp)"
  by (cases t)
     (auto simp: click_def click_nav_def click_today_def click_clear_def click_month_def click_year_def
       click_day_def Let_def case_prod_beta
       intro!: view_inv_showMode view_inv_hide view_inv_update view_inv_set_date)

lemma view_inv_keydown: "view_inv dp \<Longrightarrow> view_inv (keydown E k c s dp)"
  by (auto simp: keydown_def key_arrow_def Let_def show_picker_def intro!: view_inv_hide view_inv_update)

lemma view_inv_step: "view_inv dp \<Longrightarrow> view_inv (dp_step E dp e)"
  by (cases e)
     (auto simp: show_picker_def intro: view_inv_click view_inv_keydown view_inv_hide view_inv_update)

interpretation picker: step_invariant "dp_step E" view_inv
  by unfold_locales (rule view_inv_step)

lemma process_options_views:
  "process_options E dates raw = Inr o' \<Longrightarrow>
   0 \<le> o_minViewMode o' \<and> o_minViewMode o' \<le> o_startView o' \<and> o_startView o' \<le> 2"
  by (auto simp: process_options_def js_bind_Inr_iff Let_def view_number_def)

text \<open>
  From its construction on, through every sequence of clicks, keys, updates, showing and
  hiding, the view (days, months, years) stays between the configured minimum and the years
  view, whatever the options said.
\<close>

lemma view_mode_bounded:
  assumes "new_Datepicker E dates raw inp hasComp hasInp isDiv val data = Inr dp"
  shows "let dp' = foldl (dp_step E) dp es
    in o_minViewMode (dp_o dp') \<le> dp_viewMode dp' \<and> dp_viewMode dp' \<le> 2 \<and> 0 \<le> o_minViewMode (dp_o dp')"
proof -
  obtain o' where o': "process_options E dates raw = Inr o'"
    using assms by (auto simp: new_Datepicker_def js_bind_Inr_iff)
  have upd: "view_inv d \<Longrightarrow> view_inv (showMode 0 (update_from E None UNone d))" for d
    by (intro view_inv_showMode) (auto simp: update_from_def Let_def)
  have "view_inv dp"
    using assms process_options_views [OF o']
    by (auto simp: new_Datepicker_def o' Let_def show_picker_def intro!: upd split: if_splits)
       (simp_all add: view_inv_def)
  then have "view_inv (foldl (dp_step E) dp es)" by (rule picker.run_keeps)
  then show ?thesis by (simp add: view_inv_def Let_def)
qed

section \<open>Range pickers\<close>

record range_picker =
  rp_pickers :: "datepicker list"
  rp_dates :: "date list"

definition updateRanges :: "env \<Rightarrow> range_picker \<Rightarrow> range_picker" where
  "updateRanges E rp = rp\<lparr>rp_pickers := map (setRange E (rp_dates rp)) (rp_pickers rp)\<rparr>"

definition updateDates :: "env \<Rightarrow> range_picker \<Rightarrow> range_picker" where
  "updateDates E rp = updateRanges E (rp\<lparr>rp_dates := map dp_date (rp_pickers rp)\<rparr>)"

definition new_DateRangePicker :: "env \<Rightarrow> datepicker list \<Rightarrow> range_picker" where
  "new_DateRangePicker E pickers = updateDates E \<lparr>rp_pickers = pickers, rp_dates = []\<rparr>"

text \<open>The two loops of \<open>dateUpdated\<close>: to the left from index \<open>n - 1\<close>, to the right for \<open>n\<close> inputs.\<close>

fun left_loop :: "date \<Rightarrow> date list \<Rightarrow> nat \<Rightarrow> datepicker list \<Rightarrow> datepicker list" where
  "left_loop new dates 0 ps = ps"
| "left_loop new dates (Suc i) ps =
     (if new < dates ! i then left_loop new dates i (ps[i := dp_setUTCDate new (ps ! i)]) else ps)"

fun right_loop :: "date \<Rightarrow> date list \<Rightarrow> nat \<Rightarrow> nat \<Rightarrow> datepicker list \<Rightarrow> datepicker list" where
  "right_loop new dates i 0 ps = ps"
| "right_loop new dates i (Suc n) ps =
     (if new > dates ! i then right_loop new dates (Suc i) n (ps[i := dp_setUTCDate new (ps ! i)]) else ps)"

definition dateUpdated :: "env \<Rightarrow> nat \<Rightarrow> range_picker \<Rightarrow> range_picker" where
  "dateUpdated E i rp =
     (if i < length (rp_pickers rp)
      then (let new_date = dp_date (rp_pickers rp ! i); l = length (rp_pickers rp); ds = rp_dates rp
            in updateDates E
                 (if new_date < ds ! i then rp\<lparr>rp_pickers := left_loop new_date ds (Suc i) (rp_pickers rp)\<rparr>
                  else if new_date > ds ! i
                  then rp\<lparr>rp_pickers := right_loop new_date ds i (l - i) (rp_pickers rp)\<rparr>
                  else rp))
      else rp)"

lemma dp_date_setUTCDate [simp]: "dp_date (dp_setUTCDate d dp) = d"
  by (simp add: dp_setUTCDate_def)

lemma left_loop_dates:
  assumes "sorted ds" "n \<le> length ds" "length ps = length ds"
  shows "map dp_date (left_loop new ds n ps) =
    map (\<lambda>j. if j < n \<and> new < ds ! j then new else dp_date (ps ! j)) [0..<length ps]"
  using assms(2,3)
proof (induction n arbitrary: ps)
  case 0
  then show ?case by (auto intro!: nth_equalityI)
next
  case (Suc n)
  show ?case
  proof (cases "new < ds ! n")
    case True
    then show ?thesis using Suc by (auto simp: nth_list_update less_Suc_eq intro!: nth_equalityI)
  next
    case False
    have "ds ! j \<le> new" if "j < Suc n" for j
      using that False sorted_nth_mono [OF assms(1), of j n] Suc.prems(1) by auto
    then have "map (\<lambda>j. if j < Suc n \<and> new < ds ! j then new else dp_date (ps ! j)) [0..<length ps] =
        map (\<lambda>j. dp_date (ps ! j)) [0..<length ps]"
      by (intro map_cong) (auto simp: not_less [symmetric])
    also have "\<dots> = map dp_date ps" by (rule nth_equalityI) simp_all
    finally show ?thesis using False by simp
  qed
qed

lemma right_loop_dates:
  assumes "sorted ds" "i + n = length ds" "length ps = length ds"
  shows "map dp_date (right_loop new ds i n ps) =
    map (\<lambda>j. if i \<le> j \<and> ds ! j < new then new else dp_date (ps ! j)) [0..<length ps]"
  using assms(2,3)
proof (induction n arbitrary: i ps)
  case 0
  then show ?case by (auto intro!: nth_equalityI)
next
  case (Suc n)
  show ?case
  proof (cases "ds ! i < new")
    case True
    then show ?thesis using Suc by (auto simp: nth_list_update intro!: nth_equalityI)
  next
    case False
    have "new \<le> ds ! j" if "i \<le> j" "j < length ds" for j
      using that False sorted_nth_mono [OF assms(1), of i j] by auto
    then have "map (\<lambda>j. if i \<le> j \<and> ds ! j < new then new else dp_date (ps ! j)) [0..<length ps] =
        map (\<lambda>j. dp_date (ps ! j)) [0..<length ps]"
      using Suc.prems by (intro map_cong) (auto simp: not_less [symmetric])
    also have "\<dots> = map dp_date ps" by (rule nth_equalityI) simp_all
    finally show ?thesis using False by simp
  qed
qed

text \<open>
  C17: a range picker keeps its dates in order. When one input of a range gets a new date,
  the inputs before it are moved back to it where they would lie after it, the inputs behind
  it are moved forward, and no other date changes.
\<close>

theorem range_stays_ordered:
  assumes "sorted (rp_dates rp)" "i < length (rp_dates rp)" "map dp_date (rp_pickers rp) = (rp_dates rp)[i := new]"
  shows "rp_dates (dateUpdated E i rp) =
      map (\<lambda>j. if j < i then min (rp_dates rp ! j) new else if j = i then new else max (rp_dates rp ! j) new)
        [0..<length (rp_dates rp)] \<and>
    sorted (rp_dates (dateUpdated E i rp)) \<and>
    map dp_date (rp_pickers (dateUpdated E i rp)) = rp_dates (dateUpdated E i rp)"
proof -
  let ?ds = "rp_dates rp" and ?ps = "rp_pickers rp"
  have len: "length ?ps = length ?ds" using assms(3) by (metis length_list_update length_map)
  have nth: "dp_date (?ps ! j) = (if j = i then new else ?ds ! j)" if "j < length ?ds" for j
    using that len assms(2,3) by (metis nth_list_update nth_map)
  have mono: "j \<le> k \<Longrightarrow> k < length ?ds \<Longrightarrow> ?ds ! j \<le> ?ds ! k" for j k
    using sorted_nth_mono [OF assms(1)] by blast
  have upd: "rp_dates (updateDates E r) = map dp_date (rp_pickers r) \<and>
      map dp_date (rp_pickers (updateDates E r)) = map dp_date (rp_pickers r)" for r
    by (simp add: updateDates_def updateRanges_def setRange_def)
  let ?res = "map (\<lambda>j. if j < i then min (?ds ! j) new else if j = i then new else max (?ds ! j) new) [0..<length ?ds]"
  define qs where "qs = (if new < ?ds ! i then left_loop new ?ds (Suc i) ?ps
      else if new > ?ds ! i then right_loop new ?ds i (length ?ps - i) ?ps else ?ps)"
  consider "new < ?ds ! i" | "new > ?ds ! i" | "new = ?ds ! i" by linarith
  then have qs: "map dp_date qs = ?res"
  proof cases
    case 1
    have "new \<le> ?ds ! j" if "i \<le> j" "j < length ?ds" for j using mono [OF that] 1 by simp
    then show ?thesis using 1 left_loop_dates [OF assms(1) _ len, of "Suc i" new] assms(2)
      by (auto simp: qs_def len nth intro!: map_cong)
  next
    case 2
    have "?ds ! j \<le> new" if "j \<le> i" for j using mono [OF that assms(2)] 2 by simp
    then show ?thesis using 2 right_loop_dates [OF assms(1) _ len, of i "length ?ps - i" new] assms(2)
      by (auto simp: qs_def len nth intro!: map_cong)
  next
    case 3
    have "map dp_date ?ps = map (\<lambda>j. dp_date (?ps ! j)) [0..<length ?ds]"
      by (rule nth_equalityI) (simp_all add: len)
    then show ?thesis using 3 mono assms(2)
      by (auto simp: qs_def nth intro!: map_cong)
  qed
  have "sorted ?res"
    unfolding sorted_iff_nth_mono using mono by (fastforce simp: min_def max_def)
  moreover have "dateUpdated E i rp = updateDates E (rp\<lparr>rp_pickers := qs\<rparr>)"
    using assms(2) by (simp add: dateUpdated_def Let_def qs_def len nth)
  ultimately show ?thesis using upd [of "rp\<lparr>rp_pickers := qs\<rparr>"] qs by simp
qed

theorem range_stays_ordered_witness:
  "rp_dates (dateUpdated sample_env 0
     \<lparr>rp_pickers = [sample_picker None None 5, sample_picker None None 3], rp_dates = [1, 3]\<rparr>) = [5, 5]"
  using range_stays_ordered [of "\<lparr>rp_pickers = [sample_picker None None 5, sample_picker None None 3],
      rp_dates = [1, 3]\<rparr>" 0 5 sample_env]
  by (simp add: sample_picker_def upt_rec)

section \<open>Placing the picker\<close>

record geometry =
  calendarWidth :: int
  calendarHeight :: int
  windowWidth :: int
  windowHeight :: int
  scrollTop :: int
  offset_left :: int
  offset_top :: int
  el_width :: int
  el_height :: int
  paddingTop :: int

record placement =
  pl_x :: string
  pl_y :: string
  pl_left :: int
  pl_top :: int

definition place :: "options \<Rightarrow> geometry \<Rightarrow> placement" where
  "place o' g =
     (let x = (if o_orient_x o' \<noteq> ''auto'' then o_orient_x o' else ''left'');
          left = (if o_orient_x o' \<noteq> ''auto''
                  then (if o_orient_x o' = ''right'' then offset_left g - (calendarWidth g - el_width g)
                        else offset_left g)
                  else if offset_left g < 0 then offset_left g - (offset_left g - 10)
                  else if offset_left g + calendarWidth g > windowWidth g
                  then windowWidth g - calendarWidth g - 10 else offset_left g);
          top_overflow = - scrollTop g + offset_top g - calendarHeight g;
          bottom_overflow = scrollTop g + windowHeight g - (offset_top g + el_height g + calendarHeight g);
          y = (if o_orient_y o' = ''auto''
               then (if max top_overflow bottom_overflow = bottom_overflow then ''top'' else ''bottom'')
               else o_orient_y o');
          top = (if y = ''top'' then offset_top g + el_height g
                 else offset_top g - (calendarHeight g + paddingTop g))
      in \<lparr>pl_x = x, pl_y = y, pl_left = left, pl_top = top\<rparr>)"

text \<open>
  With automatic orientation the picker is placed within the window's width whenever it
  fits there with its padding, wherever the element is; and it opens below the element
  exactly when there is at least as much room below as above.
\<close>

lemma place_fits:
  assumes "o_orient_x o' = ''auto''" "o_orient_y o' = ''auto''" "calendarWidth g + 10 \<le> windowWidth g"
  shows "0 \<le> pl_left (place o' g) \<and> pl_left (place o' g) + calendarWidth g \<le> windowWidth g \<and>
    (pl_top (place o' g) = offset_top g + el_height g \<and> pl_y (place o' g) = ''top'' \<longleftrightarrow>
       scrollTop g + windowHeight g - (offset_top g + el_height g) \<ge> offset_top g - scrollTop g)"
  using assms by (auto simp: place_def Let_def max_def)

end
