(* ===== verification/Tags_Input.thy ===== *)
theory Tags_Input
  imports Js_Prelude
begin

text \<open>
  The tags input of the administration console, \<open>bootstrap-tagsinput.js\<close>, with strings as
  tags (no \<open>itemValue\<close> option). The state is the array of items, the tag elements in the
  container around the input box, the options of a \<open>select\<close> element, the value of the original
  element, the text being typed and the events triggered. The handlers of
  \<open>beforeItemAdd\<close> and \<open>beforeItemRemove\<close> are known by what they cancel.
\<close>

section \<open>State\<close>

datatype key_combination = Key nat | Combo nat "bool option" "bool option" "bool option"

record key_event =
  ke_which :: nat
  ke_alt :: bool
  ke_shift :: bool
  ke_ctrl :: bool

record tag_options =
  maxTags :: "nat option"
  maxChars :: "nat option"
  maxInputLength :: "nat option"
  confirmKeys :: "key_combination list"
  freeInput :: bool
  addOnBlur :: bool
  trimValue :: bool
  allowDuplicates :: bool
  cancelAdd :: "string \<Rightarrow> bool"
  cancelRemove :: "string \<Rightarrow> bool"

datatype tag_elem = TagElem string | InputWrapper

datatype tag_event = Change | ItemAdded string | ItemRemoved "string option"

text \<open>An option of the \<open>select\<close>: its value and the item stored with it, if any.\<close>

record tags_input =
  ti_options :: tag_options
  isSelect :: bool
  multiple :: bool
  disabled :: bool
  itemsArray :: "string list"
  ti_row :: "tag_elem list"
  ti_opts :: "(string \<times> string option) list"
  ti_value :: "string list"
  ti_full :: bool
  ti_text :: string
  ti_events :: "tag_event list"

text \<open>
  The widget around an element: the values are those of the options of a \<open>select\<close>, or the one
  text an \<open>input\<close> element holds. The value of an \<open>input\<close> is kept as the list last set, joined
  with commas; of a \<open>select\<close> the list is empty until the widget sets it.
\<close>

definition new_tags :: "tag_options \<Rightarrow> bool \<Rightarrow> bool \<Rightarrow> string list \<Rightarrow> tags_input" where
  "new_tags opts sel multi values =
     \<lparr>ti_options = opts, isSelect = sel, multiple = sel \<and> multi, disabled = False, itemsArray = [],
      ti_row = [InputWrapper], ti_opts = (if sel then map (\<lambda>v. (v, None)) values else []),
      ti_value = (if sel then [] else values), ti_full = False, ti_text = [], ti_events = []\<rparr>"

section \<open>Operations\<close>

text \<open>\<open>items().toString()\<close>, also the text an \<open>input\<close> element gets as its value.\<close>

definition items_string :: "string list \<Rightarrow> string" where
  "items_string items = join '','' items"

definition pushVal :: "tags_input \<Rightarrow> tags_input" where
  "pushVal s = s\<lparr>ti_value := itemsArray s, ti_events := ti_events s @ [Change]\<rparr>"

definition tag_remove :: "string option \<Rightarrow> bool \<Rightarrow> tags_input \<Rightarrow> tags_input" where
  "tag_remove item dontPushVal s =
     (if (case item of Some i \<Rightarrow> i \<noteq> [] \<and> cancelRemove (ti_options s) i | None \<Rightarrow> False) then s
      else
      (let s1 = (case item of
                   Some i \<Rightarrow>
                     if i \<noteq> [] then s\<lparr>ti_row := filter (\<lambda>e. e \<noteq> TagElem i) (ti_row s),
                                      ti_opts := filter (\<lambda>(v, d). d \<noteq> Some i) (ti_opts s),
                                      itemsArray := remove1 i (itemsArray s)\<rparr>
                     else s
                 | None \<Rightarrow> s);
           s2 = (if dontPushVal then s1 else pushVal s1);
           s3 = (case maxTags (ti_options s2) of
                   Some m \<Rightarrow> if m > length (itemsArray s2) then s2\<lparr>ti_full := False\<rparr> else s2
                 | None \<Rightarrow> s2)
       in s3\<lparr>ti_events := ti_events s3 @ [ItemRemoved item]\<rparr>))"

text \<open>\<open>encodeURIComponent\<close> on a code unit of the Latin-1 range.\<close>

definition hex_digit :: "nat \<Rightarrow> char" where
  "hex_digit n = char_of (if n < 10 then 48 + n else 55 + n)"

definition percent_byte :: "nat \<Rightarrow> string" where
  "percent_byte n = [CHR ''%'', hex_digit (n div 16), hex_digit (n mod 16)]"

definition encodeURIComponent :: "string \<Rightarrow> string" where
  "encodeURIComponent s = concat (map (\<lambda>c.
     let n = char_code c
     in if is_js_word c \<or> c \<in> set ''-.!~*()'' \<or> n = 39 then [c]
        else if n < 128 then percent_byte n
        else percent_byte (192 + n div 64) @ percent_byte (128 + n mod 64)) s)"

definition insert_tag :: "string \<Rightarrow> tag_elem list \<Rightarrow> tag_elem list" where
  "insert_tag i row =
     takeWhile (\<lambda>e. e \<noteq> InputWrapper) row @ TagElem i # dropWhile (\<lambda>e. e \<noteq> InputWrapper) row"

text \<open>The second half of \<open>add\<close>: from the search for an equal tag on.\<close>

definition add_item :: "string \<Rightarrow> bool \<Rightarrow> tags_input \<Rightarrow> tags_input" where
  "add_item item dontPushVal s =
     (let opts = ti_options s
      in if item \<in> set (itemsArray s) \<and> \<not> allowDuplicates opts then s
         else if (case maxInputLength opts of
                    Some m \<Rightarrow> length (items_string (itemsArray s)) + length item + 1 > m | None \<Rightarrow> False) then s
         else if cancelAdd opts item then s
         else
         (let s1 = s\<lparr>itemsArray := itemsArray s @ [item], ti_row := insert_tag item (ti_row s)\<rparr>;
              s2 = (if isSelect s1 \<and> encodeURIComponent item \<notin> fst ` set (ti_opts s1)
                    then s1\<lparr>ti_opts := ti_opts s1 @ [(item, Some item)]\<rparr> else s1);
              s3 = (if dontPushVal then s2 else pushVal s2);
              s4 = (if maxTags opts = Some (length (itemsArray s3)) \<or>
                       maxInputLength opts = Some (length (items_string (itemsArray s3)))
                    then s3\<lparr>ti_full := True\<rparr> else s3)
          in s4\<lparr>ti_events := ti_events s4 @ [ItemAdded item]\<rparr>))"

text \<open>
  The first half: the guards, and the tag of a single \<open>select\<close> that gives way. \<open>None\<close> is an
  early return; a limit of 0 tags counts as no limit.
\<close>

definition add_guard :: "string \<Rightarrow> tags_input \<Rightarrow> (string \<times> tags_input) option" where
  "add_guard item s =
     (let opts = ti_options s
      in if (case maxTags opts of Some m \<Rightarrow> m \<noteq> 0 \<and> length (itemsArray s) \<ge> m | None \<Rightarrow> False) then None
         else if item = [] then None
         else
         (let item = (if trimValue opts then js_trim item else item)
          in if list_all is_js_space item then None
             else Some (item, if isSelect s \<and> \<not> multiple s \<and> itemsArray s \<noteq> []
                              then tag_remove (Some (hd (itemsArray s))) False s else s)))"

text \<open>
  \<open>add\<close>: a text with commas for an \<open>input\<close> element is split and each piece added by a call of
  its own; a piece has no comma left, so this call does not split again.
\<close>

definition add_piece :: "string \<Rightarrow> bool \<Rightarrow> tags_input \<Rightarrow> tags_input" where
  "add_piece item dontPushVal s =
     (case add_guard item s of None \<Rightarrow> s | Some (item, s) \<Rightarrow> add_item item dontPushVal s)"

definition tag_add :: "string \<Rightarrow> bool \<Rightarrow> tags_input \<Rightarrow> tags_input" where
  "tag_add item dontPushVal s =
     (case add_guard item s of
        None \<Rightarrow> s
      | Some (item, s) \<Rightarrow>
          (let items = js_split CHR '','' item
           in if \<not> isSelect s \<and> length items > 1
              then (let s1 = fold (\<lambda>i. add_piece i True) items s in if dontPushVal then s1 else pushVal s1)
              else add_item item dontPushVal s))"

definition tag_removeAll :: "tags_input \<Rightarrow> tags_input" where
  "tag_removeAll s = pushVal (s\<lparr>ti_row := filter (\<lambda>e. e = InputWrapper) (ti_row s), ti_opts := [], itemsArray := []\<rparr>)"

text \<open>\<open>build\<close>: what the element holds already becomes tags.\<close>

definition tags_build :: "tags_input \<Rightarrow> tags_input" where
  "tags_build s =
     (if \<not> isSelect s then tag_add (items_string (ti_value s)) False s
      else fold (\<lambda>(v, d). tag_add v True) (ti_opts s) s)"

section \<open>Handlers\<close>

definition keyCombinationInList :: "key_event \<Rightarrow> key_combination list \<Rightarrow> bool" where
  "keyCombinationInList ev lookupList =
     list_ex (\<lambda>k. case k of
                Key n \<Rightarrow> ke_which ev = n
              | Combo n alt shift ctrl \<Rightarrow>
                  ke_which ev = n \<and> (alt = None \<or> alt = Some (ke_alt ev)) \<and>
                  (shift = None \<or> shift = Some (ke_shift ev)) \<and> (ctrl = None \<or> ctrl = Some (ke_ctrl ev))) lookupList"

text \<open>The elements before and after the input: \<open>prev()\<close> and \<open>next()\<close> of the wrapper.\<close>

definition row_prev :: "tag_elem list \<Rightarrow> tag_elem option" where
  "row_prev row = (let b = takeWhile (\<lambda>e. e \<noteq> InputWrapper) row in if b = [] then None else Some (last b))"

definition row_next :: "tag_elem list \<Rightarrow> tag_elem option" where
  "row_next row = (case tl (dropWhile (\<lambda>e. e \<noteq> InputWrapper) row) of [] \<Rightarrow> None | e # es \<Rightarrow> Some e)"

definition elem_item :: "tag_elem option \<Rightarrow> string option" where
  "elem_item e = (case e of Some (TagElem i) \<Rightarrow> Some i | _ \<Rightarrow> None)"

definition move_left :: "tag_elem list \<Rightarrow> tag_elem list" where
  "move_left row =
     (let b = takeWhile (\<lambda>e. e \<noteq> InputWrapper) row; a = tl (dropWhile (\<lambda>e. e \<noteq> InputWrapper) row)
      in butlast b @ InputWrapper # last b # a)"

definition move_right :: "tag_elem list \<Rightarrow> tag_elem list" where
  "move_right row =
     (let b = takeWhile (\<lambda>e. e \<noteq> InputWrapper) row; a = tl (dropWhile (\<lambda>e. e \<noteq> InputWrapper) row)
      in b @ hd a # InputWrapper # tl a)"

definition tags_keydown :: "nat \<Rightarrow> nat \<Rightarrow> tags_input \<Rightarrow> tags_input" where
  "tags_keydown which caret s =
     (if disabled s then s
      else if which = 8 then (if caret = 0 then tag_remove (elem_item (row_prev (ti_row s))) False s else s)
      else if which = 46 then (if caret = 0 then tag_remove (elem_item (row_next (ti_row s))) False s else s)
      else if which = 37
      then (if ti_text s = [] \<and> row_prev (ti_row s) \<noteq> None then s\<lparr>ti_row := move_left (ti_row s)\<rparr> else s)
      else if which = 39
      then (if ti_text s = [] \<and> row_next (ti_row s) \<noteq> None then s\<lparr>ti_row := move_right (ti_row s)\<rparr> else s)
      else s)"

definition tags_keypress :: "key_event \<Rightarrow> tags_input \<Rightarrow> tags_input" where
  "tags_keypress ev s =
     (if disabled s then s
      else
      (let opts = ti_options s;
           reached = (case maxChars opts of Some m \<Rightarrow> m \<noteq> 0 \<and> length (ti_text s) \<ge> m | None \<Rightarrow> False)
       in if freeInput opts \<and> (keyCombinationInList ev (confirmKeys opts) \<or> reached)
          then (tag_add (case maxChars opts of Some m \<Rightarrow> if reached then take m (ti_text s) else ti_text s
                         | None \<Rightarrow> ti_text s) False s)\<lparr>ti_text := []\<rparr>
          else s))"

definition tags_focusout :: "tags_input \<Rightarrow> tags_input" where
  "tags_focusout s =
     (if addOnBlur (ti_options s) \<and> freeInput (ti_options s)
      then (tag_add (ti_text s) False s)\<lparr>ti_text := []\<rparr> else s)"

definition tags_remove_click :: "string \<Rightarrow> tags_input \<Rightarrow> tags_input" where
  "tags_remove_click item s = (if disabled s then s else tag_remove (Some item) False s)"

datatype tags_action =
    TypeText string | KeyDown nat nat | KeyPress key_event | FocusOut | RemoveClick string
  | CallAdd string | CallRemove string | CallRemoveAll | Disable bool

fun tags_step :: "tags_input \<Rightarrow> tags_action \<Rightarrow> tags_input" where
  "tags_step s (TypeText t) = s\<lparr>ti_text := t\<rparr>"
| "tags_step s (KeyDown w c) = tags_keydown w c s"
| "tags_step s (KeyPress ev) = tags_keypress ev s"
| "tags_step s FocusOut = tags_focusout s"
| "tags_step s (RemoveClick i) = tags_remove_click i s"
| "tags_step s (CallAdd i) = tag_add i False s"
| "tags_step s (CallRemove i) = tag_remove (Some i) False s"
| "tags_step s CallRemoveAll = tag_removeAll s"
| "tags_step s (Disable b) = s\<lparr>disabled := b\<rparr>"

section \<open>The invariant\<close>

definition row_tags :: "tag_elem list \<Rightarrow> string list" where
  "row_tags row = concat (map (\<lambda>e. case e of TagElem i \<Rightarrow> [i] | InputWrapper \<Rightarrow> []) row)"

definition tag_weight :: "string list \<Rightarrow> nat" where
  "tag_weight items = sum_list (map (\<lambda>i. length i + 1) items)"

definition item_ok :: "tag_options \<Rightarrow> bool \<Rightarrow> string \<Rightarrow> bool" where
  "item_ok opts sel i \<longleftrightarrow> \<not> list_all is_js_space i \<and> (\<not> sel \<longrightarrow> CHR '','' \<notin> set i) \<and>
     (trimValue opts \<longrightarrow> js_trim i = i) \<and> (case maxInputLength opts of Some m \<Rightarrow> length i + 1 \<le> m | None \<Rightarrow> True)"

definition items_ok :: "tag_options \<Rightarrow> bool \<Rightarrow> string list \<Rightarrow> bool" where
  "items_ok opts sel items \<longleftrightarrow> list_all (item_ok opts sel) items \<and>
     (\<not> allowDuplicates opts \<longrightarrow> distinct items) \<and>
     (case maxTags opts of Some m \<Rightarrow> m = 0 \<or> length items \<le> m | None \<Rightarrow> True) \<and>
     (case maxInputLength opts of Some m \<Rightarrow> tag_weight items \<le> m + 1 | None \<Rightarrow> True)"

text \<open>The part of the invariant that needs tags to be unique speaks of the elements shown.\<close>

definition tags_inv :: "tags_input \<Rightarrow> bool" where
  "tags_inv s \<longleftrightarrow> items_ok (ti_options s) (isSelect s) (itemsArray s) \<and>
     filter (\<lambda>e. e = InputWrapper) (ti_row s) = [InputWrapper] \<and>
     (\<not> allowDuplicates (ti_options s) \<longrightarrow> mset (row_tags (ti_row s)) = mset (itemsArray s))"

lemma items_string_length: "items \<noteq> [] \<Longrightarrow> length (items_string items) + 1 = tag_weight items"
  unfolding items_string_def tag_weight_def by (induction "'',''" items rule: join.induct) auto

lemma weight_snoc [simp]: "tag_weight (xs @ [x]) = tag_weight xs + length x + 1"
  by (simp add: tag_weight_def)

lemma weight_remove1: "tag_weight (remove1 x xs) \<le> tag_weight xs"
  by (induction xs) (auto simp: tag_weight_def)

lemma row_tags_simps [simp]:
  "row_tags [] = []" "row_tags (TagElem i # r) = i # row_tags r" "row_tags (InputWrapper # r) = row_tags r"
  "row_tags (r @ r') = row_tags r @ row_tags r'"
  by (simp_all add: row_tags_def)

lemma row_tags_insert: "mset (row_tags (insert_tag i row)) = add_mset i (mset (row_tags row))"
proof -
  let ?P = "\<lambda>e. e \<noteq> InputWrapper"
  have "row_tags row = row_tags (takeWhile ?P row) @ row_tags (dropWhile ?P row)"
    by (metis row_tags_simps(4) takeWhile_dropWhile_id)
  then show ?thesis by (simp add: insert_tag_def)
qed

lemma row_tags_filter: "row_tags (filter (\<lambda>e. e \<noteq> TagElem i) row) = filter (\<lambda>j. j \<noteq> i) (row_tags row)"
proof (induction row)
  case (Cons e row)
  then show ?case by (cases e) auto
qed simp

lemma wrapper_insert: "filter (\<lambda>e. e = InputWrapper) (insert_tag i row) = filter (\<lambda>e. e = InputWrapper) row"
proof -
  have "filter (\<lambda>e. e = InputWrapper) row =
      filter (\<lambda>e. e = InputWrapper) (takeWhile (\<lambda>e. e \<noteq> InputWrapper) row) @
      filter (\<lambda>e. e = InputWrapper) (dropWhile (\<lambda>e. e \<noteq> InputWrapper) row)"
    by (metis filter_append takeWhile_dropWhile_id)
  then show ?thesis by (simp add: insert_tag_def)
qed

lemma items_ok_remove1: "items_ok opts sel items \<Longrightarrow> items_ok opts sel (remove1 i items)"
  using weight_remove1 [of i items] length_remove1 [of i items]
  by (auto simp: items_ok_def list_all_iff split: option.splits dest: in_set_remove1)

lemma remove1_filter_mset: "distinct xs \<Longrightarrow> mset (filter (\<lambda>j. j \<noteq> i) xs) = mset (remove1 i xs)"
proof -
  assume "distinct xs"
  then have "remove1 i xs = filter (\<lambda>j. i \<noteq> j) xs" by (simp add: distinct_remove1_removeAll removeAll_filter_not_eq)
  also have "\<dots> = filter (\<lambda>j. j \<noteq> i) xs" by (rule filter_cong) auto
  finally show ?thesis by simp
qed


text \<open>Operations on the fields the invariant does not mention.\<close>

lemma pushVal_fields [simp]:
  "itemsArray (pushVal s) = itemsArray s" "ti_row (pushVal s) = ti_row s" "ti_options (pushVal s) = ti_options s"
  "isSelect (pushVal s) = isSelect s" "multiple (pushVal s) = multiple s" "ti_value (pushVal s) = itemsArray s"
  by (simp_all add: pushVal_def)

lemma tags_inv_pushVal [simp]: "tags_inv (pushVal s) \<longleftrightarrow> tags_inv s"
  by (simp add: tags_inv_def)

lemma tags_inv_other:
  "itemsArray t = itemsArray s \<Longrightarrow> ti_row t = ti_row s \<Longrightarrow> ti_options t = ti_options s \<Longrightarrow> isSelect t = isSelect s \<Longrightarrow>
   tags_inv t \<longleftrightarrow> tags_inv s"
  by (simp add: tags_inv_def)

lemma tag_remove_shape:
  "tag_remove item dont s = s \<or>
   (ti_options (tag_remove item dont s) = ti_options s \<and> isSelect (tag_remove item dont s) = isSelect s \<and>
    multiple (tag_remove item dont s) = multiple s \<and>
    (case item of
       Some i \<Rightarrow> if i = [] then itemsArray (tag_remove item dont s) = itemsArray s \<and> ti_row (tag_remove item dont s) = ti_row s
         else itemsArray (tag_remove item dont s) = remove1 i (itemsArray s) \<and>
              ti_row (tag_remove item dont s) = filter (\<lambda>e. e \<noteq> TagElem i) (ti_row s)
     | None \<Rightarrow> itemsArray (tag_remove item dont s) = itemsArray s \<and> ti_row (tag_remove item dont s) = ti_row s) \<and>
    (\<not> dont \<longrightarrow> ti_value (tag_remove item dont s) = itemsArray (tag_remove item dont s)))"
  by (cases item) (simp_all add: tag_remove_def Let_def split: option.split)

lemma tag_remove_inv [wf_intros]:
  assumes "tags_inv s"
  shows "tags_inv (tag_remove item dont s)"
proof (cases "tag_remove item dont s = s")
  case False
  let ?t = "tag_remove item dont s"
  have f: "ti_options ?t = ti_options s" "isSelect ?t = isSelect s" using tag_remove_shape [of item dont s] False by auto
  show ?thesis
  proof (cases "\<exists>i. item = Some i \<and> i \<noteq> []")
    case True
    then obtain i where i: "item = Some i" "i \<noteq> []" by blast
    then have t: "itemsArray ?t = remove1 i (itemsArray s)" "ti_row ?t = filter (\<lambda>e. e \<noteq> TagElem i) (ti_row s)"
      using tag_remove_shape [of item dont s] False by auto
    have "mset (row_tags (ti_row ?t)) = mset (itemsArray ?t)" if "\<not> allowDuplicates (ti_options s)"
    proof -
      have "distinct (itemsArray s)" "mset (row_tags (ti_row s)) = mset (itemsArray s)"
        using that assms by (simp_all add: tags_inv_def items_ok_def)
      then show ?thesis
        using remove1_filter_mset [of "itemsArray s" i] by (simp add: t row_tags_filter)
    qed
    moreover have "filter (\<lambda>e. e = InputWrapper) (ti_row ?t) = filter (\<lambda>e. e = InputWrapper) (ti_row s)"
      unfolding t(2) filter_filter by (rule filter_cong) auto
    ultimately show ?thesis using assms f t(1) by (auto simp: tags_inv_def items_ok_remove1)
  next
    case no: False
    then have "itemsArray ?t = itemsArray s \<and> ti_row ?t = ti_row s"
      using tag_remove_shape [of item dont s] False by (cases item) auto
    then show ?thesis using assms f tags_inv_other [of ?t s] by simp
  qed
qed (use assms in simp)

lemma add_item_fields:
  "ti_options (add_item item dont s) = ti_options s" "isSelect (add_item item dont s) = isSelect s"
  "multiple (add_item item dont s) = multiple s"
  by (simp_all add: add_item_def Let_def)

definition accepts :: "string \<Rightarrow> tags_input \<Rightarrow> bool" where
  "accepts item s \<longleftrightarrow> (allowDuplicates (ti_options s) \<or> item \<notin> set (itemsArray s)) \<and>
     (case maxInputLength (ti_options s) of
        Some m \<Rightarrow> length (items_string (itemsArray s)) + length item + 1 \<le> m | None \<Rightarrow> True) \<and>
     \<not> cancelAdd (ti_options s) item"

lemma add_item_shape:
  "itemsArray (add_item item dont s) = (if accepts item s then itemsArray s @ [item] else itemsArray s)"
  "ti_row (add_item item dont s) = (if accepts item s then insert_tag item (ti_row s) else ti_row s)"
  "\<not> accepts item s \<Longrightarrow> add_item item dont s = s"
  "accepts item s \<Longrightarrow> \<not> dont \<Longrightarrow> ti_value (add_item item dont s) = itemsArray s @ [item]"
  by (auto simp: add_item_def accepts_def Let_def split: option.splits)

lemma items_ok_snoc:
  assumes "items_ok opts sel items" "item_ok opts sel item" "allowDuplicates opts \<or> item \<notin> set items"
    "case maxTags opts of Some m \<Rightarrow> m = 0 \<or> length items < m | None \<Rightarrow> True"
    "case maxInputLength opts of Some m \<Rightarrow> length (items_string items) + length item + 1 \<le> m | None \<Rightarrow> True"
  shows "items_ok opts sel (items @ [item])"
proof -
  have "tag_weight (items @ [item]) \<le> m + 1" if "maxInputLength opts = Some m" for m
  proof (cases "items = []")
    case False
    then show ?thesis using that assms(5) items_string_length [OF False] by simp
  qed (use that assms(5) in \<open>simp add: tag_weight_def\<close>)
  then show ?thesis using assms by (auto simp: items_ok_def split: option.splits)
qed

lemma js_trim_id:
  assumes "t \<noteq> []" "\<not> is_js_space (hd t)" "\<not> is_js_space (last t)"
  shows "js_trim t = t"
proof -
  have drop: "dropWhile is_js_space u = u" if "u \<noteq> []" "\<not> is_js_space (hd u)" for u using that by (cases u) auto
  have "dropWhile is_js_space t = t" by (rule drop) (use assms in simp_all)
  moreover have "dropWhile is_js_space (rev t) = rev t" by (rule drop) (use assms in \<open>simp_all add: hd_rev\<close>)
  ultimately show ?thesis by (simp add: js_trim_def)
qed

lemma js_trim_ends:
  assumes "js_trim s \<noteq> []"
  shows "\<not> is_js_space (hd (js_trim s))" "\<not> is_js_space (last (js_trim s))"
proof -
  let ?u = "dropWhile is_js_space s"
  have d: "dropWhile is_js_space (rev ?u) \<noteq> []" using assms by (simp add: js_trim_def)
  then show "\<not> is_js_space (last (js_trim s))"
    using hd_dropWhile [OF d] by (simp add: js_trim_def last_rev)
  have u: "?u \<noteq> []"
  proof
    assume "?u = []"
    then show False using d by (metis dropWhile.simps(1) rev.simps(1))
  qed
  obtain w where "rev ?u = w @ dropWhile is_js_space (rev ?u)" by (metis takeWhile_dropWhile_id)
  then have "?u = js_trim s @ rev w" by (metis js_trim_def rev_append rev_rev_ident)
  then have "hd (js_trim s) = hd ?u" using assms by (metis hd_append2)
  then show "\<not> is_js_space (hd (js_trim s))" using hd_dropWhile [OF u] by simp
qed

lemma js_trim_idem: "js_trim (js_trim s) = js_trim s"
proof (cases "js_trim s = []")
  case False
  show ?thesis by (rule js_trim_id [OF False js_trim_ends [OF False]])
next
  case True
  have "js_trim [] = []" by (simp add: js_trim_def)
  with True show ?thesis by simp
qed


lemma add_guard_fields:
  assumes "add_guard item s = Some (i, t)"
  shows "ti_options t = ti_options s" "isSelect t = isSelect s" "multiple t = multiple s"
  using assms tag_remove_shape [of "Some (hd (itemsArray s))" False s]
  by (auto simp: add_guard_def Let_def split: if_splits)

lemma add_guard_inv:
  assumes "tags_inv s" "add_guard item s = Some (i, t)"
  shows "tags_inv t \<and> \<not> list_all is_js_space i \<and> (trimValue (ti_options s) \<longrightarrow> js_trim i = i) \<and>
    (case maxTags (ti_options s) of Some m \<Rightarrow> m = 0 \<or> length (itemsArray t) < m | None \<Rightarrow> True) \<and>
    i = (if trimValue (ti_options s) then js_trim item else item)"
proof -
  have i: "i = (if trimValue (ti_options s) then js_trim item else item)" "\<not> list_all is_js_space i"
    using assms(2) by (auto simp: add_guard_def Let_def split: if_splits)
  have t: "t = s \<or> t = tag_remove (Some (hd (itemsArray s))) False s"
    using assms(2) by (auto simp: add_guard_def Let_def split: if_splits)
  have "length (itemsArray t) \<le> length (itemsArray s)"
    using t tag_remove_shape [of "Some (hd (itemsArray s))" False s] length_remove1 [of "hd (itemsArray s)" "itemsArray s"]
    by (auto split: if_splits)
  moreover have "case maxTags (ti_options s) of Some m \<Rightarrow> m = 0 \<or> length (itemsArray s) < m | None \<Rightarrow> True"
    using assms(2) by (auto simp: add_guard_def Let_def split: if_splits option.splits)
  moreover have "tags_inv t" using t assms(1) tag_remove_inv by auto
  ultimately show ?thesis using i by (auto simp: js_trim_idem split: option.splits)
qed

lemma add_item_inv:
  assumes "tags_inv s" "\<not> list_all is_js_space i" "trimValue (ti_options s) \<longrightarrow> js_trim i = i"
    "\<not> isSelect s \<longrightarrow> CHR '','' \<notin> set i"
    "case maxTags (ti_options s) of Some m \<Rightarrow> m = 0 \<or> length (itemsArray s) < m | None \<Rightarrow> True"
  shows "tags_inv (add_item i dont s)"
proof (cases "accepts i s")
  case True
  have "item_ok (ti_options s) (isSelect s) i"
    using assms(2-4) True by (auto simp: item_ok_def accepts_def split: option.splits)
  then have "items_ok (ti_options s) (isSelect s) (itemsArray s @ [i])"
    using assms(1,5) True by (intro items_ok_snoc) (auto simp: tags_inv_def accepts_def split: option.splits)
  then show ?thesis
    using assms(1) True
    by (auto simp: tags_inv_def add_item_fields add_item_shape row_tags_insert wrapper_insert)
qed (use assms(1) in \<open>simp add: add_item_shape\<close>)

lemma add_piece_inv:
  assumes "tags_inv s" "CHR '','' \<notin> set item"
  shows "tags_inv (add_piece item dont s)"
proof (cases "add_guard item s")
  case (Some p)
  obtain i t where p: "p = (i, t)" by (cases p)
  note g = add_guard_inv [OF assms(1) Some [unfolded p]] add_guard_fields [OF Some [unfolded p]]
  have "set (js_trim item) \<subseteq> set item" by (auto simp: js_trim_def dest!: set_dropWhileD)
  then have "CHR '','' \<notin> set i" using g(1) assms(2) by (auto split: if_splits)
  then have "tags_inv (add_item i dont t)" using g by (intro add_item_inv) auto
  then show ?thesis using Some p by (simp add: add_piece_def)
qed (use assms(1) in \<open>simp add: add_piece_def\<close>)

lemma add_piece_fields: "ti_options (add_piece i dont s) = ti_options s \<and> isSelect (add_piece i dont s) = isSelect s"
  by (auto simp: add_piece_def add_item_fields add_guard_fields split: option.splits)

lemma fold_pieces_inv:
  "tags_inv s \<Longrightarrow> \<forall>i\<in>set is. CHR '','' \<notin> set i \<Longrightarrow> tags_inv (fold (\<lambda>i. add_piece i True) is s)"
  by (induction "is" arbitrary: s) (simp_all add: add_piece_inv)

lemma tag_add_inv [wf_intros]:
  assumes "tags_inv s"
  shows "tags_inv (tag_add item dont s)"
proof (cases "add_guard item s")
  case (Some p)
  obtain i t where p: "p = (i, t)" by (cases p)
  note g = add_guard_inv [OF assms Some [unfolded p]] add_guard_fields [OF Some [unfolded p]]
  show ?thesis
  proof (cases "\<not> isSelect t \<and> length (js_split CHR '','' i) > 1")
    case True
    have "tags_inv (fold (\<lambda>i. add_piece i True) (js_split CHR '','' i) t)"
      using g(1) by (intro fold_pieces_inv) (auto dest: js_split_clean)
    then show ?thesis using Some p True by (simp add: tag_add_def Let_def)
  next
    case False
    have "CHR '','' \<notin> set i" if "\<not> isSelect t"
    proof
      assume "CHR '','' \<in> set i"
      then obtain us vs where "i = us @ CHR '','' # vs" "CHR '','' \<notin> set us" using split_list_first by metis
      then have "length (js_split CHR '','' i) = Suc (length (js_split CHR '','' vs))" by (simp add: js_split_append)
      moreover have "length (js_split CHR '','' vs) \<noteq> 0" by simp
      ultimately show False using False that by linarith
    qed
    then have "tags_inv (add_item i dont t)" using g by (intro add_item_inv) auto
    then show ?thesis using Some p False by (auto simp: tag_add_def Let_def)
  qed
qed (use assms in \<open>simp add: tag_add_def\<close>)


section \<open>Runs\<close>

text \<open>
  The value of a text field: the tags from the first time it was set on, which the event
  \<open>change\<close> tells; until then what the field held, and there are no tags.
\<close>

definition value_ok :: "string list \<Rightarrow> tags_input \<Rightarrow> bool" where
  "value_ok vs s \<longleftrightarrow> isSelect s \<or>
     (if Change \<in> set (ti_events s) then ti_value s = itemsArray s else ti_value s = vs \<and> itemsArray s = [])"

definition input_inv :: "string list \<Rightarrow> tags_input \<Rightarrow> bool" where
  "input_inv vs s \<longleftrightarrow> tags_inv s \<and> value_ok vs s"

lemma pushed_ok: "Change \<in> set (ti_events s) \<Longrightarrow> ti_value s = itemsArray s \<Longrightarrow> value_ok vs s"
  by (simp add: value_ok_def)

lemma tag_remove_value: "value_ok vs s \<Longrightarrow> value_ok vs (tag_remove i False s)"
proof -
  assume "value_ok vs s"
  moreover have "tag_remove i False s = s \<or> Change \<in> set (ti_events (tag_remove i False s))"
    by (cases i) (auto simp: tag_remove_def pushVal_def Let_def split: option.split)
  ultimately show ?thesis using tag_remove_shape [of i False s] pushed_ok by metis
qed

lemma add_item_value: "value_ok vs s \<Longrightarrow> value_ok vs (add_item i False s)"
proof (cases "accepts i s")
  case True
  then have "Change \<in> set (ti_events (add_item i False s))" by (auto simp: add_item_def accepts_def pushVal_def Let_def split: option.splits)
  then show ?thesis using True by (intro pushed_ok) (simp_all add: add_item_shape)
qed (simp add: add_item_shape)

lemma tag_add_value: "value_ok vs s \<Longrightarrow> value_ok vs (tag_add item False s)"
proof (cases "add_guard item s")
  case (Some p)
  assume v: "value_ok vs s"
  obtain i t where p: "p = (i, t)" by (cases p)
  have "t = s \<or> t = tag_remove (Some (hd (itemsArray s))) False s"
    using Some p by (auto simp: add_guard_def Let_def split: if_splits)
  then have "value_ok vs t" using v tag_remove_value by auto
  moreover have "value_ok vs (pushVal u)" for u by (rule pushed_ok) (simp_all add: pushVal_def)
  ultimately show ?thesis using Some p add_item_value by (simp add: tag_add_def Let_def)
qed (simp add: tag_add_def)

lemma input_inv_add [wf_intros]: "input_inv vs s \<Longrightarrow> input_inv vs (tag_add i False s)"
  by (simp add: input_inv_def tag_add_inv tag_add_value)

lemma input_inv_remove [wf_intros]: "input_inv vs s \<Longrightarrow> input_inv vs (tag_remove i False s)"
  by (simp add: input_inv_def tag_remove_inv tag_remove_value)

lemma row_split:
  assumes "filter (\<lambda>e. e = InputWrapper) row = [InputWrapper]"
  obtains b a where "row = b @ InputWrapper # a" "takeWhile (\<lambda>e. e \<noteq> InputWrapper) row = b"
    "tl (dropWhile (\<lambda>e. e \<noteq> InputWrapper) row) = a"
proof -
  have "InputWrapper \<in> set row" using arg_cong [OF assms, of set] by auto
  then obtain b a where row: "row = b @ InputWrapper # a" "InputWrapper \<notin> set b" by (meson split_list_first)
  moreover have "takeWhile (\<lambda>e. e \<noteq> InputWrapper) row = b" "dropWhile (\<lambda>e. e \<noteq> InputWrapper) row = InputWrapper # a"
    using row by (auto simp: takeWhile_append dropWhile_append)
  ultimately show ?thesis using that by simp
qed

text \<open>Moving the input along the row neither adds nor loses an element.\<close>

lemma move_mset:
  assumes "filter (\<lambda>e. e = InputWrapper) row = [InputWrapper]"
  shows "row_prev row \<noteq> None \<Longrightarrow> mset (move_left row) = mset row"
    and "row_next row \<noteq> None \<Longrightarrow> mset (move_right row) = mset row"
proof -
  obtain b a where row: "row = b @ InputWrapper # a" "takeWhile (\<lambda>e. e \<noteq> InputWrapper) row = b"
    "tl (dropWhile (\<lambda>e. e \<noteq> InputWrapper) row) = a" by (rule row_split [OF assms])
  show "mset (move_left row) = mset row" if "row_prev row \<noteq> None"
  proof -
    have "b \<noteq> []" using that row by (auto simp: row_prev_def)
    then have "mset b = add_mset (last b) (mset (butlast b))"
      by (metis append_butlast_last_id mset.simps(1,2) mset_append union_mset_add_mset_right add.right_neutral)
    then show ?thesis by (simp add: move_left_def row(2,3) Let_def) (simp add: row(1))
  qed
  show "mset (move_right row) = mset row" if ne: "row_next row \<noteq> None"
  proof -
    obtain x xs where "a = x # xs" using ne row(3) by (cases a) (auto simp: row_next_def)
    then show ?thesis by (simp add: move_right_def row(2,3) Let_def) (simp add: row(1))
  qed
qed

lemma mset_row_tags: "mset row = mset row' \<Longrightarrow> mset (row_tags row) = mset (row_tags row')"
proof -
  have "mset (row_tags r) = (\<Sum>e\<in>#mset r. case e of TagElem i \<Rightarrow> {#i#} | InputWrapper \<Rightarrow> {#})" for r
  proof (induction r)
    case (Cons e r)
    then show ?case by (cases e) simp_all
  qed simp
  then show "mset row = mset row' \<Longrightarrow> ?thesis" by simp
qed

lemma mset_wrapper:
  assumes "mset row' = mset row" "filter (\<lambda>e. e = InputWrapper) row = [InputWrapper]"
  shows "filter (\<lambda>e. e = InputWrapper) row' = [InputWrapper]"
proof -
  have "mset (filter (\<lambda>e. e = InputWrapper) row') = {#InputWrapper#}"
    using assms by (metis mset.simps(1,2) mset_filter)
  then show ?thesis by (metis mset_single_iff)
qed

lemma input_inv_row: "input_inv vs s \<Longrightarrow> mset row = mset (ti_row s) \<Longrightarrow> input_inv vs (s\<lparr>ti_row := row\<rparr>)"
  using mset_row_tags [of row "ti_row s"] mset_wrapper [of row "ti_row s"] by (simp add: input_inv_def tags_inv_def value_ok_def split: if_splits)

lemma tags_keydown_inv: "input_inv vs s \<Longrightarrow> input_inv vs (tags_keydown which caret s)"
proof -
  assume inv: "input_inv vs s"
  then have "filter (\<lambda>e. e = InputWrapper) (ti_row s) = [InputWrapper]" by (simp add: input_inv_def tags_inv_def)
  from move_mset [OF this] show ?thesis
    using inv by (auto simp: tags_keydown_def intro: input_inv_remove input_inv_row)
qed

lemma input_inv_text [simp]: "input_inv vs (s\<lparr>ti_text := x\<rparr>) \<longleftrightarrow> input_inv vs s" "input_inv vs (s\<lparr>disabled := b\<rparr>) \<longleftrightarrow> input_inv vs s"
  by (simp_all add: input_inv_def tags_inv_def value_ok_def)

lemma items_ok_nil: "items_ok opts sel []"
  by (simp add: items_ok_def tag_weight_def split: option.split)

lemma tag_removeAll_inv: "input_inv vs s \<Longrightarrow> input_inv vs (tag_removeAll s)"
proof -
  have "row_tags (filter (\<lambda>e. e = InputWrapper) row) = []" for row by (induction row) auto
  then show "input_inv vs s \<Longrightarrow> ?thesis"
    by (simp add: input_inv_def tags_inv_def tag_removeAll_def items_ok_nil pushed_ok pushVal_def)
qed

lemma tags_step_inv: "input_inv vs s \<Longrightarrow> input_inv vs (tags_step s e)"
  by (cases e) (auto simp: tags_keydown_inv tag_removeAll_inv tags_keypress_def tags_focusout_def tags_remove_click_def
      Let_def intro: input_inv_add input_inv_remove)

interpretation tags: step_invariant tags_step "input_inv vs" for vs
  by unfold_locales (rule tags_step_inv)


lemma new_tags_inv: "input_inv vs (new_tags opts sel multi vs)"
  by (simp add: input_inv_def tags_inv_def value_ok_def new_tags_def items_ok_nil)

text \<open>The options and the kind of the element never change.\<close>

lemma tag_add_keeps: "ti_options (tag_add i dont s) = ti_options s \<and> isSelect (tag_add i dont s) = isSelect s"
proof -
  have fold: "ti_options (fold (\<lambda>i. add_piece i True) is u) = ti_options u \<and>
      isSelect (fold (\<lambda>i. add_piece i True) is u) = isSelect u" for "is" u
    by (induction "is" arbitrary: u) (simp_all add: add_piece_fields)
  show ?thesis
    by (auto simp: tag_add_def Let_def add_item_fields add_guard_fields fold split: option.splits)
qed

lemma tag_remove_keeps:
  "ti_options (tag_remove i dont s) = ti_options s \<and> isSelect (tag_remove i dont s) = isSelect s"
  using tag_remove_shape [of i dont s] by auto

lemma tags_run_keeps: "ti_options (foldl tags_step s es) = ti_options s \<and> isSelect (foldl tags_step s es) = isSelect s"
proof -
  have step: "ti_options (tags_step s e) = ti_options s \<and> isSelect (tags_step s e) = isSelect s" for s e
    by (cases e) (simp_all add: tags_keydown_def tags_keypress_def tags_focusout_def tags_remove_click_def
        tag_removeAll_def tag_add_keeps tag_remove_keeps Let_def)
  show ?thesis by (induction es arbitrary: s) (simp_all add: step)
qed

lemma tags_build_keeps: "ti_options (tags_build s) = ti_options s \<and> isSelect (tags_build s) = isSelect s"
proof -
  have "ti_options (fold (\<lambda>(v, d). tag_add v True) os s) = ti_options s \<and>
      isSelect (fold (\<lambda>(v, d). tag_add v True) os s) = isSelect s" 
    for os :: "(string \<times> string option) list" and s
    by (induction os arbitrary: s) (simp_all add: tag_add_keeps split_beta)
  then show ?thesis by (simp add: tags_build_def tag_add_keeps)
qed

lemma tags_build_inv: "input_inv vs (tags_build (new_tags opts sel multi vs))"
proof (cases sel)
  case True
  then have sel: "isSelect (new_tags opts sel multi vs)" by (simp add: new_tags_def)
  have "tags_inv (fold (\<lambda>(v, d). tag_add v True) os s) \<and> isSelect (fold (\<lambda>(v, d). tag_add v True) os s)"
    if "tags_inv s" "isSelect s" for os :: "(string \<times> string option) list" and s
    using that by (induction os arbitrary: s) (auto simp: tag_add_inv tag_add_keeps)
  then show ?thesis
    using new_tags_inv [of vs opts sel multi] sel by (simp add: input_inv_def value_ok_def tags_build_def)
next
  case False
  then show ?thesis
    using input_inv_add [OF new_tags_inv [of vs opts sel multi]] by (simp add: tags_build_def new_tags_def)
qed

text \<open>
  C30: the tags input. For an element with any value or options and a widget with any settings,
  through every sequence of typing, keys, clicks and calls: tags are never blank, contain no comma
  in a text field, are trimmed when asked for, and are different unless duplicates are allowed; the
  limits on their number and on the length of the value are kept. The value of a text field is the
  list of the tags from its first change on; before that it is what the field held at the start, and
  there are no tags (an initial value that is refused stays, see \<open>refused_value_stays\<close>). Unless
  duplicates are allowed, the tags shown are the tags held, wherever the input was moved; with
  duplicates they need not be (\<open>duplicate_removed_twice\<close>). What a \<open>select\<close> element holds as its
  value is not claimed.
\<close>

theorem tags_invariant:
  "let s = foldl tags_step (tags_build (new_tags opts sel multi vs)) es
   in items_ok opts sel (itemsArray s) \<and>
      (if sel then True
       else if Change \<in> set (ti_events s) then ti_value s = itemsArray s
       else ti_value s = vs \<and> itemsArray s = []) \<and>
      (if allowDuplicates opts then True else mset (row_tags (ti_row s)) = mset (itemsArray s))"
proof -
  define s where "s = foldl tags_step (tags_build (new_tags opts sel multi vs)) es"
  have "input_inv vs s" unfolding s_def by (rule tags.run_keeps [OF tags_build_inv])
  moreover have "ti_options s = opts" "isSelect s = sel" by (simp_all add: s_def tags_run_keeps tags_build_keeps new_tags_def)
  ultimately show ?thesis unfolding s_def [symmetric] Let_def by (auto simp: input_inv_def tags_inv_def value_ok_def)
qed

section \<open>The value read back\<close>

lemma items_ok_prefix: "items_ok opts sel (xs @ ys) \<Longrightarrow> items_ok opts sel xs"
  by (auto simp: items_ok_def tag_weight_def split: option.splits)

lemma add_piece_accepts:
  assumes "items_ok (ti_options s) False (itemsArray s @ [i])" "\<not> isSelect s" "\<not> cancelAdd (ti_options s) i"
  shows "itemsArray (add_piece i dont s) = itemsArray s @ [i] \<and> \<not> isSelect (add_piece i dont s) \<and>
    ti_options (add_piece i dont s) = ti_options s"
proof -
  let ?o = "ti_options s"
  have io: "item_ok ?o False i" using assms(1) by (simp add: items_ok_def)
  have ne: "i \<noteq> []" using io by (auto simp: item_ok_def)
  have guard: "add_guard i s = Some (i, s)"
    using assms(1,2) io ne by (auto simp: add_guard_def items_ok_def item_ok_def Let_def split: option.splits)
  have "length (items_string (itemsArray s)) + length i + 1 \<le> m" if m: "maxInputLength ?o = Some m" for m
  proof (cases "itemsArray s = []")
    case True
    then show ?thesis using io m by (simp add: item_ok_def items_string_def)
  next
    case False
    then show ?thesis using assms(1) m items_string_length [OF False] by (simp add: items_ok_def)
  qed
  then have "accepts i s" using assms(1,3) by (auto simp: accepts_def items_ok_def split: option.splits)
  then show ?thesis using guard assms(2) by (simp add: add_piece_def add_item_shape add_item_fields)
qed

lemma fold_pieces_accept:
  "items_ok (ti_options s) False (itemsArray s @ is) \<Longrightarrow> \<not> isSelect s \<Longrightarrow> \<forall>i\<in>set is. \<not> cancelAdd (ti_options s) i \<Longrightarrow>
   itemsArray (fold (\<lambda>i. add_piece i True) is s) = itemsArray s @ is"
proof (induction "is" arbitrary: s)
  case (Cons i "is")
  have "items_ok (ti_options s) False (itemsArray s @ [i])" using Cons.prems(1) items_ok_prefix [of _ _ "itemsArray s @ [i]" "is"] by simp
  note p = add_piece_accepts [OF this Cons.prems(2), of True]
  show ?case using Cons.IH [of "add_piece i True s"] Cons.prems p by simp
qed simp

lemma join_ends:
  "ws \<noteq> [] \<Longrightarrow> \<forall>w\<in>set ws. w \<noteq> [] \<Longrightarrow> join sep ws \<noteq> [] \<and> hd (join sep ws) = hd (hd ws) \<and> last (join sep ws) = last (last ws)"
  by (induction sep ws rule: join.induct) auto

lemma item_ends:
  assumes "item_ok opts sel i" "trimValue opts"
  shows "i \<noteq> [] \<and> \<not> is_js_space (hd i) \<and> \<not> is_js_space (last i)"
proof -
  have i: "i \<noteq> []" "js_trim i = i" using assms by (auto simp: item_ok_def)
  then show ?thesis using js_trim_ends [of i] by simp
qed

lemma value_guard:
  assumes "items_ok (ti_options s) False items" "items \<noteq> []" "itemsArray s = []" "\<not> isSelect s"
  shows "add_guard (items_string items) s = Some (items_string items, s)"
proof -
  let ?v = "items_string items" and ?o = "ti_options s"
  have ok: "item_ok ?o False i" if "i \<in> set items" for i using assms(1) that by (auto simp: items_ok_def list_all_iff)
  have ne: "\<forall>w\<in>set items. w \<noteq> []"
  proof
    fix w assume "w \<in> set items"
    from ok [OF this] show "w \<noteq> []" by (cases w) (simp_all add: item_ok_def)
  qed
  note ends = join_ends [OF assms(2) ne, of "'',''"]
  have "js_trim ?v = ?v" if "trimValue ?o"
    using ends item_ends [OF ok that] assms(2) unfolding items_string_def by (intro js_trim_id) auto
  moreover have "\<not> list_all is_js_space ?v"
  proof -
    obtain c where "c \<in> set (hd items)" "\<not> is_js_space c"
      using ok [of "hd items"] assms(2) by (auto simp: item_ok_def list_all_iff)
    moreover have "set (hd items) \<subseteq> set ?v"
      unfolding items_string_def using assms(2) by (induction "'',''" items rule: join.induct) auto
    ultimately show ?thesis by (auto simp: list_all_iff)
  qed
  ultimately show ?thesis
    using ends assms(3,4) by (auto simp: add_guard_def items_string_def Let_def split: option.split)
qed

lemma value_accepted:
  assumes "items_ok opts False is" "\<forall>i\<in>set is. \<not> cancelAdd opts i" "n = new_tags opts False multi vs"
  shows "itemsArray (tag_add (items_string is) False n) = is"
proof -
  have n: "ti_options n = opts" "itemsArray n = []" "\<not> isSelect n" using assms(3) by (simp_all add: new_tags_def)
  show ?thesis
  proof (cases "is = []")
    case True
    then show ?thesis by (auto simp: n tag_add_def add_guard_def items_string_def Let_def split: option.splits)
  next
    case False
    have g: "add_guard (items_string is) n = Some (items_string is, n)"
      using assms(1) False n by (intro value_guard) simp_all
    have "\<forall>w\<in>set is. CHR '','' \<notin> set w" using assms(1) by (auto simp: items_ok_def item_ok_def list_all_iff)
    then have sp: "js_split CHR '','' (items_string is) = is" unfolding items_string_def by (rule split_join [OF False])
    have f: "itemsArray (fold (\<lambda>i. add_piece i True) is n) = is"
      using fold_pieces_accept [of n "is"] assms(1,2) n by simp
    show ?thesis
    proof (cases "length is > 1")
      case True
      then show ?thesis using f by (simp add: tag_add_def g sp n Let_def)
    next
      case one: False
      then obtain i where i: "is = [i]" using False by (cases "is") (auto simp: Suc_lessI)
      then have "items_string is = i" "js_split CHR '','' i = [i]" using sp by (simp_all add: items_string_def)
      then show ?thesis
        using f i g by (simp add: tag_add_def n Let_def add_piece_def add_item_shape accepts_def)
    qed
  qed
qed

text \<open>Events are only added, so that a field that was never set was not set by \<open>build\<close> either.\<close>

lemma events_grow: "Change \<in> set (ti_events s) \<Longrightarrow> Change \<in> set (ti_events (foldl tags_step s es))"
proof -
  have rem: "Change \<in> set (ti_events (tag_remove i d s))" if "Change \<in> set (ti_events s)" for i d s
    using that by (cases i) (auto simp: tag_remove_def pushVal_def Let_def split: option.split)
  have item: "Change \<in> set (ti_events (add_item i d s))" if "Change \<in> set (ti_events s)" for i d s
    using that by (auto simp: add_item_def pushVal_def Let_def)
  have guard: "Change \<in> set (ti_events t)" if "add_guard i s = Some (j, t)" "Change \<in> set (ti_events s)" for i s j t
    using that rem by (auto simp: add_guard_def Let_def split: if_splits)
  have piece: "Change \<in> set (ti_events (add_piece i d s))" if "Change \<in> set (ti_events s)" for i d s
    using that guard item by (auto simp: add_piece_def split: option.splits)
  have "Change \<in> set (ti_events (fold (\<lambda>i. add_piece i True) is s))" if "Change \<in> set (ti_events s)" for "is" s
    using that piece by (induction "is" arbitrary: s) simp_all
  then have add: "Change \<in> set (ti_events (tag_add i d s))" if "Change \<in> set (ti_events s)" for i d s
    using that guard item by (auto simp: tag_add_def pushVal_def Let_def split: option.splits)
  have "Change \<in> set (ti_events (tags_step s e))" if "Change \<in> set (ti_events s)" for s e
    using that rem add by (cases e) (auto simp: tags_keydown_def tags_keypress_def tags_focusout_def tags_remove_click_def
        tag_removeAll_def pushVal_def Let_def)
  then show "Change \<in> set (ti_events s) \<Longrightarrow> ?thesis" by (induction es arbitrary: s) simp_all
qed

text \<open>
  C31: the value of a text field read back. When the value of the element of a tags input, the
  tags joined with commas or an initial value that was refused, initialises a new tags input with
  the same options whose handlers let the tags pass, the new one holds the same tags in the same
  order.
\<close>

theorem tags_value_roundtrip:
  assumes "s = foldl tags_step (tags_build (new_tags opts False multi [v])) es"
    "\<forall>i\<in>set (itemsArray s). \<not> cancelAdd opts i"
  shows "itemsArray (tags_build (new_tags opts False multi' [items_string (ti_value s)])) = itemsArray s"
proof -
  have inv: "input_inv [v] s" unfolding assms(1) by (rule tags.run_keeps [OF tags_build_inv])
  have s: "ti_options s = opts" "\<not> isSelect s" by (simp_all add: assms(1) tags_run_keeps tags_build_keeps new_tags_def)
  have build: "tags_build (new_tags opts False m [x]) = tag_add x False (new_tags opts False m [x])" for m x
    by (simp add: tags_build_def new_tags_def items_string_def)
  show ?thesis
  proof (cases "Change \<in> set (ti_events s)")
    case True
    then have "items_ok opts False (itemsArray s)" "ti_value s = itemsArray s"
      using inv s by (auto simp: input_inv_def tags_inv_def value_ok_def)
    then show ?thesis using value_accepted [OF _ assms(2) refl] by (simp add: build)
  next
    case False
    then have "Change \<notin> set (ti_events (tags_build (new_tags opts False multi [v])))" using events_grow assms(1) by blast
    moreover have "input_inv [v] (tags_build (new_tags opts False multi [v]))" by (rule tags_build_inv)
    moreover have "\<not> isSelect (tags_build (new_tags opts False multi [v]))" by (simp add: tags_build_keeps new_tags_def)
    ultimately have "itemsArray (tags_build (new_tags opts False multi [v])) = []" by (simp add: input_inv_def value_ok_def)
    moreover have "ti_value s = [v]" "itemsArray s = []" using inv s False by (auto simp: input_inv_def value_ok_def)
    moreover have "new_tags opts False multi' [v] = new_tags opts False multi [v]" by (simp add: new_tags_def)
    ultimately show ?thesis by (simp add: items_string_def)
  qed
qed


definition sample_tag_options :: tag_options where
  "sample_tag_options = \<lparr>maxTags = None, maxChars = None, maxInputLength = None, confirmKeys = [Key 13, Key 44],
     freeInput = True, addOnBlur = True, trimValue = True, allowDuplicates = False,
     cancelAdd = (\<lambda>_. False), cancelRemove = (\<lambda>_. False)\<rparr>"

theorem tags_value_roundtrip_witness:
  "itemsArray (tags_build (new_tags sample_tag_options False False [items_string (ti_value
      (foldl tags_step (tags_build (new_tags sample_tag_options False False [''b, a''])) [TypeText '' c '', FocusOut]))])) = [''b'', ''a'', ''c'']"
proof -
  have "itemsArray (foldl tags_step (tags_build (new_tags sample_tag_options False False [''b, a'']))
      [TypeText '' c '', FocusOut]) = [''b'', ''a'', ''c'']" by code_simp
  then show ?thesis
    using tags_value_roundtrip [OF refl, of sample_tag_options False "''b, a''" "[TypeText '' c '', FocusOut]" False]
    by (simp add: sample_tag_options_def)
qed

section \<open>Three defects\<close>

text \<open>
  An initial value that is refused, because it is longer than \<open>maxInputLength\<close> allows here, stays
  in the field, so that the form sends it, while the widget shows no tag.
\<close>

lemma refused_value_stays:
  "let s = tags_build (new_tags (sample_tag_options\<lparr>maxInputLength := Some 3\<rparr>) False False [''abcdef''])
   in itemsArray s = [] \<and> row_tags (ti_row s) = [] \<and> ti_value s = [''abcdef'']"
  by code_simp

text \<open>
  With duplicates allowed, removing a tag that is there twice takes both elements off the
  screen but only one item out of the array and the value.
\<close>

lemma duplicate_removed_twice:
  assumes "itemsArray s = [i, i]" "ti_row s = [TagElem i, TagElem i, InputWrapper]" "i \<noteq> []" "\<not> cancelRemove (ti_options s) i"
  shows "row_tags (ti_row (tag_remove (Some i) False s)) = [] \<and> itemsArray (tag_remove (Some i) False s) = [i]"
  using assms by (auto simp: tag_remove_def Let_def split: option.split)

text \<open>
  The class that marks a full widget is taken off only by the test against \<open>maxTags\<close>: without
  that option a widget once full by \<open>maxInputLength\<close> keeps it when tags are removed.
\<close>

lemma full_mark_stays:
  "maxTags (ti_options s) = None \<Longrightarrow> ti_full (tag_remove item dont s) = ti_full s"
  by (auto simp: tag_remove_def pushVal_def Let_def split: option.split)

end
