(* ===== verification/Js_Pattern.thy ===== *)
theory Js_Pattern
  imports Js_Number
begin

text \<open>
  Regular expression literals as the validation rules use them: character classes, groups,
  alternatives and counted repetition. \<open>rests\<close> is the backtracking search of the language
  standard, which yields what is left of the input after every way to match, and in the
  order the engine tries them; \<open>matches\<close> is the relation it decides.
\<close>

section \<open>Expressions\<close>

datatype rx =
    REmpty
  | RClass "char \<Rightarrow> bool"
  | RSeq rx rx
  | RAlt rx rx
  | RStar rx

primrec rx_text :: "string \<Rightarrow> rx" where
  "rx_text [] = REmpty"
| "rx_text (c # cs) = RSeq (RClass (\<lambda>d. d = c)) (rx_text cs)"

primrec rx_times :: "nat \<Rightarrow> rx \<Rightarrow> rx" where
  "rx_times 0 r = REmpty"
| "rx_times (Suc n) r = RSeq r (rx_times n r)"

definition rx_opt :: "rx \<Rightarrow> rx" where
  "rx_opt r = RAlt r REmpty"

definition rx_plus :: "rx \<Rightarrow> rx" where
  "rx_plus r = RSeq r (RStar r)"

text \<open>\<open>r{m,n}\<close> with \<open>n = m + k\<close>.\<close>

primrec rx_upto :: "nat \<Rightarrow> rx \<Rightarrow> rx" where
  "rx_upto 0 r = REmpty"
| "rx_upto (Suc k) r = rx_opt (RSeq r (rx_upto k r))"

definition rx_between :: "nat \<Rightarrow> nat \<Rightarrow> rx \<Rightarrow> rx" where
  "rx_between m n r = RSeq (rx_times m r) (rx_upto (n - m) r)"

text \<open>A sequence and a choice of several expressions; classes.\<close>

definition rx_seq :: "rx list \<Rightarrow> rx" where
  "rx_seq rs = foldr RSeq rs REmpty"

fun rx_alts :: "rx list \<Rightarrow> rx" where
  "rx_alts [] = RClass (\<lambda>_. False)"
| "rx_alts [r] = r"
| "rx_alts (r # rs) = RAlt r (rx_alts rs)"

definition in_range :: "char \<Rightarrow> char \<Rightarrow> char \<Rightarrow> bool" where
  "in_range a b c \<longleftrightarrow> char_code a \<le> char_code c \<and> char_code c \<le> char_code b"

definition rx_range :: "char \<Rightarrow> char \<Rightarrow> rx" where
  "rx_range a b = RClass (in_range a b)"

definition rx_any :: "string \<Rightarrow> rx" where
  "rx_any cs = RClass (\<lambda>c. c \<in> set cs)"

definition rx_digit :: rx where
  "rx_digit = RClass is_digit_char"

definition is_upper :: "char \<Rightarrow> bool" where
  "is_upper c \<longleftrightarrow> 65 \<le> char_code c \<and> char_code c \<le> 90"

definition is_letter :: "char \<Rightarrow> bool" where
  "is_letter c \<longleftrightarrow> is_upper c \<or> 97 \<le> char_code c \<and> char_code c \<le> 122"

section \<open>Matching\<close>

inductive matches :: "rx \<Rightarrow> string \<Rightarrow> bool" where
  empty: "matches REmpty []"
| cls: "P c \<Longrightarrow> matches (RClass P) [c]"
| seq: "matches r u \<Longrightarrow> matches q v \<Longrightarrow> matches (RSeq r q) (u @ v)"
| alt1: "matches r u \<Longrightarrow> matches (RAlt r q) u"
| alt2: "matches q u \<Longrightarrow> matches (RAlt r q) u"
| star0: "matches (RStar r) []"
| star1: "matches r u \<Longrightarrow> matches (RStar r) v \<Longrightarrow> matches (RStar r) (u @ v)"

inductive_simps matches_empty [simp]: "matches REmpty u"
inductive_simps matches_class: "matches (RClass P) u"
inductive_simps matches_seq: "matches (RSeq r q) u"
inductive_simps matches_alt [simp]: "matches (RAlt r q) u"
inductive_cases matches_starE: "matches (RStar r) u"

function rests :: "rx \<Rightarrow> string \<Rightarrow> string list" where
  "rests REmpty s = [s]"
| "rests (RClass P) s = (case s of [] \<Rightarrow> [] | c # cs \<Rightarrow> if P c then [cs] else [])"
| "rests (RSeq r q) s = concat (map (rests q) (rests r s))"
| "rests (RAlt r q) s = rests r s @ rests q s"
| "rests (RStar r) s =
     concat (map (\<lambda>t. if length t < length s then rests (RStar r) t else []) (rests r s)) @ [s]"
  by pat_completeness auto
termination
  by (relation "measures [\<lambda>(r, s). size r, \<lambda>(r, s). length s]") auto

declare rests.simps(5) [simp del]

lemma rests_star: "t \<in> set (rests (RStar r) s) \<longleftrightarrow>
    t = s \<or> (\<exists>v\<in>set (rests r s). length v < length s \<and> t \<in> set (rests (RStar r) v))"
  unfolding rests.simps(5) [of r s] by (simp split: if_splits) blast

lemma matches_star_step:
  "matches (RStar r) u \<Longrightarrow> u = [] \<or> (\<exists>v w. u = v @ w \<and> v \<noteq> [] \<and> matches r v \<and> matches (RStar r) w)"
proof (induction "RStar r" u rule: matches.induct)
  case (star1 u v)
  then show ?case by (cases "u = []") auto
qed simp

lemma rests_matches: "t \<in> set (rests r s) \<longleftrightarrow> (\<exists>u. s = u @ t \<and> matches r u)"
proof (induction r s arbitrary: t rule: rests.induct)
  case (2 P s)
  then show ?case by (cases s) (auto simp: matches_class Cons_eq_append_conv)
next
  case (3 r q s)
  show ?case
  proof
    assume "t \<in> set (rests (RSeq r q) s)"
    then obtain v where "v \<in> set (rests r s)" "t \<in> set (rests q v)" by auto
    then show "\<exists>u. s = u @ t \<and> matches (RSeq r q) u"
      using 3 by (metis append.assoc matches.seq)
  next
    assume "\<exists>u. s = u @ t \<and> matches (RSeq r q) u"
    then obtain u v where u: "s = u @ v @ t" "matches r u" "matches q v" by (auto simp: matches_seq)
    then have "v @ t \<in> set (rests r s)" using 3(1) by blast
    then show "t \<in> set (rests (RSeq r q) s)" using 3(2) u(3) by auto
  qed
next
  case (5 r s)
  show ?case
  proof
    assume "t \<in> set (rests (RStar r) s)"
    then consider "t = s" | v where "v \<in> set (rests r s)" "length v < length s" "t \<in> set (rests (RStar r) v)"
      by (subst (asm) rests_star) blast
    then show "\<exists>u. s = u @ t \<and> matches (RStar r) u"
    proof cases
      case 1
      then show ?thesis by (auto intro: matches.star0)
    next
      case 2
      obtain u where u: "s = u @ v" "matches r u" using 2(1) 5(1) by blast
      obtain w where w: "v = w @ t" "matches (RStar r) w" using 5(2) [OF 2(1,2)] 2(3) by blast
      show ?thesis using u w matches.star1 [OF u(2) w(2)] by auto
    qed
  next
    assume "\<exists>u. s = u @ t \<and> matches (RStar r) u"
    then obtain u where u: "s = u @ t" "matches (RStar r) u" by blast
    from matches_star_step [OF u(2)] show "t \<in> set (rests (RStar r) s)"
    proof
      assume "u = []"
      then show ?thesis using u(1) by (subst rests_star) simp
    next
      assume "\<exists>v w. u = v @ w \<and> v \<noteq> [] \<and> matches r v \<and> matches (RStar r) w"
      then obtain v w where vw: "u = v @ w" "v \<noteq> []" "matches r v" "matches (RStar r) w" by blast
      then have in1: "w @ t \<in> set (rests r s)" using u(1) 5(1) by auto
      moreover have l: "length (w @ t) < length s" using u(1) vw(1,2) by simp
      moreover have "t \<in> set (rests (RStar r) (w @ t))" using 5(2) [OF in1 l] vw(4) by blast
      ultimately show ?thesis by (subst rests_star) blast
    qed
  qed
qed (auto split: list.splits)

text \<open>\<open>/^r$/.test(s)\<close>, \<open>/^r/.test(s)\<close> and \<open>/r$/.test(s)\<close>.\<close>

definition rx_full :: "rx \<Rightarrow> string \<Rightarrow> bool" where
  "rx_full r s \<longleftrightarrow> [] \<in> set (rests r s)"

definition rx_front :: "rx \<Rightarrow> string \<Rightarrow> bool" where
  "rx_front r s \<longleftrightarrow> rests r s \<noteq> []"

definition rx_back :: "rx \<Rightarrow> string \<Rightarrow> bool" where
  "rx_back r s \<longleftrightarrow> list_ex (rx_full r) (map (\<lambda>n. drop n s) [0..<Suc (length s)])"

lemma rx_full_matches: "rx_full r s \<longleftrightarrow> matches r s"
  by (simp add: rx_full_def rests_matches)

lemma rx_front_matches: "rx_front r s \<longleftrightarrow> (\<exists>u v. s = u @ v \<and> matches r u)"
  unfolding rx_front_def using rests_matches [of _ r s] by (metis list.set_intros(1) list.set(1) empty_iff neq_Nil_conv)

lemma rx_back_matches: "rx_back r s \<longleftrightarrow> (\<exists>u v. s = u @ v \<and> matches r v)"
proof
  assume "rx_back r s"
  then have "\<exists>n\<in>set [0..<Suc (length s)]. matches r (drop n s)"
    by (simp only: rx_back_def list_ex_iff rx_full_matches set_map bex_simps)
  then obtain n where "matches r (drop n s)" by blast
  then show "\<exists>u v. s = u @ v \<and> matches r v" by (metis append_take_drop_id)
next
  assume "\<exists>u v. s = u @ v \<and> matches r v"
  then obtain u v where "s = u @ v" "matches r v" by blast
  then have "rx_full r (drop (length u) s)" "length u \<in> set [0..<Suc (length s)]" by (simp_all add: rx_full_matches)
  then show "rx_back r s" by (auto simp: rx_back_def list_ex_iff)
qed

section \<open>What the derived forms match\<close>

lemma matches_text [simp]: "matches (rx_text t) u \<longleftrightarrow> u = t"
  by (induction t arbitrary: u) (auto simp: matches_seq matches_class)

lemma matches_text_seq [simp]: "matches (RSeq (rx_text t) q) u \<longleftrightarrow> (\<exists>w. u = t @ w \<and> matches q w)"
  by (auto simp: matches_seq)

declare rx_text.simps [simp del]

lemma matches_class_iff [simp]: "matches (RClass P) u \<longleftrightarrow> (\<exists>c. u = [c] \<and> P c)"
  by (auto simp: matches_class)

lemma matches_class_seq [simp]: "matches (RSeq (RClass P) q) u \<longleftrightarrow> (\<exists>c w. u = c # w \<and> P c \<and> matches q w)"
proof -
  have "matches (RSeq (RClass P) q) u \<longleftrightarrow> (\<exists>v w. u = v @ w \<and> (\<exists>c. v = [c] \<and> P c) \<and> matches q w)"
    by (simp only: matches_seq matches_class_iff)
  then show ?thesis by (metis append_Cons append_Nil)
qed

lemma matches_opt [simp]: "matches (rx_opt r) u \<longleftrightarrow> u = [] \<or> matches r u"
  by (auto simp: rx_opt_def)

lemma matches_seqs [simp]:
  "matches (rx_seq []) u \<longleftrightarrow> u = []"
  "matches (rx_seq (r # rs)) u \<longleftrightarrow> (\<exists>v w. u = v @ w \<and> matches r v \<and> matches (rx_seq rs) w)"
  by (simp_all add: rx_seq_def matches_seq)

text \<open>A sequence that starts with one character, with a text, or with an optional part.\<close>

lemma matches_seqs_front:
  "matches (rx_seq (RClass P # rs)) u \<longleftrightarrow> (\<exists>c w. u = c # w \<and> P c \<and> matches (rx_seq rs) w)"
  "matches (rx_seq (rx_text t # rs)) u \<longleftrightarrow> (\<exists>w. u = t @ w \<and> matches (rx_seq rs) w)"
  "matches (rx_seq (rx_opt r # rs)) u \<longleftrightarrow> matches (rx_seq rs) u \<or> matches (rx_seq (r # rs)) u"
  "matches (rx_seq [r]) u \<longleftrightarrow> matches r u"
proof -
  have cons: "rx_seq (r # rs) = RSeq r (rx_seq rs)" for r rs by (simp add: rx_seq_def)
  show "matches (rx_seq (RClass P # rs)) u \<longleftrightarrow> (\<exists>c w. u = c # w \<and> P c \<and> matches (rx_seq rs) w)"
    "matches (rx_seq (rx_text t # rs)) u \<longleftrightarrow> (\<exists>w. u = t @ w \<and> matches (rx_seq rs) w)"
    unfolding cons by simp_all
qed auto

lemma matches_alts [simp]: "matches (rx_alts rs) u \<longleftrightarrow> (\<exists>r\<in>set rs. matches r u)"
  by (induction rs rule: rx_alts.induct) auto

lemma matches_star_class [simp]: "matches (RStar (RClass P)) u \<longleftrightarrow> list_all P u"
proof
  show "matches (RStar (RClass P)) u \<Longrightarrow> list_all P u"
    by (induction "RStar (RClass P)" u rule: matches.induct) auto
  show "list_all P u \<Longrightarrow> matches (RStar (RClass P)) u"
  proof (induction u)
    case (Cons c u)
    then show ?case using matches.star1 [of "RClass P" "[c]" u] by simp
  qed (simp add: matches.star0)
qed

lemma matches_times: "matches (rx_times n r) u \<longleftrightarrow> (\<exists>us. length us = n \<and> u = concat us \<and> list_all (matches r) us)"
proof (induction n arbitrary: u)
  case (Suc n)
  show ?case
  proof
    assume "matches (rx_times (Suc n) r) u"
    then obtain v us where "matches r v" "length us = n" "u = v @ concat us" "list_all (matches r) us"
      using Suc by (auto simp: matches_seq)
    then show "\<exists>us. length us = Suc n \<and> u = concat us \<and> list_all (matches r) us"
      by (intro exI [of _ "v # us"]) simp
  next
    assume "\<exists>us. length us = Suc n \<and> u = concat us \<and> list_all (matches r) us"
    then obtain us where us: "length us = Suc n" "u = concat us" "list_all (matches r) us" by blast
    then obtain v ws where "us = v # ws" by (cases us) auto
    then show "matches (rx_times (Suc n) r) u" using us Suc by (auto simp: matches_seq)
  qed
qed auto

lemma concat_singles: "list_all (\<lambda>u. \<exists>c. u = [c] \<and> P c) us \<Longrightarrow> length (concat us) = length us \<and> list_all P (concat us)"
  by (induction us) auto

lemma matches_times_class [simp]: "matches (rx_times n (RClass P)) u \<longleftrightarrow> length u = n \<and> list_all P u"
proof (induction n arbitrary: u)
  case (Suc n)
  then show ?case by (cases u) auto
qed auto

lemma matches_plus_class [simp]: "matches (rx_plus (RClass P)) u \<longleftrightarrow> u \<noteq> [] \<and> list_all P u"
  by (cases u) (auto simp: rx_plus_def)

lemma matches_upto_class [simp]: "matches (rx_upto k (RClass P)) u \<longleftrightarrow> length u \<le> k \<and> list_all P u"
proof (induction k arbitrary: u)
  case (Suc k)
  then show ?case by (cases u) auto
qed auto

lemma matches_between_class [simp]:
  assumes "m \<le> n"
  shows "matches (rx_between m n (RClass P)) u \<longleftrightarrow> m \<le> length u \<and> length u \<le> n \<and> list_all P u"
proof
  show "matches (rx_between m n (RClass P)) u \<Longrightarrow> m \<le> length u \<and> length u \<le> n \<and> list_all P u"
    using assms by (auto simp: rx_between_def matches_seq)
  show "m \<le> length u \<and> length u \<le> n \<and> list_all P u \<Longrightarrow> matches (rx_between m n (RClass P)) u"
    unfolding rx_between_def matches_seq
    by (intro exI [of _ "take m u"] exI [of _ "drop m u"]) (auto simp: list_all_iff dest: in_set_takeD in_set_dropD)
qed

lemma matches_star_list: "matches (RStar r) u \<longleftrightarrow> (\<exists>us. u = concat us \<and> list_all (matches r) us)"
proof
  show "matches (RStar r) u \<Longrightarrow> \<exists>us. u = concat us \<and> list_all (matches r) us"
  proof (induction "RStar r" u rule: matches.induct)
    case star0
    show ?case by (intro exI [of _ "[]"]) simp
  next
    case (star1 u v)
    then obtain us where "v = concat us" "list_all (matches r) us" by blast
    then show ?case using star1(1) by (intro exI [of _ "u # us"]) simp
  qed
  show "\<exists>us. u = concat us \<and> list_all (matches r) us \<Longrightarrow> matches (RStar r) u"
  proof -
    have "list_all (matches r) us \<Longrightarrow> matches (RStar r) (concat us)" for us
      by (induction us) (auto intro: matches.star0 matches.star1)
    then show "\<exists>us. u = concat us \<and> list_all (matches r) us \<Longrightarrow> matches (RStar r) u" by blast
  qed
qed

lemmas rx_class_defs = rx_digit_def rx_range_def rx_any_def

end
