(* ===== verification/Validator_Methods.thy ===== *)
theory Validator_Methods
  imports Js_Pattern
begin

text \<open>
  The rules on text that \<open>jquery.validate.js\<close> has built in: e-mail, ISO date, number, digits
  and credit card, as tests of a value that is not blank. The credit card rule is the Luhn
  sum: the lemmas relate its loop to the definition of the sum and show which slips of the
  keyboard it finds.
\<close>

section \<open>The rules\<close>

definition local_char :: "char \<Rightarrow> bool" where
  "local_char c \<longleftrightarrow> is_letter c \<or> is_digit_char c \<or> c \<in> set ''.!#$%&*+/=?^_`{|}~-'' \<or> c = CHR 0x27"

definition alnum :: "char \<Rightarrow> bool" where
  "alnum c \<longleftrightarrow> is_letter c \<or> is_digit_char c"

definition label_char :: "char \<Rightarrow> bool" where
  "label_char c \<longleftrightarrow> alnum c \<or> c = CHR ''-''"

definition rx_label :: rx where
  "rx_label = RSeq (RClass alnum) (rx_opt (RSeq (rx_between 0 61 (RClass label_char)) (RClass alnum)))"

definition email :: "string \<Rightarrow> bool" where
  "email = rx_full (rx_seq [rx_plus (RClass local_char), rx_text ''@'', rx_label,
     RStar (RSeq (rx_text ''.'') rx_label)])"

definition rx_month :: rx where
  "rx_month = RAlt (RSeq (rx_opt (rx_text ''0'')) (rx_range CHR ''1'' CHR ''9'')) (RSeq (rx_text ''1'') (rx_any ''012''))"

definition rx_day :: rx where
  "rx_day = rx_alts [RSeq (rx_opt (rx_text ''0'')) (rx_range CHR ''1'' CHR ''9''),
     RSeq (rx_any ''12'') (rx_range CHR ''0'' CHR ''9''), RSeq (rx_text ''3'') (rx_any ''01'')]"

definition dateISO :: "string \<Rightarrow> bool" where
  "dateISO = rx_full (rx_seq [rx_times 4 rx_digit, rx_any ''/-'', rx_month, rx_any ''/-'', rx_day])"

definition number :: "string \<Rightarrow> bool" where
  "number = rx_full (rx_seq [rx_opt (rx_text ''-''),
     rx_opt (RAlt (rx_plus rx_digit)
       (RSeq (rx_between 1 3 rx_digit) (rx_plus (RSeq (rx_text '','') (rx_times 3 rx_digit))))),
     rx_opt (RSeq (rx_text ''.'') (rx_plus rx_digit))])"

definition digits :: "string \<Rightarrow> bool" where
  "digits = rx_full (rx_plus rx_digit)"

text \<open>
  The loop runs over the digits from the last one to the first; \<open>bEven\<close> changes on every
  round.
\<close>

fun luhn_loop :: "string \<Rightarrow> bool \<Rightarrow> int \<Rightarrow> int" where
  "luhn_loop [] bEven nCheck = nCheck"
| "luhn_loop (cDigit # cs) bEven nCheck =
     (let nDigit = digit_val cDigit;
          nDigit = (if bEven then (if nDigit * 2 > 9 then nDigit * 2 - 9 else nDigit * 2) else nDigit)
      in luhn_loop cs (\<not> bEven) (nCheck + nDigit))"

definition creditcard :: "string \<Rightarrow> bool" where
  "creditcard value =
     (if \<not> list_all (\<lambda>c. is_digit_char c \<or> c \<in> set '' -'') value then False
      else
      (let value = filter is_digit_char value
       in if length value < 13 \<or> length value > 19 then False
          else js_rem (luhn_loop (rev value) False 0) 10 = 0))"

section \<open>Shapes\<close>

lemma digits_spec: "digits v \<longleftrightarrow> v \<noteq> [] \<and> list_all is_digit_char v"
  by (simp add: digits_def rx_full_matches rx_digit_def)

text \<open>A lone minus sign passes for a number.\<close>

lemma number_minus: "number ''-''"
  by (simp add: number_def rx_full_matches matches_seqs_front del: matches_seqs)

definition domain_label :: "string \<Rightarrow> bool" where
  "domain_label l \<longleftrightarrow> 1 \<le> length l \<and> length l \<le> 63 \<and> list_all label_char l \<and> alnum (hd l) \<and> alnum (last l)"

lemma label_iff: "matches rx_label l \<longleftrightarrow> domain_label l"
proof (cases l)
  case (Cons c cs)
  show ?thesis
  proof (cases cs rule: rev_cases)
    case Nil
    then show ?thesis using Cons by (auto simp: rx_label_def domain_label_def label_char_def matches_seq)
  next
    case (snoc ds d)
    have "matches (RSeq (rx_between 0 61 (RClass label_char)) (RClass alnum)) (ds @ [d]) \<longleftrightarrow>
        length ds \<le> 61 \<and> list_all label_char ds \<and> alnum d"
      by (auto simp: matches_seq)
    then show ?thesis
      using Cons snoc
      by (auto simp: rx_label_def domain_label_def label_char_def simp del: matches_between_class)
  qed
qed (simp add: rx_label_def domain_label_def)

lemma labels_iff:
  "matches (RStar (RSeq (rx_text ''.'') rx_label)) u \<longleftrightarrow> (\<exists>ls. u = concat (map ((#) CHR ''.'') ls) \<and> list_all domain_label ls)"
proof -
  have dot: "matches (RSeq (rx_text ''.'') rx_label) w \<longleftrightarrow> (\<exists>l. w = CHR ''.'' # l \<and> domain_label l)" for w
    by (auto simp: label_iff matches_seq)
  have "(\<exists>us. u = concat us \<and> list_all (\<lambda>w. \<exists>l. w = CHR ''.'' # l \<and> domain_label l) us) \<longleftrightarrow>
      (\<exists>ls. u = concat (map ((#) CHR ''.'') ls) \<and> list_all domain_label ls)"
  proof
    assume "\<exists>us. u = concat us \<and> list_all (\<lambda>w. \<exists>l. w = CHR ''.'' # l \<and> domain_label l) us"
    then obtain us where us: "u = concat us" "list_all (\<lambda>w. \<exists>l. w = CHR ''.'' # l \<and> domain_label l) us" by blast
    then have "us = map ((#) CHR ''.'') (map tl us) \<and> list_all domain_label (map tl us)"
      by (auto simp: list_all_iff intro!: map_idI [symmetric])
    then show "\<exists>ls. u = concat (map ((#) CHR ''.'') ls) \<and> list_all domain_label ls" using us(1) by metis
  next
    assume "\<exists>ls. u = concat (map ((#) CHR ''.'') ls) \<and> list_all domain_label ls"
    then obtain ls where "u = concat (map ((#) CHR ''.'') ls)" "list_all domain_label ls" by blast
    then show "\<exists>us. u = concat us \<and> list_all (\<lambda>w. \<exists>l. w = CHR ''.'' # l \<and> domain_label l) us"
      by (intro exI [of _ "map ((#) CHR ''.'') ls"]) (auto simp: list_all_iff)
  qed
  then show ?thesis unfolding matches_star_list dot .
qed

section \<open>E-mail addresses\<close>

text \<open>
  The definition of the HTML standard: a text before the one at-sign, and after it labels of
  up to 63 letters, digits and inner hyphens, separated by dots.
\<close>

definition email_ref :: "string \<Rightarrow> bool" where
  "email_ref v = (case js_split CHR ''@'' v of
     [l, d] \<Rightarrow> l \<noteq> [] \<and> list_all local_char l \<and> list_all domain_label (js_split CHR ''.'' d)
   | _ \<Rightarrow> False)"

lemma label_chars: "domain_label l \<Longrightarrow> c \<in> set l \<Longrightarrow> c \<noteq> CHR ''.'' \<and> c \<noteq> CHR ''@''"
proof -
  assume "domain_label l" "c \<in> set l"
  then have "label_char c" by (auto simp: domain_label_def list_all_iff)
  then show ?thesis
    by (auto simp: label_char_def alnum_def is_letter_def is_upper_def is_digit_char_def char_code_def Let_def)
qed

lemma local_no_at: "list_all local_char l \<Longrightarrow> CHR ''@'' \<notin> set l"
proof -
  have "\<not> local_char CHR ''@''" by code_simp
  then show "list_all local_char l \<Longrightarrow> ?thesis" by (auto simp: list_all_iff)
qed

lemma email_shape: "email v \<longleftrightarrow> (\<exists>l ls. v = l @ CHR ''@'' # join ''.'' ls \<and> l \<noteq> [] \<and> list_all local_char l \<and>
    ls \<noteq> [] \<and> list_all domain_label ls)"
proof -
  have "email v \<longleftrightarrow> (\<exists>l d. v = l @ CHR ''@'' # d \<and> l \<noteq> [] \<and> list_all local_char l \<and>
      (\<exists>w ws. d = w @ concat (map ((#) CHR ''.'') ws) \<and> domain_label w \<and> list_all domain_label ws))"
    by (simp add: email_def rx_full_matches label_iff labels_iff) blast
  also have "\<dots> \<longleftrightarrow> (\<exists>l ls. v = l @ CHR ''@'' # join ''.'' ls \<and> l \<noteq> [] \<and> list_all local_char l \<and>
      ls \<noteq> [] \<and> list_all domain_label ls)"
    by (metis (no_types, opaque_lifting) join_concat list.pred_inject(2) neq_Nil_conv)
  finally show ?thesis .
qed

text \<open>
  C20: the e-mail rule accepts exactly the addresses of that definition.
\<close>

theorem email_spec: "email v \<longleftrightarrow> email_ref v"
proof
  assume "email v"
  then obtain l ls where v: "v = l @ CHR ''@'' # join ''.'' ls" "l \<noteq> []" "list_all local_char l" "ls \<noteq> []"
    "list_all domain_label ls" by (auto simp: email_shape)
  have "\<forall>w\<in>set ls. CHR ''.'' \<notin> set w \<and> CHR ''@'' \<notin> set w" using v(5) label_chars by (auto simp: list_all_iff)
  moreover have "set (join ''.'' ls) \<subseteq> \<Union> (set ` set ls) \<union> {CHR ''.''}"
    by (induction "''.''" ls rule: join.induct) auto
  ultimately have "CHR ''@'' \<notin> set (join ''.'' ls)" "js_split CHR ''.'' (join ''.'' ls) = ls"
    using split_join [OF v(4)] by auto
  then show "email_ref v" using v local_no_at [OF v(3)] by (simp add: email_ref_def js_split_append js_split_plain)
next
  assume ref: "email_ref v"
  then obtain l d where ld: "js_split CHR ''@'' v = [l, d]" by (auto simp: email_ref_def split: list.splits)
  then have "v = l @ CHR ''@'' # d" using join_js_split [of "CHR ''@''" v] by simp
  then have "v = l @ CHR ''@'' # join ''.'' (js_split CHR ''.'' d)" by (simp add: join_js_split)
  moreover have "l \<noteq> [] \<and> list_all local_char l \<and> list_all domain_label (js_split CHR ''.'' d)"
    using ref ld by (simp add: email_ref_def)
  ultimately show "email v" unfolding email_shape by (metis js_split_nonempty)
qed

section \<open>Credit card numbers\<close>

text \<open>
  The Luhn sum by position: every second digit from the right is doubled and replaced by the
  sum of the digits of the double.
\<close>

definition luhn_digit :: "nat \<Rightarrow> int \<Rightarrow> int" where
  "luhn_digit i d = (if even i then d else (2 * d) div 10 + (2 * d) mod 10)"

definition luhn_sum :: "string \<Rightarrow> int" where
  "luhn_sum v = (\<Sum>i<length v. luhn_digit i (digit_val (rev v ! i)))"

lemma digit_val_range: "is_digit_char c \<Longrightarrow> 0 \<le> digit_val c \<and> digit_val c \<le> 9"
  by (auto simp: is_digit_char_def digit_val_def Let_def)

lemma digit_val_inj: "is_digit_char c \<Longrightarrow> is_digit_char d \<Longrightarrow> digit_val c = digit_val d \<longleftrightarrow> c = d"
  by (auto simp: digit_val_def char_code_def)

lemma digit_cases:
  "0 \<le> d \<Longrightarrow> d \<le> 9 \<Longrightarrow> d = 0 \<or> d = 1 \<or> d = 2 \<or> d = 3 \<or> d = 4 \<or> d = 5 \<or> d = 6 \<or> d = 7 \<or> d = 8 \<or> d = 9"
  for d :: int
  by presburger

lemma luhn_loop_sum:
  "list_all is_digit_char cs \<Longrightarrow>
   luhn_loop cs b n = n + (\<Sum>i<length cs. luhn_digit (i + (if b then 1 else 0)) (digit_val (cs ! i)))"
proof (induction cs b n rule: luhn_loop.induct)
  case (2 c cs b n)
  let ?d = "digit_val c"
  have d: "0 \<le> ?d" "?d \<le> 9" using 2(2) digit_val_range [of c] by auto
  have "luhn_digit (if b then 1 else 0) ?d =
      (if b then (if ?d * 2 > 9 then ?d * 2 - 9 else ?d * 2) else ?d)"
    using digit_cases [OF d] by (auto simp: luhn_digit_def)
  moreover have "(\<Sum>i<length cs. luhn_digit (i + (if \<not> b then 1 else 0)) (digit_val (cs ! i))) =
      (\<Sum>i<length cs. luhn_digit (Suc i + (if b then 1 else 0)) (digit_val (cs ! i)))"
    by (rule sum.cong) (auto simp: luhn_digit_def)
  ultimately show ?case
    using 2 by (simp add: Let_def sum.lessThan_Suc_shift del: sum.lessThan_Suc)
qed simp

lemma luhn_loop_spec: "list_all is_digit_char v \<Longrightarrow> luhn_loop (rev v) False 0 = luhn_sum v"
  using luhn_loop_sum [of "rev v" False 0] by (simp add: luhn_sum_def)

lemma luhn_digit_range: "0 \<le> d \<Longrightarrow> d \<le> 9 \<Longrightarrow> 0 \<le> luhn_digit i d \<and> luhn_digit i d \<le> 9"
  using digit_cases [of d] by (auto simp: luhn_digit_def)

lemma luhn_digit_inj: "0 \<le> d \<Longrightarrow> d \<le> 9 \<Longrightarrow> 0 \<le> e \<Longrightarrow> e \<le> 9 \<Longrightarrow> luhn_digit i d = luhn_digit i e \<longleftrightarrow> d = e"
  using digit_cases [of d] digit_cases [of e] by (cases "even i") (auto simp: luhn_digit_def)

text \<open>What doubling adds to a digit, and when two exchanged digits keep the sum.\<close>

definition luhn_gain :: "int \<Rightarrow> int" where
  "luhn_gain d = (if d \<le> 4 then d else d - 9)"

lemma luhn_odd: "0 \<le> d \<Longrightarrow> d \<le> 9 \<Longrightarrow> luhn_digit i d = (if even i then d else d + luhn_gain d)"
  using digit_cases [of d] by (auto simp: luhn_digit_def luhn_gain_def)

lemma luhn_swap_digits:
  assumes "0 \<le> a" "a \<le> 9" "0 \<le> b" "b \<le> 9"
    "10 dvd luhn_digit (Suc m) a + luhn_digit m b - (luhn_digit (Suc m) b + luhn_digit m a)"
  shows "a = b \<or> {a, b} = {0, 9}"
proof -
  have "10 dvd luhn_gain a - luhn_gain b"
    using assms(5) dvd_diff_commute [of 10 "luhn_gain a" "luhn_gain b"] by (cases "even m") (simp_all add: luhn_odd assms(1-4) algebra_simps)
  moreover have "\<bar>luhn_gain a - luhn_gain b\<bar> < 10" using assms(1-4) by (auto simp: luhn_gain_def)
  ultimately have "luhn_gain a = luhn_gain b" using dvd_imp_le_int [of "luhn_gain a - luhn_gain b" 10] by auto
  then have "a = b \<or> a = 0 \<and> b = 9 \<or> a = 9 \<and> b = 0" using assms(1-4) by (simp add: luhn_gain_def split: if_splits)
  then show ?thesis by auto
qed

lemma luhn_sum_Cons: "luhn_sum (c # v) = luhn_sum v + luhn_digit (length v) (digit_val c)"
  by (simp add: luhn_sum_def nth_append)

lemma luhn_sum_change:
  "luhn_sum (xs @ a # ys) - luhn_sum (xs @ b # ys) = luhn_digit (length ys) (digit_val a) - luhn_digit (length ys) (digit_val b)"
  by (induction xs) (simp_all add: luhn_sum_Cons)

lemma luhn_sum_swap:
  "luhn_sum (xs @ a # b # ys) - luhn_sum (xs @ b # a # ys) =
   luhn_digit (Suc (length ys)) (digit_val a) + luhn_digit (length ys) (digit_val b) -
   (luhn_digit (Suc (length ys)) (digit_val b) + luhn_digit (length ys) (digit_val a))"
  by (induction xs) (simp_all add: luhn_sum_Cons)

lemma luhn_sum_nonneg: "list_all is_digit_char v \<Longrightarrow> 0 \<le> luhn_sum v"
proof (induction v)
  case (Cons c v)
  then show ?case using digit_val_range [of c] luhn_digit_range [of "digit_val c" "length v"] by (simp add: luhn_sum_Cons)
qed (simp add: luhn_sum_def)

lemma creditcard_iff:
  "creditcard v \<longleftrightarrow> list_all (\<lambda>c. is_digit_char c \<or> c \<in> set '' -'') v \<and>
     13 \<le> length (filter is_digit_char v) \<and> length (filter is_digit_char v) \<le> 19 \<and> 10 dvd luhn_sum (filter is_digit_char v)"
proof -
  let ?f = "filter is_digit_char v"
  have ds: "list_all is_digit_char ?f" by (simp add: list_all_iff)
  then have "js_rem (luhn_loop (rev ?f) False 0) 10 = luhn_sum ?f mod 10"
    using luhn_sum_nonneg [OF ds] by (simp add: luhn_loop_spec)
  then show ?thesis by (auto simp: creditcard_def Let_def dvd_eq_mod_eq_0)
qed

text \<open>
  C19: the credit card rule. The loop computes the Luhn sum: a value is accepted exactly when
  it consists of digits, spaces and dashes, has 13 to 19 digits, and the digits, every second
  one from the right doubled and its digits added, sum up to a multiple of ten.
\<close>

theorem creditcard_luhn:
  "creditcard v \<longleftrightarrow>
     list_all (\<lambda>c. is_digit_char c \<or> c = CHR '' '' \<or> c = CHR ''-'') v \<and>
     (let ds = map digit_val (filter is_digit_char v)
      in 13 \<le> length ds \<and> length ds \<le> 19 \<and>
         10 dvd (\<Sum>i<length ds. if even i then rev ds ! i else (2 * rev ds ! i) div 10 + (2 * rev ds ! i) mod 10))"
proof -
  let ?f = "filter is_digit_char v"
  have "luhn_sum ?f = (\<Sum>i<length ?f. if even i then rev (map digit_val ?f) ! i
      else (2 * rev (map digit_val ?f) ! i) div 10 + (2 * rev (map digit_val ?f) ! i) mod 10)"
    unfolding luhn_sum_def luhn_digit_def by (rule sum.cong) (simp_all add: rev_map)
  then show ?thesis by (simp add: creditcard_iff Let_def)
qed

text \<open>
  two slips of the keyboard. When a number is accepted, the number with one digit typed
  wrong is not, nor is the number with two different neighbouring digits exchanged, unless
  they are 0 and 9.
\<close>

lemma creditcard_slips:
  assumes "creditcard (xs @ a # ys)" "is_digit_char a" "is_digit_char b" "a \<noteq> b"
  shows "\<not> creditcard (xs @ b # ys) \<and>
    (ys = b # zs \<and> {digit_val a, digit_val b} \<noteq> {0, 9} \<longrightarrow> \<not> creditcard (xs @ b # a # zs))"
proof -
  let ?f = "filter is_digit_char" and ?n = "length (filter is_digit_char ys)" and ?a = "digit_val a" and ?b = "digit_val b"
  have r: "0 \<le> ?a" "?a \<le> 9" "0 \<le> ?b" "?b \<le> 9" "?a \<noteq> ?b"
    using digit_val_range assms(2-4) digit_val_inj [OF assms(2,3)] by auto
  have ten: "10 dvd luhn_sum (?f xs @ a # ?f ys)" using assms(1,2) by (simp add: creditcard_iff)
  have "\<not> 10 dvd luhn_sum (?f xs @ b # ?f ys)"
  proof
    assume "10 dvd luhn_sum (?f xs @ b # ?f ys)"
    then have "10 dvd luhn_sum (?f xs @ a # ?f ys) - luhn_sum (?f xs @ b # ?f ys)" by (rule dvd_diff [OF ten])
    then have "10 dvd luhn_digit ?n ?a - luhn_digit ?n ?b" by (simp only: luhn_sum_change)
    moreover have "\<bar>luhn_digit ?n ?a - luhn_digit ?n ?b\<bar> < 10"
      using luhn_digit_range [of ?a ?n] luhn_digit_range [of ?b ?n] r by linarith
    ultimately have "luhn_digit ?n ?a = luhn_digit ?n ?b" using dvd_imp_le_int [of "luhn_digit ?n ?a - luhn_digit ?n ?b" 10] by auto
    then show False using luhn_digit_inj [OF r(1-4)] r(5) by simp
  qed
  moreover have "\<not> 10 dvd luhn_sum (?f xs @ b # a # ?f zs)" if ys: "ys = b # zs" "{?a, ?b} \<noteq> {0, 9}"
  proof
    let ?m = "length (?f zs)"
    have ten': "10 dvd luhn_sum (?f xs @ a # b # ?f zs)" using ten ys(1) assms(3) by simp
    assume "10 dvd luhn_sum (?f xs @ b # a # ?f zs)"
    then have "10 dvd luhn_sum (?f xs @ a # b # ?f zs) - luhn_sum (?f xs @ b # a # ?f zs)" by (rule dvd_diff [OF ten'])
    then have "10 dvd luhn_digit (Suc ?m) ?a + luhn_digit ?m ?b - (luhn_digit (Suc ?m) ?b + luhn_digit ?m ?a)" by (simp only: luhn_sum_swap)
    then show False using luhn_swap_digits [OF r(1-4)] r(5) ys(2) by blast
  qed
  ultimately show ?thesis using assms(2,3) by (auto simp: creditcard_iff)
qed

end
