(* ===== verification/Additional_Methods.thy ===== *)
theory Additional_Methods
  imports Validator_Methods Js_Date "HOL-Library.Word"
begin

unbundle bit_operations_syntax

text \<open>
  The rules \<open>additional-methods.js\<close> adds to the validation plugin, as tests of a value that
  is not blank: account numbers with their check sums, tax numbers, cards by issuer, dates,
  addresses, post codes, telephone numbers and word counts. Where a rule does arithmetic the
  lemmas say what it accepts; several do less than their comments say.
\<close>

section \<open>Conversions\<close>

text \<open>
  \<open>toUpperCase\<close> on the Latin-1 range, where the sharp s becomes two letters. (The micro sign
  and the y with diaeresis have capitals outside the range; they stay as they are.)
\<close>

definition js_upper_char :: "char \<Rightarrow> string" where
  "js_upper_char c =
     (let n = char_code c
      in if 97 \<le> n \<and> n \<le> 122 \<or> 224 \<le> n \<and> n \<le> 254 \<and> n \<noteq> 247 then [char_of (n - 32)]
         else if n = 223 then ''SS'' else [c])"

definition js_upper :: "string \<Rightarrow> string" where
  "js_upper s = concat (map js_upper_char s)"

text \<open>\<open>ToNumber\<close> on a text of at most one character, and on a decimal integer; \<open>None\<close> is \<open>NaN\<close>.\<close>

definition char_number :: "char \<Rightarrow> int option" where
  "char_number c = (if is_digit_char c then Some (digit_val c) else if is_js_space c then Some 0 else None)"

definition dec_number :: "string \<Rightarrow> int option" where
  "dec_number s =
     (let (neg, ds) = (case s of c # cs \<Rightarrow> if c = CHR ''-'' then (True, cs) else (False, s) | [] \<Rightarrow> (False, s))
      in if ds \<noteq> [] \<and> list_all is_digit_char ds then Some (if neg then - digits_val ds else digits_val ds) else None)"

text \<open>A sum in which \<open>NaN\<close> is absorbing; the flag i of a regular expression.\<close>

definition nan_add :: "int option \<Rightarrow> int option \<Rightarrow> int option" where
  "nan_add a b = (case (a, b) of (Some x, Some y) \<Rightarrow> Some (x + y) | _ \<Rightarrow> None)"

primrec rx_ci :: "rx \<Rightarrow> rx" where
  "rx_ci REmpty = REmpty"
| "rx_ci (RClass P) = RClass (\<lambda>c. P c \<or> P (js_lower_char c) \<or> P (hd (js_upper_char c)))"
| "rx_ci (RSeq r q) = RSeq (rx_ci r) (rx_ci q)"
| "rx_ci (RAlt r q) = RAlt (rx_ci r) (rx_ci q)"
| "rx_ci (RStar r) = RStar (rx_ci r)"

definition rx_upper :: rx where
  "rx_upper = rx_range CHR ''A'' CHR ''Z''"

definition upper_digit :: "char \<Rightarrow> bool" where
  "upper_digit c \<longleftrightarrow> is_upper c \<or> is_digit_char c"

section \<open>Counting words\<close>

text \<open>\<open>value.replace(/<.[^<>]*?>/g, " ")\<close>: a less-than sign, any character but a line end, and the
  rest of the tag up to the first greater-than sign with no other bracket between.\<close>

function strip_tags :: "string \<Rightarrow> string" where
  "strip_tags s =
     (case s of
        [] \<Rightarrow> []
      | c # cs \<Rightarrow>
          (if c = CHR ''<'' \<and> cs \<noteq> [] \<and> char_code (hd cs) \<noteq> 10 \<and> char_code (hd cs) \<noteq> 13
           then (let rest = dropWhile (\<lambda>d. d \<notin> set ''<>'') (tl cs)
                 in if rest \<noteq> [] \<and> hd rest = CHR ''>'' then CHR '' '' # strip_tags (tl rest)
                    else c # strip_tags cs)
           else c # strip_tags cs))"
  by pat_completeness auto
termination
proof (relation "measure length", simp, goal_cases)
  case (1 s c cs rest)
  then show ?case using length_dropWhile_le [of "\<lambda>d. d \<notin> set ''<>''" "tl cs"] by (cases rest) auto
qed auto

fun strip_entities :: "string \<Rightarrow> string" where
  "strip_entities [] = []"
| "strip_entities (c # cs) =
     (if js_lower (take 6 (c # cs)) \<in> {''&nbsp;'', ''&#160;''} then CHR '' '' # strip_entities (drop 5 cs)
      else c # strip_entities cs)"

definition stripHtml :: "string \<Rightarrow> string" where
  "stripHtml value = filter (\<lambda>c. c \<notin> set ''.(),;:!?%#$_+=/-'' \<and> c \<noteq> CHR 0x27 \<and> c \<noteq> CHR 0x22)
     (strip_entities (strip_tags value))"

text \<open>\<open>match\<close> gives \<open>null\<close> when there is no word, and reading its length raises.\<close>

definition word_count :: "string \<Rightarrow> nat js" where
  "word_count value =
     (let ws = match_runs is_js_word (stripHtml value) in if ws = [] then Inl TypeError else Inr (length ws))"

definition maxWords :: "nat \<Rightarrow> string \<Rightarrow> bool js" where
  "maxWords params value = js_bind (word_count value) (\<lambda>n. Inr (n \<le> params))"

definition minWords :: "nat \<Rightarrow> string \<Rightarrow> bool js" where
  "minWords params value = js_bind (word_count value) (\<lambda>n. Inr (n \<ge> params))"

definition rangeWords :: "nat \<Rightarrow> nat \<Rightarrow> string \<Rightarrow> bool js" where
  "rangeWords lo hi value =
     js_bind (word_count value) (\<lambda>n. if n \<ge> lo then js_bind (word_count value) (\<lambda>m. Inr (m \<le> hi)) else Inr False)"

section \<open>Account numbers\<close>

text \<open>The alternative binds weaker than the anchors: nine digits in front, or groups at the end.\<close>

definition bankaccountNL :: "string \<Rightarrow> bool" where
  "bankaccountNL value =
     (if \<not> (rx_front (rx_times 9 rx_digit) value \<or>
            rx_back (RSeq (rx_times 3 (RSeq (rx_times 2 rx_digit) (rx_text '' ''))) (rx_times 3 rx_digit)) value)
      then False
      else
      (let account = filter (\<lambda>c. c \<noteq> CHR '' '') value;
           len = length account;
           sum = foldl (\<lambda>sum pos. nan_add sum (map_option (\<lambda>d. int (len - pos) * d) (char_number (account ! pos))))
             (Some 0) [0..<len]
       in (case sum of Some n \<Rightarrow> js_rem n 11 = 0 | None \<Rightarrow> False)))"

definition giroaccountNL :: "string \<Rightarrow> bool" where
  "giroaccountNL = rx_full (rx_between 1 7 rx_digit)"

definition bankorgiroaccountNL :: "string \<Rightarrow> bool" where
  "bankorgiroaccountNL value \<longleftrightarrow> bankaccountNL value \<or> giroaccountNL value"

definition bic :: "string \<Rightarrow> bool" where
  "bic = rx_full (rx_seq [rx_times 6 rx_upper,
     RClass (\<lambda>c. is_upper c \<or> in_range CHR ''2'' CHR ''9'' c),
     RClass (\<lambda>c. is_upper c \<and> c \<noteq> CHR ''O'' \<or> in_range CHR ''1'' CHR ''2'' c),
     rx_opt (RAlt (rx_times 3 (rx_text ''X''))
       (RSeq (RClass (\<lambda>c. upper_digit c \<and> c \<noteq> CHR ''X'')) (rx_times 2 (RClass upper_digit))))])"

text \<open>
  The formats of the countries: pieces of digits (\<open>BD\<close>, \<open>\d\<close>), capital letters (\<open>BA\<close>) and
  both (\<open>BX\<close>, \<open>[\dA-Z]\<close>) with their lengths.
\<close>

datatype bban = BD nat | BA nat | BX nat

definition bbancountrypatterns :: "(string \<times> bban list) list" where
  "bbancountrypatterns = [
     (''AL'', [BD 8, BX 16]), (''AD'', [BD 8, BX 12]), (''AT'', [BD 16]), (''AZ'', [BX 4, BD 20]),
     (''BE'', [BD 12]), (''BH'', [BA 4, BX 14]), (''BA'', [BD 16]), (''BR'', [BD 23, BA 1, BX 1]),
     (''BG'', [BA 4, BD 6, BX 8]), (''CR'', [BD 17]), (''HR'', [BD 17]), (''CY'', [BD 8, BX 16]),
     (''CZ'', [BD 20]), (''DK'', [BD 14]), (''DO'', [BA 4, BD 20]), (''EE'', [BD 16]), (''FO'', [BD 14]),
     (''FI'', [BD 14]), (''FR'', [BD 10, BX 11, BD 2]), (''GE'', [BX 2, BD 16]), (''DE'', [BD 18]),
     (''GI'', [BA 4, BX 15]), (''GR'', [BD 7, BX 16]), (''GL'', [BD 14]), (''GT'', [BX 4, BX 20]),
     (''HU'', [BD 24]), (''IS'', [BD 22]), (''IE'', [BX 4, BD 14]), (''IL'', [BD 19]),
     (''IT'', [BA 1, BD 10, BX 12]), (''KZ'', [BD 3, BX 13]), (''KW'', [BA 4, BX 22]), (''LV'', [BA 4, BX 13]),
     (''LB'', [BD 4, BX 20]), (''LI'', [BD 5, BX 12]), (''LT'', [BD 16]), (''LU'', [BD 3, BX 13]),
     (''MK'', [BD 3, BX 10, BD 2]), (''MT'', [BA 4, BD 5, BX 18]), (''MR'', [BD 23]),
     (''MU'', [BA 4, BD 19, BA 3]), (''MC'', [BD 10, BX 11, BD 2]), (''MD'', [BX 2, BD 18]), (''ME'', [BD 18]),
     (''NL'', [BA 4, BD 10]), (''NO'', [BD 11]), (''PK'', [BX 4, BD 16]), (''PS'', [BX 4, BD 21]),
     (''PL'', [BD 24]), (''PT'', [BD 21]), (''RO'', [BA 4, BX 16]), (''SM'', [BA 1, BD 10, BX 12]),
     (''SA'', [BD 2, BX 18]), (''RS'', [BD 18]), (''SK'', [BD 20]), (''SI'', [BD 15]), (''ES'', [BD 20]),
     (''SE'', [BD 20]), (''CH'', [BD 5, BX 12]), (''TN'', [BD 20]), (''TR'', [BD 5, BX 17]),
     (''AE'', [BD 3, BD 16]), (''GB'', [BA 4, BD 14]), (''VG'', [BX 4, BD 16])]"

fun bban_rx :: "bban \<Rightarrow> rx" where
  "bban_rx (BD n) = rx_times n rx_digit"
| "bban_rx (BA n) = rx_times n (RClass is_upper)"
| "bban_rx (BX n) = rx_times n (RClass upper_digit)"

definition iban_alphabet :: string where
  "iban_alphabet = ''0123456789ABCDEFGHIJKLMNOPQRSTUVWXYZ''"

fun ibancheckdigits :: "bool \<Rightarrow> string \<Rightarrow> string" where
  "ibancheckdigits leadingZeroes [] = []"
| "ibancheckdigits leadingZeroes (c # cs) =
     (let leadingZeroes = (if c \<noteq> CHR ''0'' then False else leadingZeroes)
      in (if \<not> leadingZeroes then int_str (js_indexOf c iban_alphabet) else []) @ ibancheckdigits leadingZeroes cs)"

text \<open>
  The remainder is computed digit by digit; \<open>cRest\<close> is a text, empty at first and then the
  decimal form of the remainder, to which the next digit is appended.
\<close>

definition iban_rest :: "string \<Rightarrow> string" where
  "iban_rest ds = foldl (\<lambda>cRest cChar.
     case dec_number (cRest @ [cChar]) of Some n \<Rightarrow> int_str (js_rem n 97) | None \<Rightarrow> ''NaN'') [] ds"

definition iban :: "string \<Rightarrow> bool" where
  "iban value =
     (let iban = js_upper (filter (\<lambda>c. c \<noteq> CHR '' '') value)
      in if \<not> (rx_front (RSeq (rx_between 2 8 (RSeq (rx_times 4 (RClass alnum)) (rx_text '' ''))) (rx_between 1 4 (RClass alnum))) iban \<or>
               rx_back (rx_between 12 34 (RClass alnum)) iban) then False
         else if (case map_of bbancountrypatterns (take 2 iban) of
                    Some p \<Rightarrow> \<not> rx_full (rx_seq (rx_times 2 (RClass is_upper) # rx_times 2 rx_digit # map bban_rx p)) iban
                  | None \<Rightarrow> False) then False
         else iban_rest (ibancheckdigits True (drop 4 iban @ take 4 iban)) = ''1'')"

section \<open>Spanish tax numbers\<close>

definition format_ES :: "string \<Rightarrow> bool" where
  "format_ES = rx_full (rx_alts [
     rx_seq [rx_upper, rx_times 7 rx_digit, RClass upper_digit],
     rx_seq [rx_text ''T'', rx_times 8 (RClass upper_digit)],
     rx_seq [rx_times 8 rx_digit, rx_upper]])"

definition digit_at :: "string \<Rightarrow> nat \<Rightarrow> int option" where
  "digit_at v i = js_parseInt [v ! i]"

text \<open>\<open>parseInt(tmp.charAt(0)) + ...\<close> for \<open>tmp = (2 * num[count]).toString()\<close>.\<close>

definition double_digits :: "int option \<Rightarrow> int option" where
  "double_digits d = map_option (\<lambda>d. let tmp = int_str (2 * d)
     in digit_val (tmp ! 0) + (if length tmp > 1 then digit_val (tmp ! 1) else 0)) d"

definition num_str :: "int option \<Rightarrow> string" where
  "num_str d = (case d of Some n \<Rightarrow> int_str n | None \<Rightarrow> ''NaN'')"

definition cifES :: "string \<Rightarrow> bool" where
  "cifES value =
     (let value = js_upper value
      in if \<not> format_ES value then False
         else
         (let num = digit_at value;
              sum = foldl (\<lambda>sum count. nan_add sum (double_digits (num count)))
                (nan_add (nan_add (num 2) (num 4)) (num 6)) [1, 3, 5, 7]
          in if hd value \<in> set ''ABCDEFGHJNPQRSUVW''
             then (case sum of
                     Some n \<Rightarrow>
                       (let controlDigit = 10 - digit_val (last (int_str n));
                            value = value @ int_str controlDigit
                        in num_str (num 8) = [char_of (nat (64 + controlDigit))] \<or> num_str (num 8) = [last value])
                   | None \<Rightarrow> num_str (num 8) = [CHR 0x00] \<or> num_str (num 8) = ''N'')
             else False))"

definition dni_letters :: string where
  "dni_letters = ''TRWAGMYFPDXBNJZSQVHLCKE''"

definition replace_first :: "char \<Rightarrow> char \<Rightarrow> string \<Rightarrow> string" where
  "replace_first c d s =
     takeWhile (\<lambda>x. x \<noteq> c) s @ (case dropWhile (\<lambda>x. x \<noteq> c) s of [] \<Rightarrow> [] | x # xs \<Rightarrow> d # xs)"

text \<open>A character of the value is never identical to the result of a test.\<close>

definition nieES :: "string \<Rightarrow> bool" where
  "nieES value =
     (let value = js_upper value
      in if \<not> format_ES value then False
         else if hd value = CHR ''T'' then False
         else if hd value \<in> set ''XYZ''
         then (case dec_number (take 8 (replace_first CHR ''Z'' CHR ''2''
                      (replace_first CHR ''Y'' CHR ''1'' (replace_first CHR ''X'' CHR ''0'' value)))) of
                 Some n \<Rightarrow> value ! 8 = dni_letters ! nat (js_rem n 23)
               | None \<Rightarrow> False)
         else False)"

definition nifES :: "string \<Rightarrow> bool" where
  "nifES value =
     (let value = js_upper value
      in if \<not> format_ES value then False
         else if rx_full (rx_seq [rx_times 8 rx_digit, rx_upper]) value
         then (case dec_number (take 8 value) of
                 Some n \<Rightarrow> dni_letters ! nat (js_rem n 23) = value ! 8
               | None \<Rightarrow> False)
         else if hd value \<in> set ''KLM'' then value ! 8 = char_of (64 :: nat)
         else False)"

section \<open>Cards by issuer\<close>

record card_types =
  mastercard :: bool
  visa :: bool
  amex :: bool
  dinersclub :: bool
  enroute :: bool
  discover :: bool
  jcb :: bool
  unknown :: bool
  all_types :: bool

definition validTypes :: "card_types \<Rightarrow> 32 word" where
  "validTypes param =
     (let v = 0;
          v = (if mastercard param then v OR 0x0001 else v);
          v = (if visa param then v OR 0x0002 else v);
          v = (if amex param then v OR 0x0004 else v);
          v = (if dinersclub param then v OR 0x0008 else v);
          v = (if enroute param then v OR 0x0010 else v);
          v = (if discover param then v OR 0x0020 else v);
          v = (if jcb param then v OR 0x0040 else v);
          v = (if unknown param then v OR 0x0080 else v)
      in if all_types param
         then 0x0001 OR 0x0002 OR 0x0004 OR 0x0008 OR 0x0010 OR 0x0020 OR 0x0040 OR 0x0080 else v)"

definition creditcardtypes :: "card_types \<Rightarrow> string \<Rightarrow> bool" where
  "creditcardtypes param value =
     (if \<not> list_all (\<lambda>c. is_digit_char c \<or> c = CHR ''-'') value then False
      else
      (let value = filter is_digit_char value; v = validTypes param
       in if v AND 0x0001 \<noteq> 0 \<and> rx_front (RSeq (rx_text ''5'') (rx_any ''12345'')) value then length value = 16
          else if v AND 0x0002 \<noteq> 0 \<and> rx_front (rx_text ''4'') value then length value = 16
          else if v AND 0x0004 \<noteq> 0 \<and> rx_front (RSeq (rx_text ''3'') (rx_any ''47'')) value then length value = 15
          else if v AND 0x0008 \<noteq> 0 \<and>
            rx_front (RSeq (rx_text ''3'') (RAlt (RSeq (rx_text ''0'') (rx_any ''012345'')) (rx_any ''68''))) value
          then length value = 14
          else if v AND 0x0010 \<noteq> 0 \<and> rx_front (RSeq (rx_text ''2'') (RAlt (rx_text ''014'') (rx_text ''149''))) value
          then length value = 15
          else if v AND 0x0020 \<noteq> 0 \<and> rx_front (rx_text ''6011'') value then length value = 16
          else if v AND 0x0040 \<noteq> 0 \<and> rx_front (rx_text ''3'') value then length value = 16
          else if v AND 0x0040 \<noteq> 0 \<and> rx_front (RAlt (rx_text ''2131'') (rx_text ''1800'')) value then length value = 15
          else v AND 0x0080 \<noteq> 0))"

section \<open>Dates and times\<close>

definition dateFA :: "string \<Rightarrow> bool" where
  "dateFA = rx_full (rx_seq [rx_range CHR ''1'' CHR ''4'', rx_times 3 rx_digit, rx_text ''/'',
     RAlt
       (rx_seq [rx_opt (rx_text ''0''), rx_range CHR ''1'' CHR ''6'', rx_text ''/'',
          rx_alts [RSeq (rx_text ''3'') (rx_range CHR ''0'' CHR ''1''), RSeq (rx_range CHR ''1'' CHR ''2'') (rx_range CHR ''0'' CHR ''9''),
            RSeq (rx_opt (rx_text ''0'')) (rx_range CHR ''1'' CHR ''9'')]])
       (rx_seq [RAlt (RSeq (rx_text ''1'') (rx_range CHR ''0'' CHR ''2'')) (RSeq (rx_opt (rx_text ''0'')) (rx_range CHR ''7'' CHR ''9'')),
          rx_text ''/'',
          rx_alts [rx_text ''30'', RSeq (rx_range CHR ''1'' CHR ''2'') (rx_range CHR ''0'' CHR ''9''),
            RSeq (rx_opt (rx_text ''0'')) (rx_range CHR ''1'' CHR ''9'')]])])"

text \<open>
  \<open>new Date(y, m, d, 12, 0, 0, 0)\<close>: \<open>tz t\<close> is the offset of the local time t from universal
  time in milliseconds; the years 0 to 99 mean 1900 to 1999.
\<close>

definition local_noon :: "(int \<Rightarrow> int) \<Rightarrow> int \<Rightarrow> int \<Rightarrow> int \<Rightarrow> date" where
  "local_noon tz y m d =
     (let y = (if 0 \<le> y \<and> y \<le> 99 then 1900 + y else y); t = MakeDate (MakeDay y m d) 43200000 in t - tz t)"

definition dateITA :: "(int \<Rightarrow> int) \<Rightarrow> string \<Rightarrow> bool" where
  "dateITA tz value =
     (if rx_full (rx_seq [rx_between 1 2 rx_digit, rx_text ''/'', rx_between 1 2 rx_digit, rx_text ''/'', rx_times 4 rx_digit]) value
      then (case map js_parseInt (js_split CHR ''/'' value) of
              [Some gg, Some mm, Some aaaa] \<Rightarrow>
                (let xdata = local_noon tz aaaa (mm - 1) gg
                 in getUTCFullYear xdata = aaaa \<and> getUTCMonth xdata = mm - 1 \<and> getUTCDate xdata = gg)
            | _ \<Rightarrow> False)
      else False)"

definition dateNL :: "string \<Rightarrow> bool" where
  "dateNL = rx_full (rx_seq [
     rx_alts [RSeq (rx_opt (rx_text ''0'')) (rx_range CHR ''1'' CHR ''9''), RSeq (rx_any ''12'') rx_digit,
       RSeq (rx_text ''3'') (rx_any ''01'')],
     rx_any ''./-'', rx_month, rx_any ''./-'', rx_opt (RSeq (rx_any ''12'') rx_digit), rx_times 2 rx_digit])"

definition rx_minsec :: rx where
  "rx_minsec = rx_between 1 2 (rx_seq [rx_text '':'', rx_range CHR ''0'' CHR ''5'', rx_digit])"

definition time :: "string \<Rightarrow> bool" where
  "time = rx_full (RSeq (RAlt (RSeq (rx_any ''01'') rx_digit) (RSeq (rx_text ''2'') (rx_range CHR ''0'' CHR ''3''))) rx_minsec)"

definition time12h :: "string \<Rightarrow> bool" where
  "time12h = rx_full (rx_ci (rx_seq [rx_month, rx_minsec, rx_opt (rx_text '' ''), rx_any ''AP'', rx_text ''M'']))"

section \<open>Vehicle identification numbers\<close>

definition LL :: string where
  "LL = ''ABCDEFGHJKLMNPRSTUVWXYZ''"

definition VL :: "int list" where
  "VL = [1, 2, 3, 4, 5, 6, 7, 8, 1, 2, 3, 4, 5, 7, 9, 2, 3, 4, 5, 6, 7, 8, 9]"

definition FL :: "int list" where
  "FL = [8, 7, 6, 5, 4, 3, 2, 10, 0, 9, 8, 7, 6, 5, 4, 3, 2]"

text \<open>The sum turns into a text when a character that is no digit and no letter of \<open>LL\<close> is added.\<close>

datatype vin_sum = VNum int | VText string

definition vin_add :: "vin_sum \<Rightarrow> vin_sum \<Rightarrow> vin_sum" where
  "vin_add a b =
     (case (a, b) of
        (VNum m, VNum n) \<Rightarrow> VNum (m + n)
      | (VNum m, VText t) \<Rightarrow> VText (int_str m @ t)
      | (VText s, VNum n) \<Rightarrow> VText (s @ int_str n)
      | (VText s, VText t) \<Rightarrow> VText (s @ t))"

definition vin_nan :: "char option \<Rightarrow> bool" where
  "vin_nan c = (case c of None \<Rightarrow> True | Some c \<Rightarrow> char_number c = None)"

definition vin_step :: "string \<Rightarrow> vin_sum \<times> char option \<Rightarrow> nat \<Rightarrow> vin_sum \<times> char option" where
  "vin_step v st i =
     (let (rs, cdv) = st; f = FL ! i; d = v ! i; cdv = (if i = 8 then Some d else cdv)
      in case char_number d of
           Some x \<Rightarrow> (vin_add rs (VNum (x * f)), cdv)
         | None \<Rightarrow>
             (let n = js_indexOf (js_upper_char d) (map (\<lambda>l. [l]) LL)
              in if n \<noteq> -1
                 then (vin_add rs (VNum (VL ! nat n * f)), if vin_nan cdv \<and> n = 8 then Some (LL ! 8) else cdv)
                 else (vin_add rs (VText [d]), cdv)))"

text \<open>
  \<open>cd\<close> is a number or the text X, and \<open>cdv\<close> is a text: they are identical only when both are
  X. \<open>text_number\<close> is the integer a text converts to, if it does.
\<close>

definition vinUS :: "(string \<Rightarrow> int option) \<Rightarrow> string \<Rightarrow> bool" where
  "vinUS text_number v =
     (if length v \<noteq> 17 then False
      else
      (let (rs, cdv) = foldl (vin_step v) (VNum 0, None) [0..<17];
           cd = (case rs of VNum n \<Rightarrow> Some (js_rem n 11) | VText t \<Rightarrow> map_option (\<lambda>n. js_rem n 11) (text_number t))
       in cd = Some 10 \<and> cdv = Some CHR ''X''))"

section \<open>Texts, addresses and codes\<close>

definition alphanumeric :: "string \<Rightarrow> bool" where
  "alphanumeric = rx_full (rx_ci (rx_plus (RClass is_js_word)))"

definition integer :: "string \<Rightarrow> bool" where
  "integer = rx_full (RSeq (rx_opt (rx_text ''-'')) (rx_plus rx_digit))"

definition rx_octet :: rx where
  "rx_octet = rx_alts [RSeq (rx_text ''25'') (rx_range CHR ''0'' CHR ''5''),
     rx_seq [rx_text ''2'', rx_range CHR ''0'' CHR ''4'', rx_digit],
     rx_seq [rx_opt (rx_any ''01''), rx_digit, rx_opt rx_digit]]"

definition ipv4 :: "string \<Rightarrow> bool" where
  "ipv4 = rx_full (rx_seq [rx_octet, rx_text ''.'', rx_octet, rx_text ''.'', rx_octet, rx_text ''.'', rx_octet])"

definition lettersonly :: "string \<Rightarrow> bool" where
  "lettersonly = rx_full (rx_ci (rx_plus (rx_range CHR ''a'' CHR ''z'')))"

definition letterswithbasicpunc :: "string \<Rightarrow> bool" where
  "letterswithbasicpunc = rx_full (rx_ci (rx_plus (RClass (\<lambda>c.
     in_range CHR ''a'' CHR ''z'' c \<or> c \<in> set ''-.,()'' \<or> c = CHR 0x27 \<or> c = CHR 0x22 \<or> is_js_space c))))"

definition nowhitespace :: "string \<Rightarrow> bool" where
  "nowhitespace = rx_full (rx_plus (RClass (\<lambda>c. \<not> is_js_space c)))"

definition postalCodeCA :: "string \<Rightarrow> bool" where
  "postalCodeCA = rx_full (rx_seq [rx_any ''ABCEGHJKLMNPRSTVXY'', rx_digit, rx_upper, rx_text '' '', rx_digit, rx_upper, rx_digit])"

definition postalcodeIT :: "string \<Rightarrow> bool" where
  "postalcodeIT = rx_full (rx_times 5 rx_digit)"

definition postalcodeNL :: "string \<Rightarrow> bool" where
  "postalcodeNL = rx_full (rx_seq [rx_range CHR ''1'' CHR ''9'', rx_times 3 rx_digit, rx_opt (RClass is_js_space),
     rx_times 2 (RClass is_letter)])"

definition postcodeUK :: "string \<Rightarrow> bool" where
  "postcodeUK =
     (let area = RClass (\<lambda>c. is_upper c \<and> c \<notin> set ''QVX'');
          second = RClass (\<lambda>c. is_upper c \<and> c \<notin> set ''IJZ'');
          space = rx_opt (RClass is_js_space)
      in rx_full (rx_ci (RAlt
           (rx_seq [rx_alts [
                RSeq area rx_digit, rx_seq [area, rx_digit, rx_digit], rx_seq [area, second, rx_digit],
                rx_seq [area, second, rx_digit, rx_digit], rx_seq [area, rx_digit, rx_any ''ABCDEFGHJKSTUW''],
                rx_seq [area, second, rx_digit, rx_any ''ABEHMNPRVWXY'']],
              space, rx_digit, rx_times 2 (RClass (\<lambda>c. is_upper c \<and> c \<notin> set ''CIKMOV''))])
           (rx_seq [rx_text ''GIR'', space, rx_text ''0AA'']))))"

text \<open>The braces of the range rule are escaped: they are characters, not a count.\<close>

definition zipcodeUS :: "string \<Rightarrow> bool" where
  "zipcodeUS = rx_full (RSeq (rx_times 5 rx_digit) (rx_opt (RSeq (rx_text ''-'') (rx_times 4 rx_digit))))"

definition ziprange :: "string \<Rightarrow> bool" where
  "ziprange = rx_full (rx_seq [rx_text ''90'', rx_range CHR ''2'' CHR ''5'', rx_digit, rx_text ''{2}-'', rx_times 4 rx_digit])"

section \<open>States\<close>

definition state_table :: "bool \<Rightarrow> bool \<Rightarrow> (string \<times> string) list" where
  "state_table territories military = [
     (''A'', if territories \<and> military then ''AEKLPRSZ'' else if territories then ''KLRSZ''
             else if military then ''AEKLPRZ'' else ''KLRZ''),
     (''C'', ''AOT''), (''D'', ''CE''), (''F'', ''L''), (''G'', if territories then ''AU'' else ''A''), (''H'', ''I''),
     (''I'', ''ADLN''), (''K'', ''SY''), (''L'', ''A''), (''M'', if territories then ''ADEINOPST'' else ''ADEINOST''),
     (''N'', ''CDEHJMVY''), (''O'', ''HKR''), (''P'', if territories then ''AR'' else ''A''), (''R'', ''I''), (''S'', ''CD''),
     (''T'', ''NX''), (''U'', ''T''), (''V'', if territories then ''AIT'' else ''AT''), (''W'', ''AIVY'')]"

record state_options =
  caseSensitive :: "bool option"
  includeTerritories :: "bool option"
  includeMilitary :: "bool option"

definition stateUS :: "state_options option \<Rightarrow> string \<Rightarrow> bool" where
  "stateUS options value =
     (let get = (\<lambda>f. case options of None \<Rightarrow> False | Some r \<Rightarrow> (case f r of None \<Rightarrow> False | Some b \<Rightarrow> b));
          regex = rx_alts (map (\<lambda>(a, b). RSeq (rx_text a) (rx_any b))
            (state_table (get includeTerritories) (get includeMilitary)))
      in rx_full (if get caseSensitive then regex else rx_ci regex) value)"

section \<open>Telephone numbers\<close>

definition rx_gap :: rx where
  "rx_gap = rx_opt (RAlt (RClass is_js_space) (rx_seq [rx_opt (RClass is_js_space), rx_text ''-'', rx_opt (RClass is_js_space)]))"

definition rx_phone_NL :: "rx \<Rightarrow> rx" where
  "rx_phone_NL first = rx_seq [
     RAlt (rx_seq [RAlt (rx_text ''+'') (RSeq (rx_text ''00'') rx_gap), rx_text ''31'', rx_gap,
             rx_opt (RSeq (rx_text ''(0)'') (rx_opt (RClass (\<lambda>c. c = CHR ''-'' \<or> is_js_space c))))])
          (rx_text ''0''),
     first, rx_times 8 (RSeq rx_gap rx_digit)]"

definition mobileNL :: "string \<Rightarrow> bool" where
  "mobileNL = rx_full (rx_phone_NL (rx_text ''6''))"

definition phoneNL :: "string \<Rightarrow> bool" where
  "phoneNL = rx_full (rx_phone_NL (rx_range CHR ''1'' CHR ''9''))"

definition strip_phone :: "string \<Rightarrow> string" where
  "strip_phone = filter (\<lambda>c. c \<notin> set ''()-'' \<and> \<not> is_js_space c)"

definition rx_sp :: rx where
  "rx_sp = rx_opt (RClass is_js_space)"

definition rx_prefix_UK :: rx where
  "rx_prefix_UK = rx_seq [RAlt (RSeq (rx_text ''00'') rx_sp) (rx_text ''+''), rx_text ''44'', rx_sp]"

definition mobileUK :: "string \<Rightarrow> bool" where
  "mobileUK value =
     (let phone_number = strip_phone value
      in length phone_number > 9 \<and>
         rx_full (rx_seq [RAlt rx_prefix_UK (rx_text ''0''), rx_text ''7'',
           RAlt (RSeq (rx_any ''1345789'') (rx_times 2 rx_digit)) (rx_text ''624''),
           rx_sp, rx_times 3 rx_digit, rx_sp, rx_times 3 rx_digit]) phone_number)"

definition phoneUK :: "string \<Rightarrow> bool" where
  "phoneUK value =
     (let phone_number = strip_phone value; close = rx_opt (rx_text '')'')
      in length phone_number > 9 \<and>
         rx_full (RSeq (RAlt rx_prefix_UK (RSeq (rx_opt (rx_text ''('')) (rx_text ''0'')))
           (rx_alts [
              rx_seq [rx_times 2 rx_digit, close, rx_sp, rx_times 4 rx_digit, rx_sp, rx_times 4 rx_digit],
              rx_seq [rx_times 3 rx_digit, close, rx_sp, rx_times 3 rx_digit, rx_sp, rx_between 3 4 rx_digit],
              rx_seq [rx_times 4 rx_digit, close, rx_sp,
                RAlt (rx_times 5 rx_digit) (rx_seq [rx_times 3 rx_digit, rx_sp, rx_times 3 rx_digit])],
              rx_seq [rx_times 5 rx_digit, close, rx_sp, rx_between 4 5 rx_digit]])) phone_number)"

definition rx_area_US :: rx where
  "rx_area_US = RSeq (rx_range CHR ''2'' CHR ''9'')
     (RAlt (RSeq (RClass (\<lambda>c. is_digit_char c \<and> c \<noteq> CHR ''1'')) rx_digit)
           (RSeq (rx_text ''1'') (RClass (\<lambda>c. is_digit_char c \<and> c \<noteq> CHR ''1''))))"

definition phoneUS :: "string \<Rightarrow> bool" where
  "phoneUS value =
     (let phone_number = filter (\<lambda>c. \<not> is_js_space c) value; dash = rx_opt (rx_text ''-'')
      in length phone_number > 9 \<and>
         rx_full (rx_seq [rx_opt (rx_seq [rx_opt (rx_text ''+''), rx_text ''1'', dash]),
           RAlt (rx_seq [rx_text ''('', rx_area_US, rx_text '')'']) rx_area_US, dash, rx_area_US, dash,
           rx_times 4 rx_digit]) phone_number)"

definition phonesUK :: "string \<Rightarrow> bool" where
  "phonesUK value =
     (let phone_number = strip_phone value
      in length phone_number > 9 \<and>
         rx_full (RSeq (RAlt rx_prefix_UK (rx_text ''0''))
           (rx_alts [RSeq (rx_text ''1'') (rx_between 8 9 rx_digit), RSeq (rx_any ''23'') (rx_times 9 rx_digit),
              RSeq (rx_text ''7'') (RAlt (RSeq (rx_any ''1345789'') (rx_times 8 rx_digit))
                (RSeq (rx_text ''624'') (rx_times 6 rx_digit)))])) phone_number)"

section \<open>What the IBAN rule accepts\<close>

lemma digit_str [simp]: "0 \<le> d \<Longrightarrow> list_all is_digit_char (int_str d) \<and> int_str d \<noteq> []"
  using nat_str_digits [of "nat d"] by (simp add: int_str_def)

lemma digits_val_int_str [simp]: "0 \<le> d \<Longrightarrow> digits_val (int_str d) = d"
  by (simp add: int_str_def digits_val_nat_str)

lemma digits_val_snoc [simp]: "digits_val (ds @ [c]) = 10 * digits_val ds + digit_val c"
  by (simp add: digits_val_def)

lemma digit_not_minus: "is_digit_char c \<Longrightarrow> c \<noteq> CHR ''-''"
  using digit_not_space by blast

lemma dec_number_digits: "list_all is_digit_char ds \<Longrightarrow> ds \<noteq> [] \<Longrightarrow> dec_number ds = Some (digits_val ds)"
  by (cases ds) (auto simp: dec_number_def digit_not_minus)

lemma digits_val_nonneg: "list_all is_digit_char ds \<Longrightarrow> 0 \<le> digits_val ds"
proof (induction ds rule: rev_induct)
  case (snoc c ds)
  then show ?case using digit_val_range [of c] by simp
qed (simp add: digits_val_def)

lemma iban_rest_mod: "list_all is_digit_char ds \<Longrightarrow> ds \<noteq> [] \<Longrightarrow> iban_rest ds = int_str (digits_val ds mod 97)"
proof (induction ds rule: rev_induct)
  case (snoc c ds)
  let ?r = "digits_val ds mod 97"
  have c: "is_digit_char c" "0 \<le> digit_val c" using snoc.prems digit_val_range [of c] by auto
  have step: "iban_rest (ds @ [c]) = (case dec_number (iban_rest ds @ [c]) of Some n \<Rightarrow> int_str (js_rem n 97) | None \<Rightarrow> ''NaN'')"
    by (simp add: iban_rest_def)
  show ?case
  proof (cases "ds = []")
    case True
    then show ?thesis using c step by (simp add: iban_rest_def dec_number_digits digits_val_def)
  next
    case False
    then have "iban_rest ds = int_str ?r" using snoc by simp
    moreover have "dec_number (int_str ?r @ [c]) = Some (10 * ?r + digit_val c)"
      using c by (subst dec_number_digits) simp_all
    moreover have "(10 * ?r + digit_val c) mod 97 = (10 * digits_val ds + digit_val c) mod 97"
      by (metis mod_add_left_eq mod_mult_right_eq)
    ultimately show ?thesis using step c by simp
  qed
qed simp

text \<open>The number an IBAN stands for: a digit counts as itself, the letters as 10 to 35.\<close>

definition letter_value :: "char \<Rightarrow> int" where
  "letter_value c = js_indexOf c iban_alphabet"

definition iban_shift :: "char \<Rightarrow> int" where
  "iban_shift c = (if is_digit_char c then 10 else 100)"

definition iban_value :: "string \<Rightarrow> int" where
  "iban_value s = foldl (\<lambda>a c. iban_shift c * a + letter_value c) 0 s"

lemma upper_digit_cases:
  assumes "upper_digit c"
  shows "c \<in> set iban_alphabet"
proof -
  have "char_code c \<in> {48..57} \<union> {65..90}"
    using assms by (auto simp: upper_digit_def is_upper_def is_digit_char_def Let_def)
  then have "c \<in> (char_of :: nat \<Rightarrow> char) ` ({48..57} \<union> {65..90})" by (metis char_code_def char_of_char image_eqI)
  moreover have "(char_of :: nat \<Rightarrow> char) ` ({48..57} \<union> {65..90}) \<subseteq> set iban_alphabet" by code_simp
  ultimately show ?thesis by blast
qed

lemma letter_table:
  "list_all (\<lambda>c. 0 \<le> letter_value c \<and> (if is_digit_char c then letter_value c = digit_val c \<and> letter_value c \<le> 9
      else 10 \<le> letter_value c \<and> letter_value c \<le> 35)) iban_alphabet"
  by code_simp

lemma letter_value_range:
  assumes "upper_digit c"
  shows "0 \<le> letter_value c" "letter_value c \<le> 35"
    "is_digit_char c \<Longrightarrow> letter_value c = digit_val c \<and> letter_value c \<le> 9" "\<not> is_digit_char c \<Longrightarrow> 10 \<le> letter_value c"
  using letter_table upper_digit_cases [OF assms] by (auto simp: list_all_iff split: if_splits)

lemma letter_value_inj: "upper_digit a \<Longrightarrow> upper_digit b \<Longrightarrow> letter_value a = letter_value b \<Longrightarrow> a = b"
  using js_indexOf_present [of a iban_alphabet] js_indexOf_present [of b iban_alphabet] upper_digit_cases
  by (metis letter_value_def)

lemma two_digits: "10 \<le> n \<Longrightarrow> n \<le> 99 \<Longrightarrow> length (int_str n) = 2"
proof -
  assume n: "10 \<le> n" "n \<le> 99"
  then have k: "\<not> nat n < 10" "nat n div 10 < 10" by linarith+
  have "nat_str (nat n) = nat_str (nat n div 10) @ [digit_char (nat n mod 10)]"
    using k(1) by (subst nat_str.simps) simp
  moreover have "nat_str (nat n div 10) = [digit_char (nat n div 10)]"
    using k(2) by (subst nat_str.simps) simp
  ultimately show ?thesis using n by (simp add: int_str_def)
qed

lemma digits_shift: "foldl (\<lambda>a c. 10 * a + digit_val c) a ds = 10 ^ length ds * a + digits_val ds"
proof (induction ds rule: rev_induct)
  case (snoc c ds)
  then show ?case by (simp add: algebra_simps)
qed (simp add: digits_val_def)

lemma digits_val_append: "digits_val (ds @ es) = 10 ^ length es * digits_val ds + digits_val es"
  using digits_shift [of "digits_val ds" es] by (simp add: digits_val_def)

lemma letter_str: "upper_digit c \<Longrightarrow> list_all is_digit_char (int_str (letter_value c)) \<and>
    digits_val (int_str (letter_value c)) = letter_value c \<and> 10 ^ length (int_str (letter_value c)) = iban_shift c"
proof -
  assume c: "upper_digit c"
  have "10 ^ length (int_str (letter_value c)) = iban_shift c"
  proof (cases "is_digit_char c")
    case True
    then have "letter_value c < 10" using letter_value_range(3) [OF c] by simp
    then have "int_str (letter_value c) = [digit_char (nat (letter_value c))]"
      using letter_value_range(1) [OF c] nat_str.simps [of "nat (letter_value c)"] by (simp add: int_str_def nat_less_iff)
    then show ?thesis using True by (simp add: iban_shift_def)
  next
    case False
    then have "length (int_str (letter_value c)) = 2" using letter_value_range [OF c] by (intro two_digits) auto
    then show ?thesis using False by (simp add: iban_shift_def)
  qed
  then show ?thesis using letter_value_range(1) [OF c] by simp
qed

lemma iban_shift_value:
  "foldl (\<lambda>a c. iban_shift c * a + letter_value c) x s = x * prod_list (map iban_shift s) + iban_value s"
proof (induction s arbitrary: x)
  case (Cons c s)
  have "iban_value (c # s) = foldl (\<lambda>a c. iban_shift c * a + letter_value c) (letter_value c) s" by (simp add: iban_value_def)
  then show ?case using Cons [of "letter_value c"] Cons [of "iban_shift c * x + letter_value c"] by (simp add: algebra_simps)
qed (simp add: iban_value_def)

lemma iban_value_Cons: "iban_value (c # s) = letter_value c * prod_list (map iban_shift s) + iban_value s"
  using iban_shift_value [of "letter_value c" s] by (simp add: iban_value_def)

lemma iban_value_append: "iban_value (s @ t) = iban_value s * prod_list (map iban_shift t) + iban_value t"
  using iban_shift_value [of "iban_value s" t] by (simp add: iban_value_def)

lemma letter_zero: "upper_digit c \<Longrightarrow> letter_value c = 0 \<longleftrightarrow> c = CHR ''0''"
proof -
  have z: "upper_digit CHR ''0''" "letter_value CHR ''0'' = 0" by code_simp+
  then show "upper_digit c \<Longrightarrow> ?thesis" using letter_value_inj [of c "CHR ''0''"] by auto
qed

text \<open>Leading zeros are dropped; the value of the digits is the value of the number.\<close>

lemma ibancheckdigits_value:
  "list_all upper_digit s \<Longrightarrow> list_all is_digit_char (ibancheckdigits z s) \<and>
   digits_val (ibancheckdigits z s) = iban_value s \<and>
   (if z then True else 10 ^ length (ibancheckdigits z s) = prod_list (map iban_shift s))"
proof (induction z s rule: ibancheckdigits.induct)
  case (2 z c cs)
  let ?z = "if c \<noteq> CHR ''0'' then False else z"
  note c = letter_str [of c]
  have IH: "list_all is_digit_char (ibancheckdigits ?z cs)" "digits_val (ibancheckdigits ?z cs) = iban_value cs"
    "\<not> ?z \<Longrightarrow> 10 ^ length (ibancheckdigits ?z cs) = prod_list (map iban_shift cs)"
    using 2 by (auto simp: Let_def split: if_splits)
  have step: "ibancheckdigits z (c # cs) = (if \<not> ?z then int_str (letter_value c) else []) @ ibancheckdigits ?z cs"
    by (simp add: Let_def letter_value_def)
  show ?case
  proof (cases ?z)
    case True
    then have "letter_value c = 0" using letter_zero [of c] 2(2) by (auto split: if_splits)
    then show ?thesis using True IH step by (simp add: iban_value_Cons split: if_splits)
  next
    case False
    then show ?thesis
      using IH step c 2(2) by (simp add: iban_value_Cons digits_val_append power_add algebra_simps)
  qed
qed (simp add: digits_val_def iban_value_def)

lemma iban_check: "list_all upper_digit s \<Longrightarrow> iban_rest (ibancheckdigits True s) = ''1'' \<longleftrightarrow> iban_value s mod 97 = 1"
proof -
  assume s: "list_all upper_digit s"
  let ?d = "ibancheckdigits True s"
  have one: "int_str n = ''1'' \<longleftrightarrow> n = 1" for n
  proof
    assume "int_str n = ''1''"
    then have "js_parseInt ''1'' = Some n" using parseInt_int_str [of n] by simp
    moreover have "js_parseInt ''1'' = Some 1" by code_simp
    ultimately show "n = 1" by simp
  next
    assume "n = 1"
    moreover have "int_str 1 = ''1''" by code_simp
    ultimately show "int_str n = ''1''" by simp
  qed
  have v: "list_all is_digit_char ?d" "digits_val ?d = iban_value s" using ibancheckdigits_value [OF s, of True] by auto
  show ?thesis
  proof (cases "?d = []")
    case True
    then show ?thesis using v(2) by (simp add: iban_rest_def digits_val_def)
  next
    case False
    then show ?thesis using iban_rest_mod [OF v(1) False] one v(2) by simp
  qed
qed

text \<open>The format of a country, piece by piece.\<close>

fun bban_class :: "bban \<Rightarrow> nat \<times> (char \<Rightarrow> bool)" where
  "bban_class (BD n) = (n, is_digit_char)"
| "bban_class (BA n) = (n, is_upper)"
| "bban_class (BX n) = (n, upper_digit)"

fun bban_fits :: "bban list \<Rightarrow> string \<Rightarrow> bool" where
  "bban_fits [] s \<longleftrightarrow> s = []"
| "bban_fits (p # ps) s \<longleftrightarrow> (let (n, P) = bban_class p
     in n \<le> length s \<and> list_all P (take n s) \<and> bban_fits ps (drop n s))"

definition iban_format :: "string \<Rightarrow> bool" where
  "iban_format v = (case map_of bbancountrypatterns (take 2 v) of
     Some p \<Rightarrow> bban_fits ([BA 2, BD 2] @ p) v | None \<Rightarrow> True)"

lemma matches_times_seq:
  "matches (rx_seq (rx_times n (RClass P) # rs)) u \<longleftrightarrow>
   n \<le> length u \<and> list_all P (take n u) \<and> matches (rx_seq rs) (drop n u)"
proof
  assume "matches (rx_seq (rx_times n (RClass P) # rs)) u"
  then obtain v w where "u = v @ w" "length v = n" "list_all P v" "matches (rx_seq rs) w" by auto
  then show "n \<le> length u \<and> list_all P (take n u) \<and> matches (rx_seq rs) (drop n u)" by auto
next
  assume "n \<le> length u \<and> list_all P (take n u) \<and> matches (rx_seq rs) (drop n u)"
  then show "matches (rx_seq (rx_times n (RClass P) # rs)) u"
    unfolding matches_seqs by (intro exI [of _ "take n u"] exI [of _ "drop n u"]) simp
qed

lemma bban_rx_fits: "matches (rx_seq (map bban_rx ps)) u \<longleftrightarrow> bban_fits ps u"
proof (induction ps arbitrary: u)
  case (Cons p ps)
  then show ?case by (cases p) (simp_all only: list.map bban_rx.simps rx_digit_def matches_times_seq bban_fits.simps bban_class.simps Let_def prod.case)
qed simp

lemma bban_map: "rx_times 2 (RClass is_upper) # rx_times 2 rx_digit # map bban_rx p = map bban_rx ([BA 2, BD 2] @ p)"
  by simp

lemma upper_digit_plain:
  assumes "list_all upper_digit v"
  shows "filter (\<lambda>c. c \<noteq> CHR '' '') v = v" "js_upper v = v" "list_all alnum v" "CHR '' '' \<notin> set v"
proof -
  have 1: "js_upper_char c = [c]" "c \<noteq> CHR '' ''" "alnum c" if "upper_digit c" for c
    using that by (auto simp: upper_digit_def is_upper_def is_digit_char_def is_letter_def alnum_def char_code_def js_upper_char_def Let_def)
  then show "filter (\<lambda>c. c \<noteq> CHR '' '') v = v" "list_all alnum v" "CHR '' '' \<notin> set v"
    using assms by (auto simp: list_all_iff filter_id_conv)
  show "js_upper v = v" using assms 1 by (induction v) (auto simp: js_upper_def)
qed

text \<open>
  C21: the IBAN rule on the compact form (digits and capital letters). It accepts exactly the
  texts of at least 12 characters that have the format of their country, if the country is
  known, and whose number, with the first four characters moved to the end and letters read
  as 10 to 35, leaves the remainder 1 when divided by 97, although the remainder is computed
  digit by digit on texts.
\<close>

theorem iban_spec:
  assumes "list_all upper_digit v"
  shows "iban v \<longleftrightarrow> 12 \<le> length v \<and> iban_format v \<and> iban_value (drop 4 v @ take 4 v) mod 97 = 1"
proof -
  note pl = upper_digit_plain [OF assms]
  let ?g = "RSeq (rx_between 2 8 (RSeq (rx_times 4 (RClass alnum)) (rx_text '' ''))) (rx_between 1 4 (RClass alnum))"
  have "\<not> rx_front ?g v"
  proof
    assume "rx_front ?g v"
    then obtain a b c where v: "v = a @ b @ c" "matches (rx_between 2 8 (RSeq (rx_times 4 (RClass alnum)) (rx_text '' ''))) a"
      by (auto simp: rx_front_matches matches_seq)
    then obtain us where "length us = 2" "list_all (matches (RSeq (rx_times 4 (RClass alnum)) (rx_text '' ''))) us" "set (concat us) \<subseteq> set a"
      by (auto simp: rx_between_def matches_seq matches_times)
    then obtain w where "w @ '' '' \<in> set us" by (cases us) (auto simp: matches_seq)
    then have "set (w @ '' '') \<subseteq> set (concat us)" unfolding set_concat by blast
    then have "CHR '' '' \<in> set (concat us)" by simp
    then show False using pl(4) v(1) \<open>set (concat us) \<subseteq> set a\<close> by auto
  qed
  moreover have "rx_back (rx_between 12 34 (RClass alnum)) v \<longleftrightarrow> 12 \<le> length v"
  proof
    assume "rx_back (rx_between 12 34 (RClass alnum)) v"
    then show "12 \<le> length v" by (auto simp: rx_back_matches)
  next
    assume len: "12 \<le> length v"
    then have "matches (rx_between 12 34 (RClass alnum)) (drop (length v - 12) v)"
      using pl(3) by (auto simp: list_all_iff dest: in_set_dropD)
    then show "rx_back (rx_between 12 34 (RClass alnum)) v" unfolding rx_back_matches by (metis append_take_drop_id)
  qed
  moreover have "iban_rest (ibancheckdigits True (drop 4 v @ take 4 v)) = ''1'' \<longleftrightarrow> iban_value (drop 4 v @ take 4 v) mod 97 = 1"
    using assms by (intro iban_check) (auto simp: list_all_iff dest: in_set_takeD in_set_dropD)
  ultimately show ?thesis
    unfolding iban_def pl Let_def iban_format_def rx_full_matches bban_map bban_rx_fits by (auto split: option.splits)
qed

theorem iban_spec_witness:
  "iban_format ''GB82WEST12345698765432'' \<and> iban_value ''WEST12345698765432GB82'' mod 97 = 1"
proof -
  have "list_all upper_digit ''GB82WEST12345698765432''" "iban ''GB82WEST12345698765432''" by code_simp+
  then show ?thesis using iban_spec [of "''GB82WEST12345698765432''"] by simp
qed

text \<open>
  C22: one wrong character. When an IBAN is accepted, replacing one of its digits by another
  digit, or one of its letters by another letter, gives a text that is not.
\<close>

theorem iban_one_character:
  assumes "iban (xs @ a # ys)" "list_all upper_digit (xs @ a # ys)" "upper_digit b" "is_digit_char a = is_digit_char b" "a \<noteq> b"
  shows "\<not> iban (xs @ b # ys)"
proof
  assume ib: "iban (xs @ b # ys)"
  have ub: "list_all upper_digit (xs @ b # ys)" using assms(2,3) by simp
  define ps qs where "ps = (if length xs < 4 then drop (3 - length xs) ys @ xs else drop 4 xs)"
    and "qs = (if length xs < 4 then take (3 - length xs) ys else ys @ take 4 xs)"
  have move: "drop 4 (xs @ c # ys) @ take 4 (xs @ c # ys) = ps @ c # qs" for c
    by (auto simp: ps_def qs_def drop_Cons' take_Cons')
  let ?K = "prod_list (map iban_shift qs)"
  have split: "iban_value (ps @ c # qs) = iban_value ps * iban_shift c * ?K + letter_value c * ?K + iban_value qs" for c
    by (simp add: iban_value_append iban_value_Cons algebra_simps)
  have "iban_shift a = iban_shift b" using assms(4) by (simp add: iban_shift_def)
  then have "iban_value (ps @ a # qs) - iban_value (ps @ b # qs) = (letter_value a - letter_value b) * ?K"
    unfolding split by (simp add: algebra_simps)
  moreover have "97 dvd iban_value (ps @ a # qs) - iban_value (ps @ b # qs)"
    using iban_spec [OF assms(2)] iban_spec [OF ub] assms(1) ib unfolding move by (metis mod_eq_dvd_iff)
  moreover have "coprime 97 ?K"
  proof -
    have "coprime 97 (10 :: int)" "coprime 97 (100 :: int)" by code_simp+
    then show ?thesis by (induction qs) (auto simp: iban_shift_def)
  qed
  ultimately have dvd: "97 dvd letter_value a - letter_value b" by (simp add: coprime_dvd_mult_left_iff)
  moreover have "\<bar>letter_value a - letter_value b\<bar> < 97"
    using letter_value_range(1,2) [of a] letter_value_range(1,2) [OF assms(3)] assms(2) by auto
  ultimately have "letter_value a = letter_value b"
    using dvd_imp_le_int [of "letter_value a - letter_value b" 97] by auto
  then show False using letter_value_inj [of a b] assms(2,3,5) by simp
qed

theorem iban_one_character_witness: "\<not> iban ''GB82WEST12345698765433'' \<and> \<not> iban ''GB82WESZ12345698765432''"
proof -
  have 1: "iban (''GB82WEST1234569876543'' @ CHR ''2'' # [])" "iban (''GB82WES'' @ CHR ''T'' # ''12345698765432'')" by code_simp+
  have 2: "list_all upper_digit ''GB82WEST12345698765432''" "upper_digit CHR ''3''" "upper_digit CHR ''Z''"
    "is_digit_char CHR ''2'' = is_digit_char CHR ''3''" "is_digit_char CHR ''T'' = is_digit_char CHR ''Z''" by code_simp+
  show ?thesis using iban_one_character [OF 1(1) _ 2(2) 2(4)] iban_one_character [OF 1(2) _ 2(3) 2(5)] 2(1) by simp
qed

section \<open>What the VIN rule accepts\<close>

definition vin_char :: "char \<Rightarrow> bool" where
  "vin_char c \<longleftrightarrow> is_digit_char c \<or> js_upper_char c \<in> set (map (\<lambda>l. [l]) LL)"

definition vin_value :: "char \<Rightarrow> int" where
  "vin_value c = (if is_digit_char c then digit_val c else VL ! nat (js_indexOf (js_upper_char c) (map (\<lambda>l. [l]) LL)))"

definition is_J :: "char \<Rightarrow> bool" where
  "is_J c \<longleftrightarrow> js_upper_char c = ''J''"

lemma LL_not_space: "js_upper_char c \<in> set (map (\<lambda>l. [l]) LL) \<Longrightarrow> \<not> is_digit_char c \<and> \<not> is_js_space c"
proof -
  assume "js_upper_char c \<in> set (map (\<lambda>l. [l]) LL)"
  then obtain l where l: "l \<in> set LL" "js_upper_char c = [l]" by auto
  then have "is_upper l" by (auto simp: LL_def is_upper_def char_code_def)
  then have "65 \<le> char_code l \<and> char_code l \<le> 90" by (simp add: is_upper_def)
  then show ?thesis using l(2)
    by (auto simp: js_upper_char_def Let_def is_digit_char_def is_js_space_def split: if_splits)
qed

lemma vin_step_number:
  assumes "vin_char (v ! i)"
  shows "fst (vin_step v (rs, cdv) i) = vin_add rs (VNum (FL ! i * vin_value (v ! i)))"
proof (cases "is_digit_char (v ! i)")
  case True
  then show ?thesis by (simp add: vin_step_def char_number_def vin_value_def Let_def mult.commute)
next
  case False
  then have LL: "js_upper_char (v ! i) \<in> set (map (\<lambda>l. [l]) LL)" using assms by (simp add: vin_char_def)
  then have "char_number (v ! i) = None" using LL_not_space by (simp add: char_number_def)
  moreover have "js_indexOf (js_upper_char (v ! i)) (map (\<lambda>l. [l]) LL) \<noteq> -1" using LL by simp
  ultimately show ?thesis using False by (simp add: vin_step_def vin_value_def Let_def mult.commute)
qed

lemma vin_sum_number:
  assumes "length v = 17" "list_all vin_char v" "n \<le> 17"
  shows "fst (foldl (vin_step v) (VNum 0, None) [0..<n]) = VNum (\<Sum>i<n. FL ! i * vin_value (v ! i))"
  using assms(3)
proof (induction n)
  case (Suc n)
  obtain rs cdv where st: "foldl (vin_step v) (VNum 0, None) [0..<n] = (rs, cdv)" by fastforce
  then have rs: "rs = VNum (\<Sum>i<n. FL ! i * vin_value (v ! i))" using Suc by simp
  have c: "vin_char (v ! n)" using assms(1,2) Suc.prems by (simp add: list_all_length)
  show ?case
    using vin_step_number [of v n rs cdv] c by (simp add: st rs vin_add_def)
qed simp

lemma vin_control_step:
  "snd (vin_step v (rs, cdv) i) =
    (let cdv = (if i = 8 then Some (v ! i) else cdv)
     in if char_number (v ! i) = None \<and> is_J (v ! i) \<and> vin_nan cdv then Some CHR ''J'' else cdv)"
proof -
  have J: "LL ! 8 = CHR ''J''" by (simp add: LL_def)
  have at8: "js_indexOf w (map (\<lambda>l. [l]) LL) = 8 \<longleftrightarrow> w = ''J''" for w
  proof
    assume i: "js_indexOf w (map (\<lambda>l. [l]) LL) = 8"
    then have w: "w \<in> set (map (\<lambda>l. [l]) LL)" using js_indexOf_absent [of w "map (\<lambda>l. [l]) LL"] by linarith
    have "map (\<lambda>l. [l]) LL ! 8 = ''J''" by code_simp
    then show "w = ''J''" using js_indexOf_present [OF w] unfolding i by simp
  next
    have "js_indexOf ''J'' (map (\<lambda>l. [l]) LL) = 8" by code_simp
    then show "w = ''J'' \<Longrightarrow> js_indexOf w (map (\<lambda>l. [l]) LL) = 8" by simp
  qed
  define n where "n = js_indexOf (js_upper_char (v ! i)) (map (\<lambda>l. [l]) LL)"
  have "n = 8 \<longleftrightarrow> is_J (v ! i)" by (simp add: n_def at8 is_J_def)
  then show ?thesis
    unfolding vin_step_def Let_def prod.case n_def [symmetric] J by (cases "char_number (v ! i)") auto
qed

lemma is_J_number: "is_J c \<Longrightarrow> char_number c = None"
proof -
  assume "is_J c"
  then have "js_upper_char c \<in> set (map (\<lambda>l. [l]) LL)" by (simp add: is_J_def LL_def)
  then show ?thesis using LL_not_space by (simp add: char_number_def)
qed

lemma vin_control:
  assumes "8 < i" "i \<le> 17" "length v = 17"
  shows "snd (foldl (vin_step v) (VNum 0, None) [0..<i]) =
    (if char_number (v ! 8) = None \<and> list_ex is_J (drop 8 (take i v)) then Some CHR ''J'' else Some (v ! 8))"
  using assms(1,2)
proof (induction i)
  case (Suc i)
  obtain rs cdv where st: "foldl (vin_step v) (VNum 0, None) [0..<i] = (rs, cdv)" by fastforce
  have t: "take (Suc i) v = take i v @ [v ! i]" using Suc.prems assms(3) by (simp add: take_Suc_conv_app_nth)
  have J: "char_number CHR ''J'' = None" by code_simp
  show ?case
  proof (cases "i = 8")
    case True
    have "snd (foldl (vin_step v) (VNum 0, None) [0..<Suc i]) = snd (vin_step v (rs, cdv) i)" using st by simp
    moreover have "drop 8 (take (Suc i) v) = [v ! 8]" using t True assms(3) by simp
    ultimately show ?thesis using True is_J_number [of "v ! 8"]
      by (auto simp: vin_control_step vin_nan_def Let_def simp del: upt_Suc)
  next
    case False
    then have "cdv = (if char_number (v ! 8) = None \<and> list_ex is_J (drop 8 (take i v)) then Some CHR ''J'' else Some (v ! 8))"
      using Suc st by simp
    then show ?thesis using st t assms(3) False Suc.prems J is_J_number [of "v ! i"]
      by (auto simp: vin_control_step vin_nan_def Let_def)
  qed
qed simp

text \<open>
  C23: vehicle identification numbers. The number computed for the check and the character of
  the value are compared as a number with a text, so that only X can pass: among the texts of
  17 digits and letters other than I, O and Q, those are accepted that have an X in the ninth
  place, no J behind it, and a weighted sum that leaves the remainder 10 when divided by 11.
\<close>

theorem vinUS_spec:
  assumes "length v = 17" "list_all vin_char v"
  shows "vinUS text_number v \<longleftrightarrow>
    v ! 8 = CHR ''X'' \<and> \<not> list_ex is_J (drop 9 v) \<and> (\<Sum>i<17. FL ! i * vin_value (v ! i)) mod 11 = 10"
proof -
  obtain rs cdv where st: "foldl (vin_step v) (VNum 0, None) [0..<17] = (rs, cdv)" by fastforce
  have rs: "rs = VNum (\<Sum>i<17. FL ! i * vin_value (v ! i))" using vin_sum_number [OF assms, of 17] st by simp
  have X: "char_number CHR ''X'' = None" "\<not> is_J CHR ''X''" by code_simp+
  have "drop 8 v = v ! 8 # drop 9 v" using Cons_nth_drop_Suc [of 8 v] assms(1) by simp
  then have cdv: "cdv = Some CHR ''X'' \<longleftrightarrow> v ! 8 = CHR ''X'' \<and> \<not> list_ex is_J (drop 9 v)"
    using vin_control [of 17 v] assms(1) st X by auto
  have "0 \<le> vin_value (v ! i)" if "i < 17" for i
  proof -
    have c: "vin_char (v ! i)" using assms that by (simp add: list_all_length)
    have "list_all (\<lambda>x. 0 \<le> x) VL" "length VL = length LL" by code_simp+
    then show ?thesis
      using c js_indexOf_present [of "js_upper_char (v ! i)" "map (\<lambda>l. [l]) LL"] digit_val_range [of "v ! i"]
      by (auto simp: vin_value_def vin_char_def list_all_length)
  qed
  moreover have "list_all (\<lambda>x. 0 \<le> x) FL" "length FL = 17" by code_simp+
  ultimately have "0 \<le> (\<Sum>i<17. FL ! i * vin_value (v ! i))"
    by (intro sum_nonneg mult_nonneg_nonneg) (auto simp: list_all_length)
  then show ?thesis using assms(1) cdv by (auto simp: vinUS_def st rs Let_def)
qed

theorem vinUS_spec_witness: "vinUS (\<lambda>_. None) ''1M8GDM9AXKP042788'' \<and> \<not> vinUS (\<lambda>_. None) ''11111111111111111''"
proof -
  have 1: "list_all vin_char ''1M8GDM9AXKP042788''" "\<not> list_ex is_J (drop 9 ''1M8GDM9AXKP042788'')"
    "(\<Sum>i<17. FL ! i * vin_value (''1M8GDM9AXKP042788'' ! i)) mod 11 = 10" by code_simp+
  have 2: "list_all vin_char ''11111111111111111''" by code_simp
  show ?thesis
    using vinUS_spec [OF _ 1(1), of "\<lambda>_. None"] 1(2,3) vinUS_spec [OF _ 2, of "\<lambda>_. None"] by simp
qed

end
