(* ===== verification/Form_Rules.thy ===== *)
theory Form_Rules
  imports Additional_Methods Js_Regex
begin

text \<open>
  Which rules a field of a form has, from \<open>jquery.validate.js\<close>: the rules of its classes, its
  attributes, its data attributes and the options of the validator are merged, normalised and
  put in order. Objects are association lists in the order in which the language enumerates
  their properties. Numbers are integers; \<open>VNaN\<close> is \<open>NaN\<close>.
\<close>

section \<open>Objects\<close>

fun obj_put :: "'k \<Rightarrow> 'v \<Rightarrow> ('k \<times> 'v) list \<Rightarrow> ('k \<times> 'v) list" where
  "obj_put k v [] = [(k, v)]"
| "obj_put k v ((k', v') # o') = (if k = k' then (k, v) # o' else (k', v') # obj_put k v o')"

definition obj_del :: "'k \<Rightarrow> ('k \<times> 'v) list \<Rightarrow> ('k \<times> 'v) list" where
  "obj_del k o' = filter (\<lambda>p. fst p \<noteq> k) o'"

text \<open>\<open>$.extend(o, p)\<close>.\<close>

definition obj_extend :: "('k \<times> 'v) list \<Rightarrow> ('k \<times> 'v) list \<Rightarrow> ('k \<times> 'v) list" where
  "obj_extend o' p = foldl (\<lambda>a (k, v). obj_put k v a) o' p"

lemma map_of_put [simp]: "map_of (obj_put k v o') = (map_of o')(k \<mapsto> v)"
  by (induction o') auto

lemma keys_put: "map fst (obj_put k v o') = (if k \<in> set (map fst o') then map fst o' else map fst o' @ [k])"
  by (induction o') (auto simp del: set_map)

lemma distinct_put [simp]: "distinct (map fst o') \<Longrightarrow> distinct (map fst (obj_put k v o'))"
  by (auto simp: keys_put)

lemma distinct_del [simp]: "distinct (map fst o') \<Longrightarrow> distinct (map fst (obj_del k o'))"
  by (simp add: obj_del_def distinct_map_filter)

lemma map_of_del [simp]: "map_of (obj_del k o') = (map_of o')(k := None)"
  by (induction o') (auto simp: obj_del_def)

lemma extend_Cons [simp]: "obj_extend o' ((k, v) # p) = obj_extend (obj_put k v o') p" "obj_extend o' [] = o'"
  by (simp_all add: obj_extend_def)

lemma distinct_extend [simp]: "distinct (map fst o') \<Longrightarrow> distinct (map fst (obj_extend o' p))"
  by (induction p arbitrary: o') auto

lemma map_of_extend: "distinct (map fst p) \<Longrightarrow> map_of (obj_extend o' p) k = (case map_of p k of Some v \<Rightarrow> Some v | None \<Rightarrow> map_of o' k)"
proof (induction p arbitrary: o')
  case (Cons e p)
  obtain k' v' where e: "e = (k', v')" by (cases e)
  have "k' \<notin> fst ` set p" using Cons.prems e by auto
  then have "map_of p k' = None" by (simp add: map_of_eq_None_iff)
  then show ?case using Cons e by (auto split: option.split)
qed simp

lemma put_new: "k \<notin> set (map fst o') \<Longrightarrow> obj_put k v o' = o' @ [(k, v)]"
  by (induction o') auto

lemma key_del: "k \<notin> set (map fst (obj_del k o'))"
  by (auto simp: obj_del_def)

lemma extend_new:
  "distinct (map fst p) \<Longrightarrow> set (map fst o') \<inter> set (map fst p) = {} \<Longrightarrow> obj_extend o' p = o' @ p"
proof (induction p arbitrary: o')
  case (Cons e p)
  obtain k v where e: "e = (k, v)" by (cases e)
  then have "obj_put k v o' = o' @ [(k, v)]" using Cons.prems(2) by (intro put_new) auto
  then show ?case using Cons.IH [of "o' @ [(k, v)]"] Cons.prems e by auto
qed simp

section \<open>Values of rules\<close>

text \<open>
  \<open>VDep p d\<close> is an object with \<open>param\<close> p and \<open>depends\<close> d (what the selector or the function
  says); \<open>VFun v\<close> a function that gives v for the field.
\<close>

datatype rule_val =
    VBool bool
  | VNum int
  | VNaN
  | VStr string
  | VArr "rule_val list"
  | VDep "rule_val option" "bool option"
  | VFun rule_val

type_synonym rules = "(string \<times> rule_val) list"

fun val_truthy :: "rule_val \<Rightarrow> bool" where
  "val_truthy (VBool b) = b"
| "val_truthy (VNum n) = (n \<noteq> 0)"
| "val_truthy VNaN = False"
| "val_truthy (VStr s) = (s \<noteq> [])"
| "val_truthy _ = True"

definition text_number :: "string \<Rightarrow> rule_val" where
  "text_number s =
     (let t = js_trim s
      in if t = [] then VNum 0 else (case dec_number t of Some n \<Rightarrow> VNum n | None \<Rightarrow> VNaN))"

fun js_Number :: "rule_val \<Rightarrow> rule_val" where
  "js_Number (VBool b) = VNum (if b then 1 else 0)"
| "js_Number (VNum n) = VNum n"
| "js_Number (VStr s) = text_number s"
| "js_Number _ = VNaN"

section \<open>Fields\<close>

datatype node = TextNode | CheckNode | SelectNode

record elem =
  e_id :: nat
  e_name :: string
  e_node :: node
  e_type :: "string option"
  e_value :: string
  e_checked :: bool
  e_selected :: nat
  e_ignored :: bool
  e_excluded :: bool
  e_classes :: "string option"
  e_attrs :: "string \<Rightarrow> string option"
  e_data :: "string \<Rightarrow> rule_val option"

text \<open>The rules given to the validator for a name: a text of method names, or an object.\<close>

datatype static_rule = SText string | SObj rules

record rule_env =
  re_methods :: "string list"
  re_classes :: "string \<Rightarrow> rules option"
  re_static :: "string \<Rightarrow> static_rule option"
  re_autoRanges :: bool

definition classRuleSettings :: "string \<Rightarrow> rules option" where
  "classRuleSettings c =
     (if c \<in> {''required'', ''email'', ''url'', ''date'', ''dateISO'', ''number'', ''digits'', ''creditcard''}
      then Some [(c, VBool True)] else None)"

section \<open>Sources of rules\<close>

fun split_at :: "('a \<Rightarrow> bool) \<Rightarrow> 'a list \<Rightarrow> 'a list list" where
  "split_at P [] = [[]]"
| "split_at P (x # xs) =
     (if P x then [] # split_at P xs
      else (case split_at P xs of [] \<Rightarrow> [[x]] | w # ws \<Rightarrow> (x # w) # ws))"

definition normalizeRule :: "static_rule \<Rightarrow> rules" where
  "normalizeRule data =
     (case data of
        SText t \<Rightarrow> foldl (\<lambda>o' w. obj_put w (VBool True) o') [] (split_at is_js_space t)
      | SObj r \<Rightarrow> r)"

definition classRules :: "rule_env \<Rightarrow> elem \<Rightarrow> rules" where
  "classRules E el =
     (case e_classes el of
        None \<Rightarrow> []
      | Some classes \<Rightarrow>
          if classes = [] then []
          else foldl (\<lambda>r c. case re_classes E c of Some p \<Rightarrow> obj_extend r p | None \<Rightarrow> r) [] (js_split CHR '' '' classes))"

definition attr_value :: "elem \<Rightarrow> string \<Rightarrow> rule_val option" where
  "attr_value el method =
     (let value = (if method = ''required''
                   then Some (VBool (e_attrs el method \<noteq> None))
                   else map_option VStr (e_attrs el method))
      in if (js_contains ''min'' method \<or> js_contains ''max'' method) \<and>
            (case e_type el of None \<Rightarrow> True
             | Some t \<Rightarrow> js_contains ''number'' t \<or> js_contains ''range'' t \<or> js_contains ''text'' t)
         then Some (case value of Some v \<Rightarrow> js_Number v | None \<Rightarrow> VNaN) else value)"

definition val_text :: "rule_val \<Rightarrow> string" where
  "val_text v = (case v of VNum n \<Rightarrow> int_str n | VStr s \<Rightarrow> s | _ \<Rightarrow> ''true'')"

definition attributeRules :: "rule_env \<Rightarrow> elem \<Rightarrow> rules" where
  "attributeRules E el =
     (let r = foldl (\<lambda>r method.
            case attr_value el method of
              Some v \<Rightarrow> if val_truthy v \<or> v = VNum 0 then obj_put method v r
                        else if e_type el = Some method \<and> method \<noteq> ''range'' then obj_put method (VBool True) r else r
            | None \<Rightarrow> if e_type el = Some method \<and> method \<noteq> ''range'' then obj_put method (VBool True) r else r)
          [] (re_methods E)
      in case map_of r ''maxlength'' of
           Some v \<Rightarrow>
             if val_truthy v \<and> (js_contains ''-1'' (val_text v) \<or> js_contains ''2147483647'' (val_text v) \<or>
                  js_contains ''524288'' (val_text v))
             then obj_del ''maxlength'' r else r
         | None \<Rightarrow> r)"

definition data_key :: "string \<Rightarrow> string" where
  "data_key method = ''rule'' @ js_upper (take 1 method) @ js_lower (drop 1 method)"

definition dataRules :: "rule_env \<Rightarrow> elem \<Rightarrow> rules" where
  "dataRules E el =
     foldl (\<lambda>r method. case e_data el (data_key method) of Some v \<Rightarrow> obj_put method v r | None \<Rightarrow> r) [] (re_methods E)"

definition staticRules :: "rule_env \<Rightarrow> elem \<Rightarrow> rules" where
  "staticRules E el = (case re_static E (e_name el) of Some d \<Rightarrow> normalizeRule d | None \<Rightarrow> [])"

section \<open>Normalising and ordering\<close>

definition depend_rule :: "rule_val \<Rightarrow> rule_val option" where
  "depend_rule val =
     (case val of
        VBool False \<Rightarrow> None
      | VDep p d \<Rightarrow>
          if (case p of Some q \<Rightarrow> val_truthy q | None \<Rightarrow> False) \<or> d \<noteq> None
          then (if d \<noteq> Some False then Some (case p of Some q \<Rightarrow> q | None \<Rightarrow> VBool True) else None)
          else Some val
      | _ \<Rightarrow> Some val)"

definition eval_param :: "rule_val \<Rightarrow> rule_val" where
  "eval_param v = (case v of VFun w \<Rightarrow> w | _ \<Rightarrow> v)"

definition clean_number :: "string \<Rightarrow> rules \<Rightarrow> rules" where
  "clean_number k r = (case map_of r k of Some v \<Rightarrow> if val_truthy v then obj_put k (js_Number v) r else r | None \<Rightarrow> r)"

definition nth_number :: "rule_val list \<Rightarrow> nat \<Rightarrow> rule_val" where
  "nth_number xs i = (if i < length xs then js_Number (xs ! i) else VNaN)"

definition clean_pair :: "string \<Rightarrow> rules \<Rightarrow> rules" where
  "clean_pair k r =
     (case map_of r k of
        Some (VArr xs) \<Rightarrow> obj_put k (VArr [nth_number xs 0, nth_number xs 1]) r
      | Some (VStr s) \<Rightarrow>
          if s = [] then r
          else (let parts = map VStr (split_runs (\<lambda>c. is_js_space c \<or> c = CHR '','') (filter (\<lambda>c. c \<notin> set ''[]'') s))
                in obj_put k (VArr [nth_number parts 0, nth_number parts 1]) r)
      | _ \<Rightarrow> r)"

definition truthy_at :: "rules \<Rightarrow> string \<Rightarrow> bool" where
  "truthy_at r k = (case map_of r k of Some v \<Rightarrow> val_truthy v | None \<Rightarrow> False)"

definition create_range :: "string \<Rightarrow> string \<Rightarrow> string \<Rightarrow> rules \<Rightarrow> rules" where
  "create_range lo hi both r =
     (if truthy_at r lo \<and> truthy_at r hi
      then obj_del hi (obj_del lo (obj_put both (VArr [the (map_of r lo), the (map_of r hi)]) r)) else r)"

definition normalizeRules :: "rule_env \<Rightarrow> rules \<Rightarrow> rules" where
  "normalizeRules E r =
     (let r = List.map_filter (\<lambda>(k, v). map_option (Pair k) (depend_rule v)) r;
          r = map (\<lambda>(k, v). (k, eval_param v)) r;
          r = clean_number ''maxlength'' (clean_number ''minlength'' r);
          r = clean_pair ''range'' (clean_pair ''rangelength'' r)
      in if re_autoRanges E
         then create_range ''minlength'' ''maxlength'' ''rangelength'' (create_range ''min'' ''max'' ''range'' r)
         else r)"

definition rules_of :: "rule_env \<Rightarrow> elem \<Rightarrow> rules" where
  "rules_of E el =
     (let data = normalizeRules E (obj_extend (obj_extend (obj_extend (obj_extend [] (classRules E el))
            (attributeRules E el)) (dataRules E el)) (staticRules E el));
          data = (if truthy_at data ''required''
                  then obj_extend [(''required'', the (map_of data ''required''))] (obj_del ''required'' data) else data)
      in if truthy_at data ''remote''
         then obj_put ''remote'' (the (map_of data ''remote'')) (obj_del ''remote'' data) else data)"

section \<open>What the order and the sources mean\<close>

lemma distinct_keys_fold:
  assumes "\<And>r x. distinct (map fst r) \<Longrightarrow> distinct (map fst (f r x))" "distinct (map fst r)"
  shows "distinct (map fst (foldl f r xs))"
  using assms(2) by (induction xs arbitrary: r) (auto intro: assms(1))

lemma map_filter_keys: "set (map fst (List.map_filter (\<lambda>(k, v). map_option (Pair k) (g v)) r)) \<subseteq> set (map fst r)"
proof (induction r)
  case (Cons e r)
  obtain k v where "e = (k, v)" by (cases e)
  then show ?case using Cons by (cases "g v") (auto simp: List.map_filter_simps)
qed (simp add: List.map_filter_simps)

lemma distinct_map_filter_keys:
  "distinct (map fst r) \<Longrightarrow> distinct (map fst (List.map_filter (\<lambda>(k, v). map_option (Pair k) (g v)) r))"
proof (induction r)
  case (Cons e r)
  obtain k v where e: "e = (k, v)" by (cases e)
  have "k \<notin> set (map fst (List.map_filter (\<lambda>(k, v). map_option (Pair k) (g v)) r))"
    using Cons.prems e map_filter_keys [of g r] by auto
  then show ?case using Cons e by (cases "g v") (auto simp: List.map_filter_simps)
qed (simp add: List.map_filter_simps)

lemma map_of_map_filter:
  "distinct (map fst r) \<Longrightarrow>
   map_of (List.map_filter (\<lambda>(k, v). map_option (Pair k) (g v)) r) k = Option.bind (map_of r k) g"
proof (induction r)
  case (Cons e r)
  obtain k' v where e: "e = (k', v)" by (cases e)
  have "map_of r k' = None" using Cons.prems e by (simp add: map_of_eq_None_iff)
  then show ?case using Cons e by (cases "g v") (auto simp: List.map_filter_simps)
qed (simp add: List.map_filter_simps)

lemma map_of_map_snd: "map_of (map (\<lambda>(k, v). (k, f v)) r) k = map_option f (map_of r k)"
  by (induction r) auto

lemma keys_map_snd [simp]: "map fst (map (\<lambda>(k, v). (k, f v)) r) = map fst r"
  by (induction r) auto

lemma distinct_clean [simp]:
  "distinct (map fst r) \<Longrightarrow> distinct (map fst (clean_number k r))"
  "distinct (map fst r) \<Longrightarrow> distinct (map fst (clean_pair k r))"
  "distinct (map fst r) \<Longrightarrow> distinct (map fst (create_range lo hi both r))"
  by (auto simp: clean_number_def clean_pair_def create_range_def Let_def split: option.splits rule_val.splits)

lemma distinct_normalize: "distinct (map fst r) \<Longrightarrow> distinct (map fst (normalizeRules E r))"
  unfolding normalizeRules_def Let_def
  by (cases "re_autoRanges E") (simp_all add: distinct_map_filter_keys del: map_map)

definition merged :: "rule_env \<Rightarrow> elem \<Rightarrow> rules" where
  "merged E el = obj_extend (obj_extend (obj_extend (obj_extend [] (classRules E el))
     (attributeRules E el)) (dataRules E el)) (staticRules E el)"

lemma distinct_merged: "distinct (map fst (merged E el))"
  by (simp add: merged_def)

text \<open>
  C18: the rules of a field, in the order in which they are checked: no rule is there twice,
  a rule \<open>required\<close> with a true parameter comes first, and a rule \<open>remote\<close> comes last, so that
  the server is asked only about values that every other rule accepts.
\<close>

theorem rules_order:
  "let r = rules_of E el
   in distinct (map fst r) \<and>
      (if truthy_at r ''required'' then fst (hd r) = ''required'' else True) \<and>
      (if truthy_at r ''remote'' then fst (last r) = ''remote'' else True)"
proof -
  define d where "d = normalizeRules E (merged E el)"
  define d1 where "d1 = (if truthy_at d ''required''
     then obj_extend [(''required'', the (map_of d ''required''))] (obj_del ''required'' d) else d)"
  define d2 where "d2 = (if truthy_at d1 ''remote''
     then obj_put ''remote'' (the (map_of d1 ''remote'')) (obj_del ''remote'' d1) else d1)"
  have r: "rules_of E el = d2"
    unfolding rules_of_def d_def d1_def d2_def merged_def Let_def by (rule refl)
  have dist: "distinct (map fst d)" by (simp add: d_def distinct_normalize distinct_merged)
  then have dist1: "distinct (map fst d1)" by (simp add: d1_def)
  have d1: "d1 = (''required'', the (map_of d ''required'')) # obj_del ''required'' d" if "truthy_at d ''required''"
  proof -
    have "''required'' \<notin> set (map fst (obj_del ''required'' d))" by (rule key_del)
    then show ?thesis
      using that dist extend_new [of "obj_del ''required'' d" "[(''required'', the (map_of d ''required''))]"] by (simp add: d1_def)
  qed
  have d2: "d2 = obj_del ''remote'' d1 @ [(''remote'', the (map_of d1 ''remote''))]" if "truthy_at d1 ''remote''"
    using that put_new [OF key_del] by (simp add: d2_def)
  have "truthy_at d2 ''required'' = truthy_at d ''required''"
    using d1 by (auto simp: d2_def d1_def truthy_at_def split: option.splits)
  moreover have "fst (hd d2) = ''required''" if "truthy_at d ''required''"
    using d1 [OF that] d2 by (cases "truthy_at d1 ''remote''") (auto simp: d2_def obj_del_def)
  moreover have "fst (last d2) = ''remote''" if "truthy_at d2 ''remote''"
    using that d2 by (cases "truthy_at d1 ''remote''") (auto simp: d2_def)
  moreover have "distinct (map fst d2)" using dist1 by (simp add: d2_def)
  ultimately show ?thesis unfolding r Let_def by simp
qed

text \<open>
  The sources override one another: data attributes override attributes and classes, and the
  options of the validator override them all.
\<close>

lemma merged_sources:
  assumes "distinct (map fst (attributeRules E el))" "distinct (map fst (dataRules E el))" "distinct (map fst (staticRules E el))"
  shows "map_of (merged E el) k =
    (case map_of (staticRules E el) k of Some v \<Rightarrow> Some v
     | None \<Rightarrow> (case map_of (dataRules E el) k of Some v \<Rightarrow> Some v
       | None \<Rightarrow> (case map_of (attributeRules E el) k of Some v \<Rightarrow> Some v
         | None \<Rightarrow> map_of (obj_extend [] (classRules E el)) k)))"
  by (simp add: merged_def map_of_extend assms split: option.split)

lemma distinct_sources: "distinct (map fst (attributeRules E el))" "distinct (map fst (dataRules E el))"
proof -
  have "distinct (map fst (foldl (\<lambda>r method.
            case attr_value el method of
              Some v \<Rightarrow> if val_truthy v \<or> v = VNum 0 then obj_put method v r
                        else if e_type el = Some method \<and> method \<noteq> ''range'' then obj_put method (VBool True) r else r
            | None \<Rightarrow> if e_type el = Some method \<and> method \<noteq> ''range'' then obj_put method (VBool True) r else r) [] ms))" for ms
    by (rule distinct_keys_fold) (auto split: option.split)
  then show "distinct (map fst (attributeRules E el))" by (auto simp: attributeRules_def Let_def split: option.split)
  show "distinct (map fst (dataRules E el))"
    unfolding dataRules_def by (rule distinct_keys_fold) (auto split: option.split)
qed

text \<open>
  An option of the validator that is a plain parameter, for a rule other than the length and
  range rules and without automatic ranges, is the parameter the rule is checked with; the
  option false switches the rule off, whatever the markup says.
\<close>

definition plain_param :: "rule_val \<Rightarrow> bool" where
  "plain_param v = (case v of VDep _ _ \<Rightarrow> False | VFun _ \<Rightarrow> False | VBool b \<Rightarrow> b | _ \<Rightarrow> True)"

lemma normalize_plain:
  assumes "distinct (map fst r)" "\<not> re_autoRanges E" "k \<notin> {''minlength'', ''maxlength'', ''range'', ''rangelength''}"
  shows "map_of (normalizeRules E r) k = map_option eval_param (Option.bind (map_of r k) depend_rule)"
proof -
  have "map_of (clean_number k' q) k = map_of q k" "map_of (clean_pair k' q) k = map_of q k" if "k \<noteq> k'" for k' q
    using that by (auto simp: clean_number_def clean_pair_def Let_def split: option.splits rule_val.splits)
  then show ?thesis
    using assms by (simp add: normalizeRules_def Let_def map_of_map_snd map_of_map_filter)
qed

lemma rules_of_map: "map_of (rules_of E el) = map_of (normalizeRules E (merged E el))"
proof -
  define d where "d = normalizeRules E (merged E el)"
  define d1 where "d1 = (if truthy_at d ''required''
     then obj_extend [(''required'', the (map_of d ''required''))] (obj_del ''required'' d) else d)"
  have r: "rules_of E el = (if truthy_at d1 ''remote''
     then obj_put ''remote'' (the (map_of d1 ''remote'')) (obj_del ''remote'' d1) else d1)"
    unfolding rules_of_def d_def d1_def merged_def Let_def by (rule refl)
  have "distinct (map fst (obj_del ''required'' d))" by (simp add: d_def distinct_normalize distinct_merged)
  then have "map_of d1 = map_of d"
    by (auto simp: d1_def map_of_extend truthy_at_def fun_eq_iff split: option.splits)
  then show ?thesis unfolding r d_def [symmetric] by (auto simp: truthy_at_def fun_eq_iff split: option.splits)
qed

lemma static_overrides:
  assumes "distinct (map fst (staticRules E el))" "\<not> re_autoRanges E"
    "k \<notin> {''minlength'', ''maxlength'', ''range'', ''rangelength''}" "map_of (staticRules E el) k = Some v"
  shows "plain_param v \<Longrightarrow> map_of (rules_of E el) k = Some v" "v = VBool False \<Longrightarrow> map_of (rules_of E el) k = None"
proof -
  have "map_of (rules_of E el) k = map_option eval_param (depend_rule v)"
    using assms merged_sources [OF distinct_sources assms(1), of k]
    by (simp add: rules_of_map normalize_plain distinct_merged)
  then show "plain_param v \<Longrightarrow> map_of (rules_of E el) k = Some v" "v = VBool False \<Longrightarrow> map_of (rules_of E el) k = None"
    by (auto simp: plain_param_def depend_rule_def eval_param_def split: rule_val.splits bool.splits)
qed

end
