(* ===== verification/Form_Validator.thy ===== *)
theory Form_Validator
  imports Form_Rules
begin

text \<open>
  The validator of a form, from \<open>jquery.validate.js\<close>: checking fields against their rules when
  the user types, leaves a field or submits, with rules the server decides. The state has the
  fields, the lists of errors and successes of the last check, the names that are invalid,
  were reported or wait for an answer, and the requests in flight; the network is the order
  in which answers and failures arrive. Texts of messages, the labels that show them and
  focus are left out; fields that carry the error class are kept.
\<close>

section \<open>State\<close>

datatype method_result = MBool bool | MMismatch | MPending

datatype check_result = CTrue | CFalse | CUndef

datatype form_event = FormSent | InvalidForm

text \<open>What is remembered of the last question to the server about a field.\<close>

record previous =
  prev_old :: "string option option"
  prev_valid :: bool

record validator =
  v_form :: "elem list"
  errorList :: "(nat \<times> string option) list"
  errorMap :: "string set"
  successList :: "nat list"
  currentElements :: "nat list"
  invalid :: "string set"
  submitted :: "string set"
  pendingRequest :: int
  pending :: "string set"
  inflight :: "string \<rightharpoonup> nat"
  v_previous :: "nat \<Rightarrow> previous"
  formSubmitted :: bool
  cancelSubmit :: bool
  lastElement :: "nat option"
  marked :: "nat set"
  v_log :: "form_event list"

type_synonym rule_method = "elem list \<Rightarrow> elem \<Rightarrow> string option \<Rightarrow> rule_val \<Rightarrow> method_result js"

record valid_env =
  ve_rules :: rule_env
  ve_methods :: "string \<Rightarrow> rule_method option"

definition new_validator :: "elem list \<Rightarrow> validator" where
  "new_validator form =
     \<lparr>v_form = form, errorList = [], errorMap = {}, successList = [], currentElements = [], invalid = {}, submitted = {},
      pendingRequest = 0, pending = {}, inflight = Map.empty, v_previous = (\<lambda>_. \<lparr>prev_old = None, prev_valid = True\<rparr>),
      formSubmitted = False, cancelSubmit = False, lastElement = None, marked = {}, v_log = []\<rparr>"

section \<open>Fields\<close>

definition checkable :: "elem \<Rightarrow> bool" where
  "checkable el \<longleftrightarrow> e_node el = CheckNode"

definition findByName :: "string \<Rightarrow> elem list \<Rightarrow> elem list" where
  "findByName name form = filter (\<lambda>e. e_name e = name) form"

definition validationTargetFor :: "elem list \<Rightarrow> elem \<Rightarrow> elem option" where
  "validationTargetFor form el =
     (if checkable el
      then (case filter (\<lambda>e. \<not> e_ignored e) (findByName (e_name el) form) of [] \<Rightarrow> None | e # es \<Rightarrow> Some e)
      else Some el)"

definition elementValue :: "elem list \<Rightarrow> elem \<Rightarrow> string option" where
  "elementValue form el =
     (if checkable el
      then (case filter e_checked (findByName (e_name el) form) of [] \<Rightarrow> None | e # es \<Rightarrow> Some (e_value e))
      else Some (filter (\<lambda>c. c \<noteq> CHR 0x0D) (e_value el)))"

definition getLength :: "elem list \<Rightarrow> string \<Rightarrow> elem \<Rightarrow> nat" where
  "getLength form value el =
     (case e_node el of
        SelectNode \<Rightarrow> e_selected el
      | CheckNode \<Rightarrow> length (filter e_checked (findByName (e_name el) form))
      | TextNode \<Rightarrow> length value)"

fun elements_loop :: "rule_env \<Rightarrow> string list \<Rightarrow> elem list \<Rightarrow> elem list" where
  "elements_loop R rulesCache [] = []"
| "elements_loop R rulesCache (el # els) =
     (if e_excluded el \<or> e_ignored el \<or> e_name el \<in> set rulesCache \<or> rules_of R el = []
      then elements_loop R rulesCache els
      else el # elements_loop R (e_name el # rulesCache) els)"

definition elements :: "rule_env \<Rightarrow> elem list \<Rightarrow> elem list" where
  "elements R form = elements_loop R [] form"

section \<open>Built-in methods\<close>

text \<open>
  \<open>required\<close> with a parameter: \<open>sel\<close> says whether a selector finds an element. \<open>optional\<close> is
  the method without a parameter.
\<close>

definition depend :: "(string \<Rightarrow> bool) \<Rightarrow> rule_val \<Rightarrow> bool" where
  "depend sel param = (case param of VBool b \<Rightarrow> b | VStr s \<Rightarrow> sel s | _ \<Rightarrow> True)"

definition filled :: "elem list \<Rightarrow> elem \<Rightarrow> string option \<Rightarrow> bool" where
  "filled form el value =
     (case e_node el of
        SelectNode \<Rightarrow> e_value el \<noteq> []
      | CheckNode \<Rightarrow> getLength form (case value of Some s \<Rightarrow> s | None \<Rightarrow> []) el > 0
      | TextNode \<Rightarrow> js_trim (case value of Some s \<Rightarrow> s | None \<Rightarrow> []) \<noteq> [])"

definition required :: "(string \<Rightarrow> bool) \<Rightarrow> rule_method" where
  "required sel form el value param =
     Inr (if \<not> depend sel param then MMismatch else MBool (filled form el value))"

definition optional :: "elem list \<Rightarrow> elem \<Rightarrow> bool" where
  "optional form el = (\<not> filled form el (elementValue form el))"

definition text_rule :: "(string \<Rightarrow> bool) \<Rightarrow> rule_method" where
  "text_rule test form el value param =
     Inr (if optional form el then MMismatch else MBool (test (case value of Some s \<Rightarrow> s | None \<Rightarrow> ''undefined'')))"

definition num_param :: "rule_val \<Rightarrow> int option" where
  "num_param v = (case js_Number v of VNum n \<Rightarrow> Some n | _ \<Rightarrow> None)"

definition length_rule :: "(int \<Rightarrow> bool) \<Rightarrow> rule_method" where
  "length_rule test form el value param =
     (let len = getLength form (js_trim (case value of Some s \<Rightarrow> s | None \<Rightarrow> [])) el
      in Inr (if optional form el then MMismatch else MBool (test (int len))))"

definition minlength :: rule_method where
  "minlength form el value param =
     length_rule (\<lambda>len. case num_param param of Some n \<Rightarrow> len \<ge> n | None \<Rightarrow> False) form el value param"

definition maxlength :: rule_method where
  "maxlength form el value param =
     length_rule (\<lambda>len. case num_param param of Some n \<Rightarrow> len \<le> n | None \<Rightarrow> False) form el value param"

text \<open>\<open>param[ 0 ]\<close> of what is no array is undefined: the comparison is false.\<close>

definition rangelength :: rule_method where
  "rangelength form el value param =
     length_rule (\<lambda>len. case param of
         VArr (lo # hi # _) \<Rightarrow>
           (case (num_param lo, num_param hi) of (Some l, Some h) \<Rightarrow> len \<ge> l \<and> len \<le> h | _ \<Rightarrow> False)
       | _ \<Rightarrow> False) form el value param"

definition builtin_methods :: "(string \<Rightarrow> bool) \<Rightarrow> string \<Rightarrow> rule_method option" where
  "builtin_methods sel = map_of [(''required'', required sel), (''email'', text_rule email), (''dateISO'', text_rule dateISO),
     (''number'', text_rule number), (''digits'', text_rule digits), (''creditcard'', text_rule creditcard),
     (''minlength'', minlength), (''maxlength'', maxlength), (''rangelength'', rangelength)]"

section \<open>Questions to the server\<close>

definition startRequest :: "elem \<Rightarrow> validator \<Rightarrow> validator" where
  "startRequest el v =
     (if e_name el \<notin> pending v
      then v\<lparr>pendingRequest := pendingRequest v + 1, pending := insert (e_name el) (pending v)\<rparr> else v)"

text \<open>
  A new request on the port of a name aborts the one before it. A value that was asked about
  already gets the answer known, or the provisional one while the answer is awaited.
\<close>

definition remote :: "elem \<Rightarrow> string option \<Rightarrow> validator \<Rightarrow> method_result \<times> validator" where
  "remote el value v =
     (if optional (v_form v) el then (MMismatch, v)
      else
      (let previous = v_previous v (e_id el)
       in if prev_old previous = Some value then (MBool (prev_valid previous), v)
          else
          (let v = v\<lparr>v_previous := (v_previous v)(e_id el := previous\<lparr>prev_old := Some value\<rparr>)\<rparr>;
               v = startRequest el v
           in (MPending, v\<lparr>inflight := (inflight v)(e_name el \<mapsto> e_id el)\<rparr>))))"

section \<open>Checking\<close>

definition run_method :: "valid_env \<Rightarrow> elem \<Rightarrow> string option \<Rightarrow> string \<Rightarrow> rule_val \<Rightarrow> validator \<Rightarrow> (method_result \<times> validator) js" where
  "run_method E el val method param v =
     (if method = ''remote'' then Inr (remote el val v)
      else (case ve_methods E method of
              None \<Rightarrow> Inl TypeError
            | Some m \<Rightarrow> js_bind (m (v_form v) el val param) (\<lambda>r. Inr (r, v))))"

definition formatAndAdd :: "elem \<Rightarrow> string \<Rightarrow> validator \<Rightarrow> validator" where
  "formatAndAdd el method v =
     v\<lparr>errorList := errorList v @ [(e_id el, Some method)], errorMap := insert (e_name el) (errorMap v),
       submitted := insert (e_name el) (submitted v)\<rparr>"

fun check_loop :: "valid_env \<Rightarrow> elem \<Rightarrow> string option \<Rightarrow> nat \<Rightarrow> bool \<Rightarrow> rules \<Rightarrow> validator \<Rightarrow> (check_result \<times> validator) js" where
  "check_loop E el val rulesCount dependencyMismatch [] v =
     (if dependencyMismatch then Inr (CUndef, v)
      else Inr (CTrue, if rulesCount > 0 then v\<lparr>successList := successList v @ [e_id el]\<rparr> else v))"
| "check_loop E el val rulesCount dependencyMismatch ((method, param) # rs) v =
     js_bind (run_method E el val method param v) (\<lambda>(result, v).
       if result = MMismatch \<and> rulesCount = 1 then check_loop E el val rulesCount True rs v
       else if result = MPending then Inr (CUndef, v)
       else if result = MBool False then Inr (CFalse, formatAndAdd el method v)
       else check_loop E el val rulesCount False rs v)"

definition check :: "valid_env \<Rightarrow> elem \<Rightarrow> validator \<Rightarrow> (check_result \<times> validator) js" where
  "check E element v =
     (case validationTargetFor (v_form v) element of
        None \<Rightarrow> Inl TypeError
      | Some el \<Rightarrow>
          (let r = rules_of (ve_rules E) el
           in check_loop E el (elementValue (v_form v) el) (length r) False r v))"

definition reset :: "validator \<Rightarrow> validator" where
  "reset v = v\<lparr>successList := [], errorList := [], errorMap := {}, currentElements := []\<rparr>"

text \<open>
  \<open>defaultShowErrors\<close>: fields with an error get the error class, the other fields of the last
  check lose it; radio buttons and check boxes by their name.
\<close>

definition same_mark :: "elem list \<Rightarrow> nat \<Rightarrow> nat set" where
  "same_mark form i =
     (case filter (\<lambda>e. e_id e = i) form of
        [] \<Rightarrow> {i}
      | e # es \<Rightarrow> if e_type e = Some ''radio'' then set (map e_id (findByName (e_name e) form)) else {i})"

definition defaultShowErrors :: "validator \<Rightarrow> validator" where
  "defaultShowErrors v =
     (let errors = map fst (errorList v);
          valids = filter (\<lambda>i. i \<notin> set errors) (currentElements v);
          m = foldl (\<lambda>m i. m \<union> same_mark (v_form v) i) (marked v) errors
      in v\<lparr>marked := foldl (\<lambda>m i. m - same_mark (v_form v) i) m valids\<rparr>)"

definition showErrors :: "string list \<Rightarrow> validator \<Rightarrow> validator" where
  "showErrors errors v =
     defaultShowErrors
       (if errors = [] then v
        else v\<lparr>errorMap := errorMap v \<union> set errors,
               errorList := concat (map (\<lambda>name. case findByName name (v_form v) of [] \<Rightarrow> [] | e # es \<Rightarrow> [(e_id e, None)]) errors),
               successList := filter (\<lambda>i. \<not> list_ex (\<lambda>e. e_id e = i \<and> e_name e \<in> set errors) (v_form v)) (successList v)\<rparr>)"

fun check_all :: "valid_env \<Rightarrow> elem list \<Rightarrow> validator \<Rightarrow> validator js" where
  "check_all E [] v = Inr v"
| "check_all E (el # els) v = js_bind (check E el v) (\<lambda>(_, v). check_all E els v)"

definition checkForm :: "valid_env \<Rightarrow> validator \<Rightarrow> validator js" where
  "checkForm E v =
     (let els = elements (ve_rules E) (v_form v)
      in check_all E els ((reset v)\<lparr>currentElements := map e_id els\<rparr>))"

definition valid :: "validator \<Rightarrow> bool" where
  "valid v \<longleftrightarrow> errorList v = []"

definition form :: "valid_env \<Rightarrow> validator \<Rightarrow> (bool \<times> validator) js" where
  "form E v =
     js_bind (checkForm E v) (\<lambda>v.
       let v = v\<lparr>submitted := submitted v \<union> errorMap v, invalid := errorMap v\<rparr>;
           v = (if \<not> valid v then v\<lparr>v_log := v_log v @ [InvalidForm]\<rparr> else v);
           v = showErrors [] v
       in Inr (valid v, v))"

definition element :: "valid_env \<Rightarrow> elem \<Rightarrow> validator \<Rightarrow> (bool \<times> validator) js" where
  "element E cleanElement v =
     (let checkElement = validationTargetFor (v_form v) cleanElement;
          v = v\<lparr>lastElement := map_option e_id checkElement\<rparr>
      in case checkElement of
           None \<Rightarrow> Inr (True, showErrors [] (v\<lparr>invalid := invalid v - {e_name cleanElement}\<rparr>))
         | Some el \<Rightarrow>
             js_bind (check E el ((reset v)\<lparr>currentElements := [e_id el]\<rparr>)) (\<lambda>(res, v).
               let result = (res \<noteq> CFalse);
                   v = (if result then v\<lparr>invalid := invalid v - {e_name el}\<rparr> else v\<lparr>invalid := insert (e_name el) (invalid v)\<rparr>)
               in Inr (result, showErrors [] v)))"

section \<open>Submitting and answers\<close>

definition handle :: "validator \<Rightarrow> validator" where
  "handle v = v\<lparr>v_log := v_log v @ [FormSent]\<rparr>"

definition submit :: "valid_env \<Rightarrow> validator \<Rightarrow> validator js" where
  "submit E v =
     (if cancelSubmit v then Inr (handle (v\<lparr>cancelSubmit := False\<rparr>))
      else js_bind (form E v) (\<lambda>(ok, v).
        if ok then (if pendingRequest v \<noteq> 0 then Inr (v\<lparr>formSubmitted := True\<rparr>) else Inr (handle v))
        else Inr v))"

definition stopRequest :: "valid_env \<Rightarrow> string \<Rightarrow> bool \<Rightarrow> validator \<Rightarrow> validator js" where
  "stopRequest E name ok v =
     (let v = v\<lparr>pendingRequest := pendingRequest v - 1\<rparr>;
          v = (if pendingRequest v < 0 then v\<lparr>pendingRequest := 0\<rparr> else v);
          v = v\<lparr>pending := pending v - {name}\<rparr>
      in if ok \<and> pendingRequest v = 0 \<and> formSubmitted v
         then js_bind (form E v) (\<lambda>(ok', v).
                if ok' then js_bind (submit E v) (\<lambda>v. Inr (v\<lparr>formSubmitted := False\<rparr>)) else Inr v)
         else if \<not> ok \<and> pendingRequest v = 0 \<and> formSubmitted v
         then Inr (v\<lparr>v_log := v_log v @ [InvalidForm], formSubmitted := False\<rparr>)
         else Inr v)"

text \<open>The callback of a request, for the field it asked about.\<close>

definition remote_success :: "valid_env \<Rightarrow> elem \<Rightarrow> bool \<Rightarrow> validator \<Rightarrow> validator js" where
  "remote_success E el ok v =
     (let v = (if ok
               then (let v = reset v
                     in showErrors [] (v\<lparr>successList := successList v @ [e_id el], invalid := invalid v - {e_name el}\<rparr>))
               else showErrors [e_name el] (v\<lparr>invalid := insert (e_name el) (invalid v)\<rparr>));
          v = v\<lparr>v_previous := (v_previous v)(e_id el := (v_previous v (e_id el))\<lparr>prev_valid := ok\<rparr>)\<rparr>
      in stopRequest E (e_name el) ok v)"

section \<open>Events\<close>

text \<open>The handlers do nothing for a field that the setting \<open>ignore\<close> excludes.\<close>

definition onfocusout :: "valid_env \<Rightarrow> elem \<Rightarrow> validator \<Rightarrow> validator js" where
  "onfocusout E el v =
     (if \<not> checkable el \<and> (e_name el \<in> submitted v \<or> \<not> optional (v_form v) el)
      then js_bind (element E el v) (\<lambda>(_, v). Inr v) else Inr v)"

definition onkeyup :: "valid_env \<Rightarrow> bool \<Rightarrow> elem \<Rightarrow> validator \<Rightarrow> validator js" where
  "onkeyup E tab el v =
     (if tab \<and> elementValue (v_form v) el = Some [] then Inr v
      else if e_name el \<in> submitted v \<or> lastElement v = Some (e_id el)
      then js_bind (element E el v) (\<lambda>(_, v). Inr v) else Inr v)"

definition onclick :: "valid_env \<Rightarrow> elem \<Rightarrow> validator \<Rightarrow> validator js" where
  "onclick E el v = (if e_name el \<in> submitted v then js_bind (element E el v) (\<lambda>(_, v). Inr v) else Inr v)"

datatype form_action =
    EnterText nat string | Tick nat bool | LeaveField nat | KeyUpIn nat bool | ClickOn nat
  | CancelButton | SubmitForm | Answer string bool | Failure string

definition on_field :: "nat \<Rightarrow> (elem \<Rightarrow> validator \<Rightarrow> validator js) \<Rightarrow> validator \<Rightarrow> validator js" where
  "on_field i f v =
     (case filter (\<lambda>e. e_id e = i) (v_form v) of [] \<Rightarrow> Inr v | e # es \<Rightarrow> if e_ignored e then Inr v else f e v)"

definition edit :: "nat \<Rightarrow> (elem \<Rightarrow> elem) \<Rightarrow> validator \<Rightarrow> validator" where
  "edit i f v = v\<lparr>v_form := map (\<lambda>e. if e_id e = i then f e else e) (v_form v)\<rparr>"

fun form_step :: "valid_env \<Rightarrow> validator \<Rightarrow> form_action \<Rightarrow> validator js" where
  "form_step E v (EnterText i t) = Inr (edit i (\<lambda>e. e\<lparr>e_value := t\<rparr>) v)"
| "form_step E v (Tick i b) = Inr (edit i (\<lambda>e. e\<lparr>e_checked := b\<rparr>) v)"
| "form_step E v (LeaveField i) = on_field i (onfocusout E) v"
| "form_step E v (KeyUpIn i tab) = on_field i (onkeyup E tab) v"
| "form_step E v (ClickOn i) = on_field i (onclick E) v"
| "form_step E v CancelButton = Inr (v\<lparr>cancelSubmit := True\<rparr>)"
| "form_step E v SubmitForm = submit E v"
| "form_step E v (Answer n ok) =
     (case inflight v n of
        None \<Rightarrow> Inr v
      | Some i \<Rightarrow>
          (case filter (\<lambda>e. e_id e = i) (v_form v) of
             [] \<Rightarrow> Inr v
           | el # _ \<Rightarrow> remote_success E el ok (v\<lparr>inflight := (inflight v)(n := None)\<rparr>)))"
| "form_step E v (Failure n) = Inr (v\<lparr>inflight := (inflight v)(n := None)\<rparr>)"

definition form_run :: "valid_env \<Rightarrow> validator js \<Rightarrow> form_action \<Rightarrow> validator js" where
  "form_run E s a = js_bind s (\<lambda>v. form_step E v a)"

lemma form_run_step [simp]: "form_run E (Inr v) a = form_step E v a"
  by (simp add: form_run_def)

section \<open>What operations change\<close>

text \<open>
  Checking touches the lists of the last check, the reported names and the questions to the
  server, and nothing else; the questions only grow.
\<close>

definition requests_inv :: "validator \<Rightarrow> bool" where
  "requests_inv v \<longleftrightarrow> finite (pending v) \<and> pendingRequest v = int (card (pending v)) \<and> dom (inflight v) \<subseteq> pending v \<and>
     (\<forall>n i. inflight v n = Some i \<longrightarrow> (\<exists>e\<in>set (v_form v). e_id e = i \<and> e_name e = n)) \<and> distinct (map e_id (v_form v))"

definition same_frame :: "validator \<Rightarrow> validator \<Rightarrow> bool" where
  "same_frame v w \<longleftrightarrow> v_form w = v_form v \<and> cancelSubmit w = cancelSubmit v \<and> formSubmitted w = formSubmitted v \<and>
     v_log w = v_log v \<and> pending v \<subseteq> pending w \<and> (requests_inv v \<longrightarrow> requests_inv w)"

lemma same_frame_refl [simp]: "same_frame v v"
  by (simp add: same_frame_def)

lemma same_frame_trans: "same_frame u v \<Longrightarrow> same_frame v w \<Longrightarrow> same_frame u w"
  by (auto simp: same_frame_def)

text \<open>Fields the requests do not depend on.\<close>

lemma requests_inv_other:
  "requests_inv v \<Longrightarrow> v_form w = v_form v \<Longrightarrow> pending w = pending v \<Longrightarrow> pendingRequest w = pendingRequest v \<Longrightarrow>
   inflight w = inflight v \<Longrightarrow> requests_inv w"
  by (simp add: requests_inv_def)

lemma requests_inv_update [simp]:
  "requests_inv (v\<lparr>formSubmitted := b\<rparr>) = requests_inv v" "requests_inv (v\<lparr>cancelSubmit := b\<rparr>) = requests_inv v"
  "requests_inv (v\<lparr>v_log := l\<rparr>) = requests_inv v" "requests_inv (v\<lparr>v_log := l, formSubmitted := b\<rparr>) = requests_inv v"
  "requests_inv (v\<lparr>cancelSubmit := b, v_log := l\<rparr>) = requests_inv v" "requests_inv (v\<lparr>v_previous := q\<rparr>) = requests_inv v"
  by (simp_all add: requests_inv_def)

lemma same_frame_other:
  "v_form w = v_form v \<Longrightarrow> cancelSubmit w = cancelSubmit v \<Longrightarrow> formSubmitted w = formSubmitted v \<Longrightarrow> v_log w = v_log v \<Longrightarrow>
   pending w = pending v \<Longrightarrow> pendingRequest w = pendingRequest v \<Longrightarrow> inflight w = inflight v \<Longrightarrow> same_frame v w"
  by (simp add: same_frame_def requests_inv_def)

lemma remote_frame:
  assumes "el \<in> set (v_form v)"
  shows "same_frame v (snd (remote el val v))"
proof -
  have "requests_inv (snd (remote el val v))" if "requests_inv v"
  proof (cases "e_name el \<in> pending v")
    case True
    then show ?thesis using that assms by (auto simp: requests_inv_def remote_def startRequest_def Let_def)
  next
    case False
    then show ?thesis using that assms
      by (auto simp: requests_inv_def remote_def startRequest_def Let_def card_insert_disjoint)
  qed
  then show ?thesis
    by (auto simp: same_frame_def remote_def startRequest_def Let_def)
qed

lemma run_method_frame:
  "el \<in> set (v_form v) \<Longrightarrow> run_method E el val m p v = Inr (r, w) \<Longrightarrow> same_frame v w"
  using remote_frame [of el v val] by (auto simp: run_method_def js_bind_Inr_iff split: if_splits option.splits)

lemma formatAndAdd_frame [simp]: "same_frame v (formatAndAdd el m v)"
  by (auto simp: same_frame_def formatAndAdd_def requests_inv_def)

lemma check_loop_frame:
  "el \<in> set (v_form v) \<Longrightarrow> check_loop E el val n b rs v = Inr (res, w) \<Longrightarrow> same_frame v w"
proof (induction E el val n b rs v arbitrary: res w rule: check_loop.induct)
  case (1 E el val n b v)
  then show ?case by (auto intro: same_frame_other split: if_splits)
next
  case (2 E el val n b m p rs v)
  obtain r u where ru: "run_method E el val m p v = Inr (r, u)"
    using 2(4) by (auto simp: js_bind_Inr_iff)
  note f = run_method_frame [OF 2(3) ru]
  then have el: "el \<in> set (v_form u)" using 2(3) by (simp add: same_frame_def)
  show ?case
  proof (cases "r = MMismatch \<and> n = 1")
    case True
    then show ?thesis using 2(1) [OF True el] 2(4) ru f same_frame_trans by auto
  next
    case a: False
    show ?thesis
    proof (cases "r = MPending \<or> r = MBool False")
      case True
      then show ?thesis using a 2(4) ru f same_frame_trans [OF f formatAndAdd_frame] by auto
    next
      case False
      then show ?thesis using a 2(2) [OF a _ _ el] 2(4) ru f same_frame_trans by auto
    qed
  qed
qed

lemma check_frame:
  assumes "e \<in> set (v_form v)" "check E e v = Inr (res, w)"
  shows "same_frame v w"
proof -
  obtain el where el: "validationTargetFor (v_form v) e = Some el"
    using assms(2) by (auto simp: check_def split: option.splits)
  have "el \<in> set (v_form v)"
    using el assms(1) by (auto simp: validationTargetFor_def findByName_def split: if_splits list.splits dest: filter_eq_ConsD)
  then show ?thesis using check_loop_frame assms(2) el by (auto simp: check_def Let_def)
qed

lemma check_all_frame:
  "set els \<subseteq> set (v_form v) \<Longrightarrow> check_all E els v = Inr w \<Longrightarrow> same_frame v w"
proof (induction els arbitrary: v)
  case (Cons el els)
  obtain res u where u: "check E el v = Inr (res, u)" "check_all E els u = Inr w"
    using Cons.prems(2) by (auto simp: js_bind_Inr_iff)
  then have f: "same_frame v u" using check_frame Cons.prems(1) by auto
  then show ?case using Cons.IH [of u] Cons.prems(1) u(2) same_frame_trans [OF f] by (auto simp: same_frame_def)
qed simp

lemma elements_sub: "set (elements R fm) \<subseteq> set fm"
proof -
  have "set (elements_loop R c fm) \<subseteq> set fm" for c by (induction R c fm rule: elements_loop.induct) auto
  then show ?thesis by (simp add: elements_def)
qed

lemma reset_fields [simp]:
  "v_form (reset v) = v_form v" "cancelSubmit (reset v) = cancelSubmit v" "formSubmitted (reset v) = formSubmitted v"
  "v_log (reset v) = v_log v" "pending (reset v) = pending v" "pendingRequest (reset v) = pendingRequest v"
  "inflight (reset v) = inflight v" "errorList (reset v) = []" "v_previous (reset v) = v_previous v" "submitted (reset v) = submitted v"
  by (simp_all add: reset_def)

lemma showErrors_fields [simp]:
  "v_form (showErrors es v) = v_form v" "cancelSubmit (showErrors es v) = cancelSubmit v"
  "formSubmitted (showErrors es v) = formSubmitted v" "v_log (showErrors es v) = v_log v" "pending (showErrors es v) = pending v"
  "pendingRequest (showErrors es v) = pendingRequest v" "inflight (showErrors es v) = inflight v"
  "v_previous (showErrors es v) = v_previous v" "errorList (showErrors [] v) = errorList v"
  by (simp_all add: showErrors_def defaultShowErrors_def Let_def)

lemma checkForm_frame: "checkForm E v = Inr w \<Longrightarrow> same_frame v w"
proof -
  assume c: "checkForm E v = Inr w"
  let ?r = "(reset v)\<lparr>currentElements := map e_id (elements (ve_rules E) (v_form v))\<rparr>"
  have "same_frame v ?r" by (rule same_frame_other) simp_all
  moreover have "same_frame ?r w"
    using c elements_sub [of "ve_rules E" "v_form v"] by (intro check_all_frame) (auto simp: checkForm_def Let_def)
  ultimately show ?thesis by (rule same_frame_trans)
qed

text \<open>A check of the form: the frame, the result, and what it may add to the log.\<close>

lemma form_shape:
  assumes "form E v = Inr (ok, w)"
  obtains u where "checkForm E v = Inr u" "ok \<longleftrightarrow> errorList u = []" "v_form w = v_form v" "cancelSubmit w = cancelSubmit v"
    "formSubmitted w = formSubmitted v" "pending w = pending u" "pendingRequest w = pendingRequest u" "inflight w = inflight u"
    "v_previous w = v_previous u" "errorList w = errorList u" "pending v \<subseteq> pending w"
    "v_log w = v_log v @ (if ok then [] else [InvalidForm])" "requests_inv v \<Longrightarrow> requests_inv w"
proof -
  obtain u where u: "checkForm E v = Inr u" using assms by (auto simp: form_def js_bind_Inr_iff)
  note f = checkForm_frame [OF u]
  have fields: "ok \<longleftrightarrow> errorList u = []" "v_form w = v_form v" "cancelSubmit w = cancelSubmit v"
    "formSubmitted w = formSubmitted v" "pending w = pending u" "pendingRequest w = pendingRequest u" "inflight w = inflight u"
    "v_previous w = v_previous u" "errorList w = errorList u" "pending v \<subseteq> pending w"
    "v_log w = v_log v @ (if ok then [] else [InvalidForm])"
    using assms f by (auto simp: form_def u valid_def same_frame_def Let_def split: if_splits)
  have "requests_inv v \<Longrightarrow> requests_inv w"
    using f requests_inv_other [of u w] fields by (simp add: same_frame_def)
  then show ?thesis using that [OF u fields] by blast
qed

lemma form_frame:
  "form E v = Inr (ok, w) \<Longrightarrow> v_form w = v_form v \<and> pending v \<subseteq> pending w \<and> (requests_inv v \<longrightarrow> requests_inv w)"
  by (erule form_shape) blast

lemma element_frame:
  assumes "el \<in> set (v_form v)" "element E el v = Inr (ok, w)"
  shows "same_frame v w"
proof (cases "validationTargetFor (v_form v) el")
  case None
  then show ?thesis using assms(2) by (auto simp: element_def intro: same_frame_other)
next
  case (Some t)
  let ?r = "(reset (v\<lparr>lastElement := Some (e_id t)\<rparr>))\<lparr>currentElements := [e_id t]\<rparr>"
  obtain res u where u: "check E t ?r = Inr (res, u)"
    using assms(2) Some by (auto simp: element_def js_bind_Inr_iff)
  have t: "t \<in> set (v_form v)"
    using Some assms(1) by (auto simp: validationTargetFor_def findByName_def split: if_splits list.splits dest: filter_eq_ConsD)
  have "same_frame v ?r" by (rule same_frame_other) simp_all
  moreover have "same_frame ?r u" using check_frame [OF _ u] t by simp
  moreover have "same_frame u w"
    using assms(2) Some u by (auto simp: element_def Let_def intro!: same_frame_other split: if_splits)
  ultimately show ?thesis using same_frame_trans by blast
qed

section \<open>No operation raises\<close>

text \<open>Every rule a field can have names a method, and the methods return; only \<open>remote\<close> waits.\<close>

definition methods_ok :: "valid_env \<Rightarrow> bool" where
  "methods_ok E \<longleftrightarrow> (\<forall>fm el m p val. (m, p) \<in> set (rules_of (ve_rules E) el) \<longrightarrow>
     m = ''remote'' \<or> (\<exists>f r. ve_methods E m = Some f \<and> f fm el val p = Inr r \<and> r \<noteq> MPending))"

lemma run_method_total:
  assumes "methods_ok E" "(m, p) \<in> set (rules_of (ve_rules E) el)"
  shows "\<exists>r w. run_method E el val m p v = Inr (r, w)"
proof (cases "m = ''remote''")
  case True
  then show ?thesis by (cases "remote el val v") (simp add: run_method_def)
next
  case False
  then obtain f r where "ve_methods E m = Some f" "f (v_form v) el val p = Inr r"
    using assms unfolding methods_ok_def by meson
  then show ?thesis using False by (simp add: run_method_def)
qed

lemma check_loop_total:
  "methods_ok E \<Longrightarrow> set rs \<subseteq> set (rules_of (ve_rules E) el) \<Longrightarrow> \<exists>res w. check_loop E el val n b rs v = Inr (res, w)"
proof (induction rs arbitrary: b v)
  case (Cons e rs)
  obtain m p where e: "e = (m, p)" by (cases e)
  then obtain r w where "run_method E el val m p v = Inr (r, w)"
    using run_method_total [OF Cons.prems(1), of m p el val v] Cons.prems(2) by auto
  then show ?case using Cons e by auto
qed simp

lemma check_total:
  assumes "methods_ok E" "checkable el \<longrightarrow> el \<in> set (v_form v) \<and> \<not> e_ignored el"
  shows "\<exists>res w. check E el v = Inr (res, w)"
proof -
  have "\<exists>t. validationTargetFor (v_form v) el = Some t"
    using assms(2) by (auto simp: validationTargetFor_def findByName_def filter_empty_conv split: list.splits)
  then obtain t where "validationTargetFor (v_form v) el = Some t" by blast
  then show ?thesis
    using check_loop_total [OF assms(1) subset_refl, of t "elementValue (v_form v) t" "length (rules_of (ve_rules E) t)" False v]
    by (simp add: check_def Let_def)
qed

lemma check_all_total:
  "methods_ok E \<Longrightarrow> \<forall>el\<in>set els. el \<in> set (v_form v) \<and> \<not> e_ignored el \<Longrightarrow> \<exists>w. check_all E els v = Inr w"
proof (induction els arbitrary: v)
  case (Cons el els)
  obtain res u where u: "check E el v = Inr (res, u)" using check_total [OF Cons.prems(1), of el v] Cons.prems(2) by auto
  have "v_form u = v_form v" using check_frame [OF _ u] Cons.prems(2) by (simp add: same_frame_def)
  then show ?case using Cons.IH [of u] Cons.prems u by auto
qed simp

lemma elements_shown: "el \<in> set (elements R fm) \<Longrightarrow> \<not> e_ignored el"
proof -
  have "el \<in> set (elements_loop R c fm) \<Longrightarrow> \<not> e_ignored el" for c
    by (induction R c fm rule: elements_loop.induct) (auto split: if_splits)
  then show "el \<in> set (elements R fm) \<Longrightarrow> ?thesis" by (simp add: elements_def)
qed

lemma form_total: "methods_ok E \<Longrightarrow> \<exists>ok w. form E v = Inr (ok, w)"
proof -
  assume ok: "methods_ok E"
  let ?r = "(reset v)\<lparr>currentElements := map e_id (elements (ve_rules E) (v_form v))\<rparr>"
  have "\<exists>w. check_all E (elements (ve_rules E) (v_form v)) ?r = Inr w"
    using elements_sub [of "ve_rules E" "v_form v"] elements_shown by (intro check_all_total [OF ok]) auto
  then show ?thesis by (auto simp: form_def checkForm_def Let_def)
qed

lemma element_total: "methods_ok E \<Longrightarrow> el \<in> set (v_form v) \<Longrightarrow> \<exists>ok w. element E el v = Inr (ok, w)"
proof -
  assume ok: "methods_ok E" "el \<in> set (v_form v)"
  show ?thesis
  proof (cases "validationTargetFor (v_form v) el")
    case None
    then show ?thesis by (auto simp: element_def)
  next
    case (Some t)
    let ?r = "(reset (v\<lparr>lastElement := Some (e_id t)\<rparr>))\<lparr>currentElements := [e_id t]\<rparr>"
    have "checkable t \<longrightarrow> t \<in> set (v_form v) \<and> \<not> e_ignored t"
      using Some by (auto simp: validationTargetFor_def findByName_def split: if_splits list.splits dest: filter_eq_ConsD)
    then obtain res u where "check E t ?r = Inr (res, u)" using check_total [OF ok(1), of t ?r] by auto
    then show ?thesis using Some by (simp add: element_def Let_def)
  qed
qed

section \<open>The invariant of the requests\<close>

lemma submit_shape:
  assumes "submit E v = Inr w"
  shows "v_form w = v_form v \<and> pending v \<subseteq> pending w \<and> (requests_inv v \<longrightarrow> requests_inv w)"
proof (cases "cancelSubmit v")
  case True
  then show ?thesis using assms by (auto simp: submit_def handle_def)
next
  case False
  then obtain ok u where u: "form E v = Inr (ok, u)" using assms by (auto simp: submit_def js_bind_Inr_iff)
  then have "w = u \<or> w = u\<lparr>formSubmitted := True\<rparr> \<or> w = handle u" using assms False by (auto simp: submit_def split: if_splits)
  moreover note form_frame [OF u]
  ultimately show ?thesis by (auto simp: handle_def)
qed

lemma submit_total: "methods_ok E \<Longrightarrow> \<exists>w. submit E v = Inr w"
  using form_total [of E v] by (auto simp: submit_def)

text \<open>
  The counter is never negative, so that the correction in \<open>stopRequest\<close> is not needed: the
  name of the answered request is among the pending ones.
\<close>

definition stopped :: "string \<Rightarrow> validator \<Rightarrow> validator" where
  "stopped n v = v\<lparr>pendingRequest := pendingRequest v - 1, pending := pending v - {n}\<rparr>"

lemma stopped_inv:
  assumes "requests_inv v" "n \<in> pending v" "inflight v n = None"
  shows "requests_inv (stopped n v)"
proof -
  have "card (pending v) > 0" using assms(1,2) by (auto simp: requests_inv_def card_gt_0_iff)
  then show ?thesis using assms by (auto simp: requests_inv_def stopped_def card_Diff_singleton)
qed

lemma stopRequest_stopped:
  assumes "requests_inv v" "n \<in> pending v"
  shows "stopRequest E n ok v =
    (let v = stopped n v
     in if ok \<and> pendingRequest v = 0 \<and> formSubmitted v
        then js_bind (form E v) (\<lambda>(ok', v).
               if ok' then js_bind (submit E v) (\<lambda>v. Inr (v\<lparr>formSubmitted := False\<rparr>)) else Inr v)
        else if \<not> ok \<and> pendingRequest v = 0 \<and> formSubmitted v
        then Inr (v\<lparr>v_log := v_log v @ [InvalidForm], formSubmitted := False\<rparr>)
        else Inr v)"
proof -
  have "card (pending v) > 0" using assms by (auto simp: requests_inv_def card_gt_0_iff)
  then have "pendingRequest v > 0" using assms(1) unfolding requests_inv_def by linarith
  then have "\<not> pendingRequest v - 1 < 0" by simp
  then show ?thesis by (simp add: stopRequest_def stopped_def Let_def)
qed

lemma stopRequest_inv:
  assumes "requests_inv v" "n \<in> pending v" "inflight v n = None"
  shows "stopRequest E n ok v = Inr w \<Longrightarrow> requests_inv w" "methods_ok E \<Longrightarrow> \<exists>w. stopRequest E n ok v = Inr w"
proof -
  note inv = stopped_inv [OF assms]
  show "requests_inv w" if w: "stopRequest E n ok v = Inr w"
  proof (cases "ok \<and> pendingRequest (stopped n v) = 0 \<and> formSubmitted (stopped n v)")
    case True
    then obtain ok' u where u: "form E (stopped n v) = Inr (ok', u)"
      "(if ok' then js_bind (submit E u) (\<lambda>v. Inr (v\<lparr>formSubmitted := False\<rparr>)) else Inr u) = Inr w"
      using w unfolding stopRequest_stopped [OF assms(1,2)] Let_def by (auto simp: js_bind_Inr_iff)
    then have "requests_inv u" using form_frame [OF u(1)] inv by simp
    then show ?thesis using u(2) submit_shape [of E u] by (auto simp: js_bind_Inr_iff split: if_splits)
  next
    case False
    then show ?thesis using w inv unfolding stopRequest_stopped [OF assms(1,2)] Let_def
      by (auto split: if_splits)
  qed
  show "\<exists>w. stopRequest E n ok v = Inr w" if m: "methods_ok E"
  proof -
    obtain ok' u where "form E (stopped n v) = Inr (ok', u)" using form_total [OF m] by blast
    moreover obtain x where "submit E u = Inr x" using submit_total [OF m] by blast
    ultimately show ?thesis unfolding stopRequest_stopped [OF assms(1,2)] Let_def by auto
  qed
qed

lemma remote_success_inv:
  assumes "requests_inv v" "e_name el \<in> pending v" "inflight v (e_name el) = None"
  shows "remote_success E el ok v = Inr w \<Longrightarrow> requests_inv w" "methods_ok E \<Longrightarrow> \<exists>w. remote_success E el ok v = Inr w"
proof -
  define u where "u = (if ok then (let v = reset v
      in showErrors [] (v\<lparr>successList := successList v @ [e_id el], invalid := invalid v - {e_name el}\<rparr>))
    else showErrors [e_name el] (v\<lparr>invalid := insert (e_name el) (invalid v)\<rparr>))"
  define x where "x = u\<lparr>v_previous := (v_previous u)(e_id el := (v_previous u (e_id el))\<lparr>prev_valid := ok\<rparr>)\<rparr>"
  have r: "remote_success E el ok v = stopRequest E (e_name el) ok x"
    unfolding remote_success_def u_def x_def Let_def by (rule refl)
  have "requests_inv x" "pending x = pending v" "inflight x = inflight v"
    using requests_inv_other [OF assms(1), of x] by (auto simp: x_def u_def Let_def)
  then have x: "requests_inv x" "e_name el \<in> pending x" "inflight x (e_name el) = None" using assms(2,3) by simp_all
  show "remote_success E el ok v = Inr w \<Longrightarrow> requests_inv w" "methods_ok E \<Longrightarrow> \<exists>w. remote_success E el ok v = Inr w"
    unfolding r by (fact stopRequest_inv [OF x])+
qed

lemma edit_inv:
  assumes "requests_inv v" "\<And>e. e_id (f e) = e_id e" "\<And>e. e_name (f e) = e_name e"
  shows "requests_inv (edit i f v)"
proof -
  have "e_id \<circ> (\<lambda>e. if e_id e = i then f e else e) = e_id" using assms(2) by auto
  moreover have "\<exists>e\<in>set (map (\<lambda>e. if e_id e = i then f e else e) (v_form v)). e_id e = j \<and> e_name e = n"
    if nj: "inflight v n = Some j" for n j
  proof -
    obtain e where "e \<in> set (v_form v)" "e_id e = j" "e_name e = n"
      using nj assms(1) unfolding requests_inv_def by blast
    then show ?thesis using assms(2,3) by (intro bexI [of _ "if e_id e = i then f e else e"]) auto
  qed
  ultimately show ?thesis using assms(1) by (simp only: requests_inv_def edit_def validator.simps) simp
qed

lemma field_found:
  "filter (\<lambda>e. e_id e = i) fm = el # es \<Longrightarrow> el \<in> set fm \<and> e_id el = i"
  by (auto dest: filter_eq_ConsD)

lemma on_field_cases:
  assumes "on_field i f v = s" "\<And>e. e \<in> set (v_form v) \<Longrightarrow> \<not> e_ignored e \<Longrightarrow> P (f e v)" "P (Inr v)"
  shows "P s"
proof (cases "filter (\<lambda>e. e_id e = i) (v_form v)")
  case Nil
  then have "s = Inr v" using assms(1) by (simp add: on_field_def)
  then show ?thesis using assms(3) by simp
next
  case (Cons e es)
  then have "s = (if e_ignored e then Inr v else f e v)" using assms(1) by (simp add: on_field_def)
  then show ?thesis using assms(2) [of e] assms(3) field_found [OF Cons] by simp
qed

definition run_ok :: "valid_env \<Rightarrow> validator js \<Rightarrow> bool" where
  "run_ok E s = (case s of Inr v \<Rightarrow> requests_inv v | Inl e \<Rightarrow> \<not> methods_ok E)"

lemma run_ok_element:
  assumes "requests_inv v" "el \<in> set (v_form v)"
  shows "run_ok E (js_bind (element E el v) (\<lambda>(_, v). Inr v))"
proof (cases "element E el v")
  case (Inl e)
  then show ?thesis using element_total [of E el v] assms(2) by (auto simp: run_ok_def)
next
  case (Inr p)
  then show ?thesis using element_frame [of el v E "fst p" "snd p"] assms by (cases p) (simp add: run_ok_def same_frame_def)
qed

lemma form_step_ok:
  assumes "requests_inv v"
  shows "run_ok E (form_step E v a)"
proof (cases a)
  case (LeaveField i)
  have "run_ok E (onfocusout E e v)" if "e \<in> set (v_form v)" for e
    using run_ok_element [OF assms that] assms by (simp add: onfocusout_def run_ok_def)
  then show ?thesis using LeaveField on_field_cases [OF refl, of v "run_ok E"] assms by (simp add: run_ok_def)
next
  case (KeyUpIn i t)
  have "run_ok E (onkeyup E t e v)" if "e \<in> set (v_form v)" for e
    using run_ok_element [OF assms that] assms by (simp add: onkeyup_def run_ok_def)
  then show ?thesis using KeyUpIn on_field_cases [OF refl, of v "run_ok E"] assms by (simp add: run_ok_def)
next
  case (ClickOn i)
  have "run_ok E (onclick E e v)" if "e \<in> set (v_form v)" for e
    using run_ok_element [OF assms that] assms by (simp add: onclick_def run_ok_def)
  then show ?thesis using ClickOn on_field_cases [OF refl, of v "run_ok E"] assms by (simp add: run_ok_def)
next
  case SubmitForm
  then show ?thesis using submit_shape [of E v] submit_total [of E v] assms by (auto simp: run_ok_def split: sum.splits)
next
  case (Answer n ok)
  show ?thesis
  proof (cases "inflight v n")
    case None
    then show ?thesis using Answer assms by (simp add: run_ok_def)
  next
    case (Some i)
    obtain e where e: "e \<in> set (v_form v)" "e_id e = i" "e_name e = n" and d: "distinct (map e_id (v_form v))"
      using Some assms unfolding requests_inv_def by blast
    obtain el es where el: "filter (\<lambda>e. e_id e = i) (v_form v) = el # es"
      using e by (cases "filter (\<lambda>e. e_id e = i) (v_form v)") (auto simp: filter_empty_conv)
    then have "el = e" using field_found [OF el] e d by (metis distinct_map inj_onD)
    let ?v = "v\<lparr>inflight := (inflight v)(n := None)\<rparr>"
    have "requests_inv ?v" "e_name el \<in> pending ?v" "inflight ?v (e_name el) = None"
      using assms Some e(3) \<open>el = e\<close> by (auto simp: requests_inv_def)
    from remote_success_inv [OF this, of E ok] show ?thesis
      using Answer Some el by (auto simp: run_ok_def split: sum.splits)
  qed
next
  case (Failure n)
  then show ?thesis using assms by (auto simp: run_ok_def requests_inv_def)
qed (use assms in \<open>simp_all add: run_ok_def edit_inv\<close>)

interpretation validation: step_invariant "form_run E" "run_ok E" for E
proof unfold_locales
  fix s a
  assume s: "run_ok E s"
  show "run_ok E (form_run E s a)"
  proof (cases s)
    case (Inl e)
    then show ?thesis using s by (simp add: form_run_def run_ok_def)
  next
    case (Inr v)
    then show ?thesis using s form_step_ok [of v E a] by (simp add: form_run_def run_ok_def)
  qed
qed

text \<open>
  C4: the questions to the server. Whatever the user types, ticks, leaves and submits, and in
  whatever order answers and failures arrive: no handler raises, and the number of pending
  requests is the number of the names that wait for an answer, so that it never goes below
  zero; every request in flight is for such a name.
\<close>

theorem pending_requests_counted:
  assumes "methods_ok E" "distinct (map e_id fm)"
  shows "\<exists>v. foldl (form_run E) (Inr (new_validator fm)) as = Inr v \<and>
    finite (pending v) \<and> pendingRequest v = int (card (pending v)) \<and> dom (inflight v) \<subseteq> pending v"
proof -
  have "run_ok E (Inr (new_validator fm))" using assms(2) by (simp add: run_ok_def new_validator_def requests_inv_def)
  from validation.run_keeps [OF this, of as] show ?thesis
    using assms(1) by (auto simp: run_ok_def requests_inv_def split: sum.splits)
qed

section \<open>Only valid forms are sent\<close>

definition rule_passes :: "valid_env \<Rightarrow> validator \<Rightarrow> elem \<Rightarrow> string \<times> rule_val \<Rightarrow> bool" where
  "rule_passes E v el mp =
     (case run_method E el (elementValue (v_form v) el) (fst mp) (snd mp) v of
        Inr (r, _) \<Rightarrow> r = MBool True \<or> r = MMismatch | Inl e \<Rightarrow> False)"

definition field_passes :: "valid_env \<Rightarrow> validator \<Rightarrow> elem \<Rightarrow> bool" where
  "field_passes E v el =
     (case validationTargetFor (v_form v) el of
        Some t \<Rightarrow> list_all (rule_passes E v t) (rules_of (ve_rules E) t) | None \<Rightarrow> False)"

lemma remote_pending: "remote el val v = (r, w) \<Longrightarrow> r \<noteq> MPending \<Longrightarrow> w = v" "remote el val v = (MPending, w) \<Longrightarrow> e_name el \<in> pending w"
  by (auto simp: remote_def startRequest_def Let_def split: if_splits)

lemma run_method_pending:
  assumes "methods_ok E" "mp \<in> set (rules_of (ve_rules E) el)" "run_method E el val (fst mp) (snd mp) v = Inr (r, w)"
  shows "r \<noteq> MPending \<Longrightarrow> w = v" "r = MPending \<Longrightarrow> e_name el \<in> pending w"
proof -
  obtain m p where mp: "mp = (m, p)" by (cases mp)
  show "w = v" if r: "r \<noteq> MPending"
    using assms(3) r remote_pending(1) mp by (auto simp: run_method_def js_bind_Inr_iff split: if_splits option.splits)
  show "e_name el \<in> pending w" if r: "r = MPending"
  proof (cases "m = ''remote''")
    case True
    then show ?thesis using assms(3) r remote_pending(2) mp by (auto simp: run_method_def)
  next
    case False
    then obtain f r' where "ve_methods E m = Some f" "f (v_form v) el val p = Inr r'" "r' \<noteq> MPending"
      using assms(1,2) mp unfolding methods_ok_def by meson
    then show ?thesis using False assms(3) r mp by (simp add: run_method_def)
  qed
qed

text \<open>What a check changes when every rule passes; and that it is the only way to change nothing.\<close>

lemma check_loop_pass:
  "\<forall>mp\<in>set rs. rule_passes E v el mp \<Longrightarrow> methods_ok E \<Longrightarrow> set rs \<subseteq> set (rules_of (ve_rules E) el) \<Longrightarrow>
   \<exists>res xs. check_loop E el (elementValue (v_form v) el) n b rs v = Inr (res, v\<lparr>successList := xs\<rparr>)"
proof (induction rs arbitrary: b)
  case Nil
  have "v = v\<lparr>successList := successList v\<rparr>" by simp
  then show ?case by (cases b; cases "n > 0") (auto intro: exI [of _ "successList v"])
next
  case (Cons mp rs)
  obtain r u where ru: "run_method E el (elementValue (v_form v) el) (fst mp) (snd mp) v = Inr (r, u)" "r = MBool True \<or> r = MMismatch"
    using Cons.prems(1) by (auto simp: rule_passes_def split: sum.splits)
  then have "u = v" using run_method_pending(1) [OF Cons.prems(2) _ ru(1)] Cons.prems(3) by auto
  then show ?case using Cons ru by (cases mp) auto
qed

lemma check_loop_clean:
  "check_loop E el (elementValue (v_form v) el) n b rs v = Inr (res, w) \<Longrightarrow> el \<in> set (v_form v) \<Longrightarrow> methods_ok E \<Longrightarrow>
   set rs \<subseteq> set (rules_of (ve_rules E) el) \<Longrightarrow> length (errorList w) \<le> length (errorList v) \<Longrightarrow> pending w = {} \<Longrightarrow>
   \<forall>mp\<in>set rs. rule_passes E v el mp"
proof (induction rs arbitrary: b)
  case (Cons mp rs)
  let ?val = "elementValue (v_form v) el"
  obtain m p where mp: "mp = (m, p)" by (cases mp)
  obtain r u where ru: "run_method E el ?val m p v = Inr (r, u)" using Cons.prems(1) mp by (auto simp: js_bind_Inr_iff)
  have pend: "r \<noteq> MPending \<Longrightarrow> u = v" "r = MPending \<Longrightarrow> e_name el \<in> pending u"
    using run_method_pending [OF Cons.prems(3), of mp el ?val v r u] ru mp Cons.prems(4) by auto
  have np: "r \<noteq> MPending"
  proof
    assume "r = MPending"
    then have "w = u" "e_name el \<in> pending u" using Cons.prems(1) mp ru pend(2) by auto
    then show False using Cons.prems(6) by auto
  qed
  have nf: "r \<noteq> MBool False"
    using Cons.prems(1,5) mp ru np pend(1) by (auto simp: formatAndAdd_def)
  have "\<exists>b'. check_loop E el ?val n b' rs v = Inr (res, w)"
    using Cons.prems(1) mp ru np nf pend(1) by (auto split: if_splits)
  then have "\<forall>mp\<in>set rs. rule_passes E v el mp" using Cons.IH Cons.prems by auto
  moreover have "rule_passes E v el mp"
    using ru np nf mp by (cases r) (auto simp: rule_passes_def)
  ultimately show ?case by simp
qed simp

lemma rule_passes_cong:
  "v_form w = v_form v \<Longrightarrow> v_previous w = v_previous v \<Longrightarrow> rule_passes E w el mp = rule_passes E v el mp"
proof -
  assume same: "v_form w = v_form v" "v_previous w = v_previous v"
  let ?val = "elementValue (v_form v) el" and ?m = "fst mp"
  show "rule_passes E w el mp = rule_passes E v el mp"
  proof (cases "?m = ''remote''")
    case True
    have "fst (remote el ?val w) = fst (remote el ?val v)" using same by (simp add: remote_def Let_def)
    then show ?thesis using True same by (simp add: rule_passes_def run_method_def split_beta)
  next
    case False
    show ?thesis
    proof (cases "ve_methods E ?m")
      case None
      then show ?thesis using False by (simp add: rule_passes_def run_method_def)
    next
      case (Some f)
      then show ?thesis using False same
        by (cases "f (v_form v) el ?val (snd mp)") (simp_all add: rule_passes_def run_method_def)
    qed
  qed
qed

lemma field_passes_cong:
  "v_form w = v_form v \<Longrightarrow> v_previous w = v_previous v \<Longrightarrow> field_passes E w el = field_passes E v el"
  by (simp add: field_passes_def rule_passes_cong [of w v] list_all_iff split: option.split)

lemma check_loop_errors:
  "check_loop E el val n b rs v = Inr (res, w) \<Longrightarrow> length (errorList v) \<le> length (errorList w)"
proof (induction rs arbitrary: b v)
  case (Cons mp rs)
  obtain m p where mp: "mp = (m, p)" by (cases mp)
  obtain r u where ru: "run_method E el val m p v = Inr (r, u)" using Cons.prems mp by (auto simp: js_bind_Inr_iff)
  have "errorList u = errorList v"
    using ru by (auto simp: run_method_def remote_def startRequest_def js_bind_Inr_iff Let_def split: if_splits option.splits)
  then show ?case using Cons.prems Cons.IH [of True u] Cons.IH [of False u] ru mp by (auto simp: formatAndAdd_def split: if_splits)
qed (auto split: if_splits)

lemma check_all_errors: "check_all E els v = Inr w \<Longrightarrow> length (errorList v) \<le> length (errorList w)"
proof (induction els arbitrary: v)
  case (Cons el els)
  obtain res u where u: "check E el v = Inr (res, u)" "check_all E els u = Inr w" using Cons.prems by (auto simp: js_bind_Inr_iff)
  have "length (errorList v) \<le> length (errorList u)"
    using u(1) check_loop_errors by (auto simp: check_def Let_def split: option.splits)
  then show ?case using Cons.IH [OF u(2)] by simp
qed simp

lemma check_pass:
  "field_passes E v el \<Longrightarrow> methods_ok E \<Longrightarrow> \<exists>res xs. check E el v = Inr (res, v\<lparr>successList := xs\<rparr>)"
  using check_loop_pass [of _ E v] by (auto simp: field_passes_def check_def list_all_iff Let_def split: option.splits)

lemma check_clean:
  assumes "check E el v = Inr (res, w)" "el \<in> set (v_form v)" "methods_ok E" "length (errorList w) \<le> length (errorList v)" "pending w = {}"
  shows "field_passes E v el"
proof -
  obtain t where t: "validationTargetFor (v_form v) el = Some t" using assms(1) by (auto simp: check_def split: option.splits)
  have "t \<in> set (v_form v)"
    using t assms(2) by (auto simp: validationTargetFor_def findByName_def split: if_splits list.splits dest: filter_eq_ConsD)
  then show ?thesis
    using check_loop_clean [of E t v _ False "rules_of (ve_rules E) t" res w] assms t
    by (simp add: check_def field_passes_def list_all_iff Let_def)
qed

lemma check_all_pass:
  "\<forall>el\<in>set els. field_passes E v el \<Longrightarrow> methods_ok E \<Longrightarrow> \<exists>xs. check_all E els v = Inr (v\<lparr>successList := xs\<rparr>)"
proof (induction els arbitrary: v)
  case Nil
  have "v = v\<lparr>successList := successList v\<rparr>" by simp
  then show ?case by (intro exI [of _ "successList v"]) simp
next
  case (Cons el els)
  have "field_passes E v el" using Cons.prems(1) by simp
  from check_pass [OF this Cons.prems(2)] obtain res xs where u: "check E el v = Inr (res, v\<lparr>successList := xs\<rparr>)" by blast
  have "\<forall>el\<in>set els. field_passes E (v\<lparr>successList := xs\<rparr>) el"
    using Cons.prems(1) field_passes_cong [of "v\<lparr>successList := xs\<rparr>" v] by simp
  from Cons.IH [OF this Cons.prems(2)] show ?case using u by auto
qed

lemma check_all_clean:
  "check_all E els v = Inr w \<Longrightarrow> set els \<subseteq> set (v_form v) \<Longrightarrow> methods_ok E \<Longrightarrow> length (errorList w) \<le> length (errorList v) \<Longrightarrow>
   pending w = {} \<Longrightarrow> \<forall>el\<in>set els. field_passes E v el"
proof (induction els arbitrary: v)
  case (Cons el els)
  obtain res u where u: "check E el v = Inr (res, u)" "check_all E els u = Inr w" using Cons.prems(1) by (auto simp: js_bind_Inr_iff)
  have fr: "same_frame v u" using check_frame [OF _ u(1)] Cons.prems(2) by simp
  have "length (errorList u) \<le> length (errorList w)" by (rule check_all_errors [OF u(2)])
  then have le: "length (errorList u) \<le> length (errorList v)" using Cons.prems(4) by simp
  have "same_frame u w" using check_all_frame [OF _ u(2)] fr Cons.prems(2) by (simp add: same_frame_def)
  then have "pending u = {}" using Cons.prems(5) by (auto simp: same_frame_def)
  then have el: "field_passes E v el" using check_clean [OF u(1) _ Cons.prems(3) le] Cons.prems(2) by simp
  then obtain xs where uv: "u = v\<lparr>successList := xs\<rparr>" using check_pass [OF el Cons.prems(3)] u(1) by auto
  have "\<forall>e\<in>set els. field_passes E u e"
    using Cons.IH [OF u(2)] Cons.prems uv by simp
  then show ?case using el uv field_passes_cong [of u v] by simp
qed simp

text \<open>
  C3: submitting. In every state the user and the server can lead to, and unless the user
  pressed a button that cancels validation, submitting sends the form exactly when no
  question to the server is open and every rule of every field passes, the server's answers
  for the current values included; it never raises.
\<close>

theorem submit_sends_valid:
  assumes "methods_ok E" "distinct (map e_id fm)" "foldl (form_run E) (Inr (new_validator fm)) as = Inr v" "\<not> cancelSubmit v"
  shows "\<exists>w. submit E v = Inr w \<and>
    (v_log w = v_log v @ [FormSent] \<longleftrightarrow> pending v = {} \<and> (\<forall>el\<in>set (elements (ve_rules E) (v_form v)). field_passes E v el))"
proof -
  have "run_ok E (Inr (new_validator fm))" using assms(2) by (simp add: run_ok_def new_validator_def requests_inv_def)
  then have inv: "requests_inv v" using validation.run_keeps [of E "Inr (new_validator fm)" as] assms(3) by (simp add: run_ok_def)
  let ?els = "elements (ve_rules E) (v_form v)" and ?P = "\<lambda>v. \<forall>el\<in>set (elements (ve_rules E) (v_form v)). field_passes E v el"
  let ?r = "(reset v)\<lparr>currentElements := map e_id ?els\<rparr>"
  obtain ok u where f: "form E v = Inr (ok, u)" using form_total [OF assms(1)] by blast
  then obtain c where c: "checkForm E v = Inr c" "ok \<longleftrightarrow> errorList c = []" "pending u = pending c" "pendingRequest u = pendingRequest c"
    "pending v \<subseteq> pending u" "v_log u = v_log v @ (if ok then [] else [InvalidForm])" "requests_inv u"
    using inv by (elim form_shape) simp
  have call: "check_all E ?els ?r = Inr c" using c(1) by (simp add: checkForm_def Let_def)
  have same: "field_passes E ?r el = field_passes E v el" for el by (rule field_passes_cong) simp_all
  define w where "w = (if ok then (if pendingRequest u \<noteq> 0 then u\<lparr>formSubmitted := True\<rparr> else handle u) else u)"
  have w: "submit E v = Inr w" using assms(4) f by (simp add: submit_def w_def)
  have sent: "v_log w = v_log v @ [FormSent] \<longleftrightarrow> ok \<and> pending u = {}"
    using c(6,7) by (auto simp: w_def handle_def requests_inv_def)
  have "ok \<and> pending u = {} \<longleftrightarrow> pending v = {} \<and> ?P v"
  proof
    assume a: "ok \<and> pending u = {}"
    then have "length (errorList c) \<le> length (errorList ?r)" "pending c = {}" using c(2,3) by auto
    then have "\<forall>el\<in>set ?els. field_passes E ?r el"
      using check_all_clean [OF call _ assms(1)] elements_sub [of "ve_rules E" "v_form v"] by simp
    then show "pending v = {} \<and> ?P v" using a c(5) same by auto
  next
    assume a: "pending v = {} \<and> ?P v"
    then obtain xs where "c = ?r\<lparr>successList := xs\<rparr>" using check_all_pass [of ?els E ?r] call same assms(1) by auto
    then show "ok \<and> pending u = {}" using a c(2,3) by simp
  qed
  then show ?thesis using w sent by auto
qed

section \<open>A failed request blocks the form\<close>

text \<open>
  The fields of a name have nothing new to ask the server: their values are those asked about
  last. After the request for the name has failed, it is pending and nothing is in flight for it.
\<close>

definition nothing_to_ask :: "valid_env \<Rightarrow> string \<Rightarrow> validator \<Rightarrow> bool" where
  "nothing_to_ask E n v \<longleftrightarrow>
     (\<forall>el\<in>set (v_form v). e_name el = n \<longrightarrow> ''remote'' \<notin> fst ` set (rules_of (ve_rules E) el) \<or> optional (v_form v) el \<or>
        prev_old (v_previous v (e_id el)) = Some (elementValue (v_form v) el))"

definition blocked :: "valid_env \<Rightarrow> string \<Rightarrow> validator \<Rightarrow> bool" where
  "blocked E n v \<longleftrightarrow> requests_inv v \<and> n \<in> pending v \<and> inflight v n = None \<and> \<not> cancelSubmit v \<and> nothing_to_ask E n v"

lemma blocked_other:
  assumes "blocked E n v" "requests_inv w" "v_form w = v_form v" "n \<in> pending w" "inflight w n = None" "cancelSubmit w = cancelSubmit v"
    "\<And>el. el \<in> set (v_form v) \<Longrightarrow> e_name el = n \<Longrightarrow> prev_old (v_previous w (e_id el)) = prev_old (v_previous v (e_id el))"
  shows "blocked E n w"
  using assms unfolding blocked_def nothing_to_ask_def by (simp only:) metis

lemma blocked_lists [simp]:
  "blocked E n (reset v) = blocked E n v" "blocked E n (v\<lparr>currentElements := c\<rparr>) = blocked E n v"
  "blocked E n (v\<lparr>invalid := x\<rparr>) = blocked E n v" "blocked E n (v\<lparr>submitted := x, invalid := y\<rparr>) = blocked E n v"
  "blocked E n (v\<lparr>v_log := l\<rparr>) = blocked E n v" "blocked E n (showErrors es v) = blocked E n v"
  "blocked E n (v\<lparr>lastElement := e\<rparr>) = blocked E n v" "blocked E n (v\<lparr>formSubmitted := b\<rparr>) = blocked E n v"
  "blocked E n (v\<lparr>successList := s, invalid := x\<rparr>) = blocked E n v" "blocked E n (v\<lparr>submitted := x\<rparr>) = blocked E n v"
  "blocked E n (v\<lparr>successList := s\<rparr>) = blocked E n v"
  by (simp_all add: blocked_def nothing_to_ask_def requests_inv_def)

lemma run_method_blocked:
  assumes "blocked E n v" "el \<in> set (v_form v)" "mp \<in> set (rules_of (ve_rules E) el)"
    "run_method E el (elementValue (v_form v) el) (fst mp) (snd mp) v = Inr (r, w)"
  shows "blocked E n w"
proof (cases "fst mp = ''remote''")
  case False
  then have "w = v" using assms(4) by (auto simp: run_method_def js_bind_Inr_iff split: option.splits)
  then show ?thesis using assms(1) by simp
next
  case True
  let ?val = "elementValue (v_form v) el"
  have w: "w = snd (remote el ?val v)" using True assms(4) by (auto simp: run_method_def split: prod.splits)
  have fr: "same_frame v w" using run_method_frame [OF assms(2,4)] .
  show ?thesis
  proof (cases "e_name el = n")
    case eq: True
    have "''remote'' \<in> fst ` set (rules_of (ve_rules E) el)" using True assms(3) by force
    then have "optional (v_form v) el \<or> prev_old (v_previous v (e_id el)) = Some ?val"
      using assms(1,2) eq unfolding blocked_def nothing_to_ask_def by blast
    then have "w = v" by (auto simp: w remote_def Let_def)
    then show ?thesis using assms(1) by simp
  next
    case False
    have ids: "e_id x \<noteq> e_id el" if "x \<in> set (v_form v)" "e_name x = n" for x
      using that False assms(1,2) unfolding blocked_def requests_inv_def by (metis distinct_map inj_onD)
    have "requests_inv w" "v_form w = v_form v" "n \<in> pending w" "cancelSubmit w = cancelSubmit v"
      using fr assms(1) by (auto simp: same_frame_def blocked_def)
    moreover have "inflight w n = None" using False assms(1) by (auto simp: w remote_def startRequest_def blocked_def Let_def)
    moreover have "prev_old (v_previous w (e_id x)) = prev_old (v_previous v (e_id x))" if "x \<in> set (v_form v)" "e_name x = n" for x
      using ids [OF that] by (simp add: w remote_def startRequest_def Let_def)
    ultimately show ?thesis using blocked_other [OF assms(1), of w] by blast
  qed
qed

lemma check_loop_blocked:
  "check_loop E el (elementValue (v_form v) el) k b rs v = Inr (res, w) \<Longrightarrow> blocked E n v \<Longrightarrow> el \<in> set (v_form v) \<Longrightarrow>
   set rs \<subseteq> set (rules_of (ve_rules E) el) \<Longrightarrow> blocked E n w"
proof (induction rs arbitrary: b v)
  case Nil
  then have "w = v \<or> w = v\<lparr>successList := successList v @ [e_id el]\<rparr>" by (auto split: if_splits)
  then show ?case using Nil(2) by auto
next
  case (Cons mp rs)
  obtain m p where mp: "mp = (m, p)" by (cases mp)
  obtain r u where ru: "run_method E el (elementValue (v_form v) el) m p v = Inr (r, u)" using Cons.prems(1) mp by (auto simp: js_bind_Inr_iff)
  have u: "blocked E n u" "v_form u = v_form v"
    using run_method_blocked [OF Cons.prems(2,3), of mp r u] run_method_frame [OF Cons.prems(3) ru] ru mp Cons.prems(4)
    by (auto simp: same_frame_def)
  then have "blocked E n (formatAndAdd el m u)" by (simp add: blocked_def nothing_to_ask_def formatAndAdd_def requests_inv_def)
  then show ?case
    using Cons.prems Cons.IH [of u True] Cons.IH [of u False] ru mp u by (auto split: if_splits)
qed

lemma check_blocked: "check E el v = Inr (res, w) \<Longrightarrow> blocked E n v \<Longrightarrow> el \<in> set (v_form v) \<Longrightarrow> blocked E n w"
proof -
  assume c: "check E el v = Inr (res, w)" "blocked E n v" "el \<in> set (v_form v)"
  obtain t where t: "validationTargetFor (v_form v) el = Some t" using c(1) by (auto simp: check_def split: option.splits)
  have "t \<in> set (v_form v)"
    using t c(3) by (auto simp: validationTargetFor_def findByName_def split: if_splits list.splits dest: filter_eq_ConsD)
  then show ?thesis using check_loop_blocked [of E t v _ False "rules_of (ve_rules E) t" res w n] c(1,2) t by (simp add: check_def Let_def)
qed

lemma check_all_blocked: "check_all E els v = Inr w \<Longrightarrow> blocked E n v \<Longrightarrow> set els \<subseteq> set (v_form v) \<Longrightarrow> blocked E n w"
proof (induction els arbitrary: v)
  case (Cons el els)
  obtain res u where u: "check E el v = Inr (res, u)" "check_all E els u = Inr w" using Cons.prems(1) by (auto simp: js_bind_Inr_iff)
  have "blocked E n u" "v_form u = v_form v"
    using check_blocked [OF u(1) Cons.prems(2)] check_frame [OF _ u(1)] Cons.prems(3) by (auto simp: same_frame_def)
  then show ?case using Cons.IH [OF u(2)] Cons.prems(3) by simp
qed simp

lemma form_blocked: "form E v = Inr (ok, w) \<Longrightarrow> blocked E n v \<Longrightarrow> blocked E n w"
proof -
  assume f: "form E v = Inr (ok, w)" "blocked E n v"
  obtain c where c: "checkForm E v = Inr c" using f(1) by (auto simp: form_def js_bind_Inr_iff)
  have "blocked E n c"
    using check_all_blocked [of E _ _ c n] c f(2) elements_sub [of "ve_rules E" "v_form v"] by (simp add: checkForm_def Let_def)
  then show ?thesis using f(1) by (auto simp: form_def c Let_def)
qed

lemma element_blocked:
  assumes "element E el v = Inr (ok, w)" "blocked E n v" "el \<in> set (v_form v)"
  shows "blocked E n w"
proof (cases "validationTargetFor (v_form v) el")
  case None
  then show ?thesis using assms(1,2) by (auto simp: element_def)
next
  case (Some t)
  let ?r = "(reset (v\<lparr>lastElement := Some (e_id t)\<rparr>))\<lparr>currentElements := [e_id t]\<rparr>"
  obtain res u where u: "check E t ?r = Inr (res, u)" using assms(1) Some by (auto simp: element_def js_bind_Inr_iff)
  have "t \<in> set (v_form v)"
    using Some assms(3) by (auto simp: validationTargetFor_def findByName_def split: if_splits list.splits dest: filter_eq_ConsD)
  then have "blocked E n u" using check_blocked [OF u] assms(2) by simp
  then show ?thesis using assms(1) Some u by (auto simp: element_def Let_def)
qed

text \<open>What the user can do without editing a field or cancelling.\<close>

definition keeps_fields :: "form_action \<Rightarrow> bool" where
  "keeps_fields a = (case a of EnterText _ _ \<Rightarrow> False | Tick _ _ \<Rightarrow> False | CancelButton \<Rightarrow> False | _ \<Rightarrow> True)"

definition no_sending :: "validator \<Rightarrow> validator \<Rightarrow> bool" where
  "no_sending v w \<longleftrightarrow> filter (\<lambda>e. e = FormSent) (v_log w) = filter (\<lambda>e. e = FormSent) (v_log v)"

lemma submit_blocked:
  assumes "submit E v = Inr w" "blocked E n v"
  shows "blocked E n w \<and> no_sending v w"
proof -
  have "\<not> cancelSubmit v" using assms(2) by (simp add: blocked_def)
  then obtain ok u where u: "form E v = Inr (ok, u)" using assms(1) by (auto simp: submit_def js_bind_Inr_iff)
  have b: "blocked E n u" by (rule form_blocked [OF u assms(2)])
  then have "pendingRequest u \<noteq> 0" by (auto simp: blocked_def requests_inv_def)
  then have "w = u \<or> w = u\<lparr>formSubmitted := True\<rparr>"
    using assms(1) \<open>\<not> cancelSubmit v\<close> u by (auto simp: submit_def split: if_splits)
  moreover have "v_log u = v_log v @ (if ok then [] else [InvalidForm])" using u by (rule form_shape)
  ultimately show ?thesis using b by (auto simp: no_sending_def)
qed

lemma frame_no_sending: "same_frame v w \<Longrightarrow> no_sending v w"
  by (simp add: same_frame_def no_sending_def)

lemma handler_blocked:
  assumes "js_bind (element E el v) (\<lambda>(_, v). Inr v) = Inr w" "blocked E n v" "el \<in> set (v_form v)"
  shows "blocked E n w \<and> no_sending v w"
proof -
  obtain ok where "element E el v = Inr (ok, w)" using assms(1) by (auto simp: js_bind_Inr_iff)
  then show ?thesis using element_blocked assms(2,3) frame_no_sending [OF element_frame] by blast
qed

lemma answer_blocked:
  assumes "remote_success E el ok v = Inr w" "blocked E n v" "el \<in> set (v_form v)" "e_name el \<noteq> n" "e_name el \<in> pending v"
    "inflight v (e_name el) = None"
  shows "blocked E n w \<and> no_sending v w"
proof -
  define u where "u = (if ok then (let v = reset v
      in showErrors [] (v\<lparr>successList := successList v @ [e_id el], invalid := invalid v - {e_name el}\<rparr>))
    else showErrors [e_name el] (v\<lparr>invalid := insert (e_name el) (invalid v)\<rparr>))"
  define x where "x = u\<lparr>v_previous := (v_previous u)(e_id el := (v_previous u (e_id el))\<lparr>prev_valid := ok\<rparr>)\<rparr>"
  have r: "remote_success E el ok v = stopRequest E (e_name el) ok x"
    unfolding remote_success_def u_def x_def Let_def by (rule refl)
  have bu: "blocked E n u" using assms(2) by (simp add: u_def Let_def)
  have bx: "blocked E n x" using bu by (rule blocked_other) (use bu in \<open>auto simp: x_def blocked_def\<close>)
  have fields: "pending x = pending v" "inflight x = inflight v" "v_log x = v_log v" by (auto simp: x_def u_def Let_def)
  let ?s = "stopped (e_name el) x"
  have inv: "requests_inv x" "e_name el \<in> pending x" "inflight x (e_name el) = None"
    using bx assms(5,6) fields by (auto simp: blocked_def)
  have bs: "blocked E n ?s"
    using bx stopped_inv [OF inv] assms(4) by (intro blocked_other [OF bx]) (auto simp: stopped_def blocked_def)
  then have "pendingRequest ?s \<noteq> 0" by (auto simp: blocked_def requests_inv_def)
  then have "w = ?s" using assms(1) unfolding r stopRequest_stopped [OF inv(1,2)] Let_def by simp
  then show ?thesis using bs fields(3) by (simp add: no_sending_def stopped_def)
qed

lemma form_step_blocked:
  assumes "form_step E v a = Inr w" "keeps_fields a" "blocked E n v"
  shows "blocked E n w \<and> no_sending v w"
proof -
  have stay: "blocked E n v \<and> no_sending v v" using assms(3) by (simp add: no_sending_def)
  have field: "\<And>e. e \<in> set (v_form v) \<Longrightarrow> f e v = Inr w \<Longrightarrow> blocked E n w \<and> no_sending v w"
    if "f = onfocusout E \<or> f = onkeyup E t \<or> f = onclick E" for f t
    using that handler_blocked [OF _ assms(3)] stay by (auto simp: onfocusout_def onkeyup_def onclick_def split: if_splits)
  have on: "blocked E n w \<and> no_sending v w" if "on_field i f v = Inr w" "f = onfocusout E \<or> f = onkeyup E t \<or> f = onclick E" for i f t
    using on_field_cases [OF that(1), of "\<lambda>s. s = Inr w \<longrightarrow> blocked E n w \<and> no_sending v w"] field [OF that(2)] stay by auto
  show ?thesis
  proof (cases a)
    case (Answer m ok)
    show ?thesis
    proof (cases "inflight v m")
      case None
      then show ?thesis using assms(1) Answer stay by simp
    next
      case (Some i)
      have "m \<noteq> n" using Some assms(3) by (auto simp: blocked_def)
      obtain e where e: "e \<in> set (v_form v)" "e_id e = i" "e_name e = m" and d: "distinct (map e_id (v_form v))"
        using Some assms(3) unfolding blocked_def requests_inv_def by blast
      obtain el es where el: "filter (\<lambda>e. e_id e = i) (v_form v) = el # es"
        using e by (cases "filter (\<lambda>e. e_id e = i) (v_form v)") (auto simp: filter_empty_conv)
      then have "el = e" using field_found [OF el] e d by (metis distinct_map inj_onD)
      let ?v = "v\<lparr>inflight := (inflight v)(m := None)\<rparr>"
      have "blocked E n ?v" using assms(3) by (auto simp: blocked_def nothing_to_ask_def requests_inv_def)
      moreover have "m \<in> pending v" using Some assms(3) by (auto simp: blocked_def requests_inv_def)
      moreover have "no_sending ?v w \<longleftrightarrow> no_sending v w" by (simp add: no_sending_def)
      ultimately show ?thesis
        using answer_blocked [of E e ok ?v w n] assms(1) Answer Some el e \<open>el = e\<close> \<open>m \<noteq> n\<close> by simp
    qed
  next
    case (Failure m)
    then have "w = v\<lparr>inflight := (inflight v)(m := None)\<rparr>" using assms(1) by simp
    then show ?thesis using assms(3) by (auto simp: blocked_def nothing_to_ask_def requests_inv_def no_sending_def)
  qed (use assms on submit_blocked in \<open>auto simp: keeps_fields_def\<close>)
qed

text \<open>
  C5: a request that fails is never accounted for. Suppose the network fails for the question
  about the fields of a name whose values are still those the question was about, and no
  button that cancels validation has been pressed. Then as long as the user neither edits a
  field nor presses such a button, the form is not sent any more: whatever is submitted, left,
  clicked or answered, the name stays pending and every submission waits for an answer that
  cannot come. The three conditions are needed: \<open>cancel_escapes\<close> and \<open>edit_escapes\<close> below
  send the form after a failure by a cancel button, and by an edit before or after it.
\<close>

theorem failed_request_blocks:
  assumes "foldl (form_run E) (Inr (new_validator fm)) as = Inr v" "distinct (map e_id fm)" "methods_ok E"
    "inflight v n \<noteq> None" "\<not> cancelSubmit v" "nothing_to_ask E n v" "list_all keeps_fields bs"
  shows "\<exists>w. foldl (form_run E) (Inr v) (Failure n # bs) = Inr w \<and> no_sending v w \<and> n \<in> pending w"
proof -
  let ?v = "v\<lparr>inflight := (inflight v)(n := None)\<rparr>"
  have "\<exists>w. foldl (form_run E) (Inr u) bs = Inr w \<and> no_sending u w \<and> blocked E n w" if "blocked E n u" for u
    using that assms(7)
  proof (induction bs arbitrary: u)
    case (Cons b bs)
    have "run_ok E (form_step E u b)" using Cons.prems(1) by (intro form_step_ok) (simp add: blocked_def)
    then obtain x where x: "form_step E u b = Inr x" using assms(3) by (auto simp: run_ok_def split: sum.splits)
    then have "blocked E n x \<and> no_sending u x" using form_step_blocked [of E u b x n] Cons.prems by simp
    moreover then obtain w where "foldl (form_run E) (Inr x) bs = Inr w" "no_sending x w" "blocked E n w"
      using Cons.IH [of x] Cons.prems(2) by auto
    ultimately show ?case using x by (auto simp: no_sending_def)
  qed (simp add: no_sending_def)
  moreover have "blocked E n ?v"
  proof -
    have "run_ok E (Inr (new_validator fm))" using assms(2) by (simp add: run_ok_def new_validator_def requests_inv_def)
    then have "requests_inv v" using validation.run_keeps [of E "Inr (new_validator fm)" as] assms(1) by (simp add: run_ok_def)
    then show ?thesis using assms(4-6) by (auto simp: blocked_def nothing_to_ask_def requests_inv_def)
  qed
  ultimately obtain w where "foldl (form_run E) (Inr ?v) bs = Inr w" "no_sending ?v w" "blocked E n w" by blast
  then show ?thesis by (auto simp: no_sending_def blocked_def)
qed

section \<open>An example\<close>

text \<open>A form with a user name the server checks and an e-mail address.\<close>

definition sample_rules :: rule_env where
  "sample_rules = \<lparr>re_methods = [], re_classes = (\<lambda>_. None),
     re_static = (\<lambda>n. if n = ''user'' then Some (SObj [(''remote'', VStr ''check''), (''required'', VBool True)])
                     else if n = ''mail'' then Some (SText ''email'') else None),
     re_autoRanges = False\<rparr>"

definition sample_valid :: valid_env where
  "sample_valid = \<lparr>ve_rules = sample_rules, ve_methods = builtin_methods (\<lambda>_. True)\<rparr>"

definition sample_field :: "nat \<Rightarrow> string \<Rightarrow> elem" where
  "sample_field i n = \<lparr>e_id = i, e_name = n, e_node = TextNode, e_type = Some ''text'', e_value = [], e_checked = False,
     e_selected = 0, e_ignored = False, e_excluded = False, e_classes = None, e_attrs = (\<lambda>_. None), e_data = (\<lambda>_. None)\<rparr>"

definition sample_form :: "elem list" where
  "sample_form = [sample_field 0 ''user'', sample_field 1 ''mail'']"

lemma sample_rules_of: "rules_of sample_rules el =
   (if e_name el = ''user'' then [(''required'', VBool True), (''remote'', VStr ''check'')]
    else if e_name el = ''mail'' then [(''email'', VBool True)] else [])"
proof -
  have "foldl (\<lambda>r c. r) ([] :: rules) cs = []" for cs :: "string list" by (induction cs) auto
  then have cls: "classRules sample_rules el = []" by (simp add: classRules_def sample_rules_def split: option.split)
  have attr: "attributeRules sample_rules el = []" "dataRules sample_rules el = []"
    by (simp_all add: attributeRules_def dataRules_def sample_rules_def)
  have ext: "obj_extend [] [] = ([] :: rules)" by simp
  have static: "staticRules sample_rules el = (if e_name el = ''user'' then [(''remote'', VStr ''check''), (''required'', VBool True)]
      else if e_name el = ''mail'' then [(''email'', VBool True)] else [])"
  proof -
    have "normalizeRule (SText ''email'') = [(''email'', VBool True)]" by code_simp
    then show ?thesis by (simp add: staticRules_def sample_rules_def, simp add: normalizeRule_def)
  qed
  have norm: "normalizeRules sample_rules (obj_extend [] [(''remote'', VStr ''check''), (''required'', VBool True)]) =
      [(''remote'', VStr ''check''), (''required'', VBool True)]"
    "normalizeRules sample_rules (obj_extend [] [(''email'', VBool True)]) = [(''email'', VBool True)]"
    "normalizeRules sample_rules [] = []" by code_simp+
  show ?thesis
    unfolding rules_of_def cls attr static ext Let_def
    by (simp add: norm [simplified] truthy_at_def obj_del_def)
qed

lemma sample_methods_ok: "methods_ok sample_valid"
  unfolding methods_ok_def
  by (auto simp: sample_valid_def sample_rules_of builtin_methods_def required_def text_rule_def split: if_splits)

lemma sample_ids: "distinct (map e_id sample_form)"
  by (simp add: sample_form_def sample_field_def)

definition sample_run :: "form_action list" where
  "sample_run = [EnterText 0 ''ann'', EnterText 1 ''a@b.c'', SubmitForm, Answer ''user'' True]"

theorem pending_requests_counted_witness:
  "\<exists>v. foldl (form_run sample_valid) (Inr (new_validator sample_form)) sample_run = Inr v \<and> pendingRequest v = int (card (pending v))"
  using pending_requests_counted [OF sample_methods_ok sample_ids, of sample_run] by blast

theorem submit_sends_valid_witness:
  "case foldl (form_run sample_valid) (Inr (new_validator sample_form)) sample_run of
     Inr v \<Rightarrow> v_log v = [FormSent] \<and> (\<exists>w. submit sample_valid v = Inr w \<and> v_log w = [FormSent, FormSent]) | Inl e \<Rightarrow> False"
proof -
  have "case foldl (form_run sample_valid) (Inr (new_validator sample_form)) sample_run of
     Inr v \<Rightarrow> v_log v = [FormSent] \<and> pending v = {} \<and> \<not> cancelSubmit v \<and>
       list_all (field_passes sample_valid v) (elements (ve_rules sample_valid) (v_form v)) | Inl e \<Rightarrow> False" by code_simp
  then obtain v where v: "foldl (form_run sample_valid) (Inr (new_validator sample_form)) sample_run = Inr v"
    "v_log v = [FormSent]" "pending v = {}" "\<not> cancelSubmit v"
    "list_all (field_passes sample_valid v) (elements (ve_rules sample_valid) (v_form v))" by (auto split: sum.splits)
  from submit_sends_valid [OF sample_methods_ok sample_ids v(1,4)] show ?thesis
    using v by (auto simp: list_all_iff)
qed

definition sample_acts :: "form_action list" where
  "sample_acts = [EnterText 0 ''ann'', EnterText 1 ''a@b.c'', SubmitForm]"

theorem failed_request_blocks_witness:
  "case foldl (form_run sample_valid) (Inr (new_validator sample_form)) (sample_acts @ [Failure ''user'', SubmitForm, LeaveField 0, SubmitForm]) of
     Inr w \<Rightarrow> filter (\<lambda>e. e = FormSent) (v_log w) = [] \<and> ''user'' \<in> pending w | Inl e \<Rightarrow> False"
proof -
  have "case foldl (form_run sample_valid) (Inr (new_validator sample_form)) sample_acts of
     Inr v \<Rightarrow> v_log v = [] \<and> inflight v ''user'' = Some 0 \<and> \<not> cancelSubmit v \<and>
       map (\<lambda>el. (e_name el, prev_old (v_previous v (e_id el)) = Some (elementValue (v_form v) el))) (v_form v) = [(''user'', True), (''mail'', False)]
   | Inl e \<Rightarrow> False" by code_simp
  then obtain v where v: "foldl (form_run sample_valid) (Inr (new_validator sample_form)) sample_acts = Inr v"
    "v_log v = []" "inflight v ''user'' = Some 0" "\<not> cancelSubmit v"
    "map (\<lambda>el. (e_name el, prev_old (v_previous v (e_id el)) = Some (elementValue (v_form v) el))) (v_form v) = [(''user'', True), (''mail'', False)]"
    by (auto split: sum.splits)
  have "nothing_to_ask sample_valid ''user'' v"
    unfolding nothing_to_ask_def
  proof (intro ballI impI)
    fix el assume "el \<in> set (v_form v)" "e_name el = ''user''"
    then have "(''user'', prev_old (v_previous v (e_id el)) = Some (elementValue (v_form v) el)) \<in> set [(''user'', True), (''mail'', False)]"
      unfolding v(5) [symmetric] by force
    then show "''remote'' \<notin> fst ` set (rules_of (ve_rules sample_valid) el) \<or> optional (v_form v) el \<or>
        prev_old (v_previous v (e_id el)) = Some (elementValue (v_form v) el)" by simp
  qed
  moreover have "list_all keeps_fields [SubmitForm, LeaveField 0, SubmitForm]" by (simp add: keeps_fields_def)
  ultimately obtain w where "foldl (form_run sample_valid) (Inr v) [Failure ''user'', SubmitForm, LeaveField 0, SubmitForm] = Inr w"
    "no_sending v w" "''user'' \<in> pending w"
    using failed_request_blocks [OF v(1) sample_ids sample_methods_ok, of "''user''" "[SubmitForm, LeaveField 0, SubmitForm]"] v(3,4) by auto
  then show ?thesis using v(1,2) by (simp add: no_sending_def)
qed

text \<open>
  The ways out of the blocked form: a button that cancels validation, and a change of the
  field, before the failure or after it, which makes the next submission ask again.
\<close>

lemma cancel_escapes:
  "case foldl (form_run sample_valid) (Inr (new_validator sample_form)) (sample_acts @ [Failure ''user'', CancelButton, SubmitForm]) of
     Inr w \<Rightarrow> v_log w = [FormSent] \<and> ''user'' \<in> pending w | Inl e \<Rightarrow> False"
  by code_simp

lemma edit_escapes:
  "case foldl (form_run sample_valid) (Inr (new_validator sample_form))
      (sample_acts @ [Failure ''user'', EnterText 0 ''bob'', SubmitForm, Answer ''user'' True]) of
     Inr w \<Rightarrow> v_log w = [FormSent] \<and> pending w = {} | Inl e \<Rightarrow> False"
  "case foldl (form_run sample_valid) (Inr (new_validator sample_form))
      (sample_acts @ [EnterText 0 ''bob'', Failure ''user'', SubmitForm, Answer ''user'' True]) of
     Inr w \<Rightarrow> v_log w = [FormSent] \<and> pending w = {} | Inl e \<Rightarrow> False"
  by code_simp+

section \<open>Two more defects\<close>

text \<open>
  When the answer to the last question arrives and the form turns out to be invalid for
  another reason, the wish to submit is not forgotten: once the user has repaired the field
  and any later question is answered, the form is sent although nobody pressed the button.
\<close>

lemma sent_without_submit:
  "case foldl (form_run sample_valid) (Inr (new_validator sample_form))
      [EnterText 0 ''ann'', SubmitForm, EnterText 1 ''bad'', Answer ''user'' True, EnterText 1 ''a@b.c'',
       EnterText 0 ''bob'', LeaveField 0, Answer ''user'' True] of
     Inr w \<Rightarrow> v_log w = [InvalidForm, FormSent] | Inl e \<Rightarrow> False"
  by code_simp

text \<open>
  When the value of the field is changed while its question is open, the answer to the old
  question is aborted; but when another field was changed, the submission that waited for
  the answer starts a new question, and the flag that it waits is taken back afterwards: the
  answer arrives and the form is not sent.
\<close>

definition sample_rules2 :: rule_env where
  "sample_rules2 = sample_rules\<lparr>re_static := (\<lambda>n. Some (SObj [(''remote'', VStr ''check'')]))\<rparr>"

lemma submission_lost:
  "case foldl (form_run (sample_valid\<lparr>ve_rules := sample_rules2\<rparr>)) (Inr (new_validator sample_form))
      [EnterText 0 ''ann'', SubmitForm, EnterText 1 ''x'', Answer ''user'' True, Answer ''mail'' True] of
     Inr w \<Rightarrow> v_log w = [] \<and> pending w = {} | Inl e \<Rightarrow> False"
  by code_simp

end
