(* ===== verification/Form_Wizard.thy ===== *)
theory Form_Wizard
  imports Js_Prelude
begin

text \<open>
  The form wizard, \<open>jquery.bootstrap.wizard.js\<close>: tabs, the active tab the wizard knows, the tab
  the page shows, the stack of earlier positions, and the buttons. Showing a tab is the plug-in
  \<open>tab\<close> of \<open>bootstrap.min.js\<close>: nothing when the tab is shown already, else the page changes
  and the event \<open>shown.bs.tab\<close> is raised at once (panes without a transition). Handlers of the
  application are known by what they veto.
\<close>

section \<open>State\<close>

record wtab =
  t_id :: nat
  t_href :: string
  t_disabled :: bool
  t_visible :: bool

record buttons =
  previous_disabled :: bool
  next_disabled :: bool
  next_hidden :: bool
  last_hidden :: bool
  finish_hidden :: bool
  back_disabled :: bool
  back_hidden :: bool

datatype wizard_event = OnTabShow int | OnFinish int

record wizard =
  w_tabs :: "wtab list"
  w_shown :: "nat option"
  activeTab :: "nat option"
  historyStack :: "int list"
  w_buttons :: buttons
  w_events :: "wizard_event list"

text \<open>The handlers, true for a veto; the classes of the wizard's element; a finish button.\<close>

record wizard_env =
  onNext :: "wizard \<Rightarrow> int \<Rightarrow> bool"
  onPrevious :: "wizard \<Rightarrow> int \<Rightarrow> bool"
  onFirst :: "wizard \<Rightarrow> int \<Rightarrow> bool"
  onLast :: "wizard \<Rightarrow> int \<Rightarrow> bool"
  onBack :: "wizard \<Rightarrow> int \<Rightarrow> bool"
  onTabChange :: "wizard \<Rightarrow> int \<Rightarrow> int \<Rightarrow> bool"
  onTabClick :: "wizard \<Rightarrow> int \<Rightarrow> int \<Rightarrow> bool"
  class_first :: bool
  class_last :: bool
  class_disabled :: bool
  has_finish :: bool

section \<open>Positions\<close>

definition getIndex :: "nat option \<Rightarrow> wizard \<Rightarrow> int" where
  "getIndex t w = (case t of None \<Rightarrow> -1 | Some i \<Rightarrow> js_indexOf i (map t_id (w_tabs w)))"

definition currentIndex :: "wizard \<Rightarrow> int" where
  "currentIndex w = getIndex (activeTab w) w"

definition firstIndex :: "wizard \<Rightarrow> int" where
  "firstIndex w = 0"

definition navigationLength :: "wizard \<Rightarrow> int" where
  "navigationLength w = int (length (w_tabs w)) - 1"

definition lastIndex :: "wizard \<Rightarrow> int" where
  "lastIndex w = navigationLength w"

definition nextIndex :: "wizard \<Rightarrow> int" where
  "nextIndex w = currentIndex w + 1"

definition previousIndex :: "wizard \<Rightarrow> int" where
  "previousIndex w = currentIndex w - 1"

text \<open>The selector \<open>:eq(n)\<close>, which counts from the end for a negative number.\<close>

definition eq_tab :: "int \<Rightarrow> wizard \<Rightarrow> wtab option" where
  "eq_tab n w =
     (let k = (if n < 0 then n + int (length (w_tabs w)) else n)
      in if 0 \<le> k \<and> k < int (length (w_tabs w)) then Some (w_tabs w ! nat k) else None)"

definition nextTab :: "wizard \<Rightarrow> wtab option" where
  "nextTab w = eq_tab (currentIndex w + 1) w"

definition previousTab :: "wizard \<Rightarrow> wtab option" where
  "previousTab w = (if currentIndex w \<le> 0 then None else eq_tab (currentIndex w - 1) w)"

section \<open>Buttons and showing\<close>

definition set_buttons :: "wizard_env \<Rightarrow> wizard \<Rightarrow> wizard" where
  "set_buttons E w =
     (let atEnd = (currentIndex w \<ge> navigationLength w)
      in w\<lparr>w_buttons := \<lparr>previous_disabled = firstIndex w \<ge> currentIndex w, next_disabled = atEnd,
             next_hidden = atEnd \<and> has_finish E, last_hidden = atEnd \<and> has_finish E,
             finish_hidden = currentIndex w < navigationLength w, back_disabled = historyStack w = [],
             back_hidden = atEnd \<and> has_finish E\<rparr>,
           w_events := w_events w @ [OnTabShow (currentIndex w)]\<rparr>)"

text \<open>The handler of \<open>shown\<close>; with an active tab set, \<open>fixNavigationButtons\<close> only sets the buttons.\<close>

definition innerTabShown :: "wizard_env \<Rightarrow> wtab \<Rightarrow> wizard \<Rightarrow> wizard" where
  "innerTabShown E t w =
     (if t_disabled t then w
      else if onTabChange E w (currentIndex w) (getIndex (Some (t_id t)) w) then w
      else set_buttons E (w\<lparr>activeTab := Some (t_id t)\<rparr>))"

definition tab_show :: "wizard_env \<Rightarrow> wtab option \<Rightarrow> wizard \<Rightarrow> wizard" where
  "tab_show E t w =
     (case t of
        None \<Rightarrow> w
      | Some t \<Rightarrow> if w_shown w = Some (t_id t) then w else innerTabShown E t (w\<lparr>w_shown := Some (t_id t)\<rparr>))"

definition fixNavigationButtons :: "wizard_env \<Rightarrow> wizard \<Rightarrow> wizard" where
  "fixNavigationButtons E w =
     (let w = (if activeTab w = None
               then (let w = tab_show E (eq_tab 0 w) w in w\<lparr>activeTab := map_option t_id (eq_tab 0 w)\<rparr>) else w)
      in set_buttons E w)"

section \<open>Navigation\<close>

definition wizard_next :: "wizard_env \<Rightarrow> wizard \<Rightarrow> wizard" where
  "wizard_next E w =
     (if class_last E then w
      else if onNext E w (nextIndex w) then w
      else (let formerIndex = currentIndex w; index = nextIndex w
            in if index > navigationLength w then w
               else tab_show E (eq_tab index w) (w\<lparr>historyStack := historyStack w @ [formerIndex]\<rparr>)))"

definition wizard_previous :: "wizard_env \<Rightarrow> wizard \<Rightarrow> wizard" where
  "wizard_previous E w =
     (if class_first E then w
      else if onPrevious E w (previousIndex w) then w
      else (let formerIndex = currentIndex w; index = previousIndex w
            in if index < 0 then w
               else tab_show E (eq_tab index w) (w\<lparr>historyStack := historyStack w @ [formerIndex]\<rparr>)))"

definition wizard_first :: "wizard_env \<Rightarrow> wizard \<Rightarrow> wizard" where
  "wizard_first E w =
     (if onFirst E w (firstIndex w) then w
      else if class_disabled E then w
      else tab_show E (eq_tab 0 w) (w\<lparr>historyStack := historyStack w @ [currentIndex w]\<rparr>))"

definition wizard_last :: "wizard_env \<Rightarrow> wizard \<Rightarrow> wizard" where
  "wizard_last E w =
     (if onLast E w (lastIndex w) then w
      else if class_disabled E then w
      else tab_show E (eq_tab (navigationLength w) w) (w\<lparr>historyStack := historyStack w @ [currentIndex w]\<rparr>))"

definition wizard_finish :: "wizard \<Rightarrow> wizard" where
  "wizard_finish w = w\<lparr>w_events := w_events w @ [OnFinish (lastIndex w)]\<rparr>"

definition wizard_back :: "wizard_env \<Rightarrow> wizard \<Rightarrow> wizard" where
  "wizard_back E w =
     (if historyStack w = [] then w
      else (let formerIndex = last (historyStack w); w' = w\<lparr>historyStack := butlast (historyStack w)\<rparr>
            in if onBack E w' formerIndex then w'\<lparr>historyStack := historyStack w' @ [formerIndex]\<rparr>
               else tab_show E (eq_tab formerIndex w') w'))"

text \<open>A tab by its position, or by a name that is not a number; names of tabs are taken to differ.\<close>

datatype tab_ref = TabIndex int | TabName string

definition wizard_show :: "wizard_env \<Rightarrow> tab_ref \<Rightarrow> wizard \<Rightarrow> wizard" where
  "wizard_show E r w =
     (let t = (case r of TabIndex i \<Rightarrow> eq_tab i w
               | TabName n \<Rightarrow> (case filter (\<lambda>t. t_href t = CHR ''#'' # n) (w_tabs w) of [] \<Rightarrow> None | t # ts \<Rightarrow> Some t))
      in if t = None then w else tab_show E t (w\<lparr>historyStack := historyStack w @ [currentIndex w]\<rparr>))"

definition map_tab :: "int \<Rightarrow> (wtab \<Rightarrow> wtab) \<Rightarrow> wizard \<Rightarrow> wizard" where
  "map_tab i f w =
     (case eq_tab i w of
        None \<Rightarrow> w
      | Some t \<Rightarrow> w\<lparr>w_tabs := map (\<lambda>u. if t_id u = t_id t then f u else u) (w_tabs w)\<rparr>)"

definition wizard_disable :: "int \<Rightarrow> wizard \<Rightarrow> wizard" where
  "wizard_disable i = map_tab i (\<lambda>t. t\<lparr>t_disabled := True\<rparr>)"

definition wizard_enable :: "int \<Rightarrow> wizard \<Rightarrow> wizard" where
  "wizard_enable i = map_tab i (\<lambda>t. t\<lparr>t_disabled := False\<rparr>)"

definition wizard_hide :: "int \<Rightarrow> wizard \<Rightarrow> wizard" where
  "wizard_hide i = map_tab i (\<lambda>t. t\<lparr>t_visible := False\<rparr>)"

definition wizard_display :: "int \<Rightarrow> wizard \<Rightarrow> wizard" where
  "wizard_display i = map_tab i (\<lambda>t. t\<lparr>t_visible := True\<rparr>)"

definition wizard_remove :: "int \<Rightarrow> wizard \<Rightarrow> wizard" where
  "wizard_remove i w =
     (case eq_tab i w of
        None \<Rightarrow> w
      | Some t \<Rightarrow> w\<lparr>w_tabs := filter (\<lambda>u. t_id u \<noteq> t_id t) (w_tabs w),
                   w_shown := (if w_shown w = Some (t_id t) then None else w_shown w)\<rparr>)"

text \<open>A click on a tab: the wizard's handler, then the plug-in.\<close>

definition tab_click :: "wizard_env \<Rightarrow> int \<Rightarrow> wizard \<Rightarrow> wizard" where
  "tab_click E i w =
     (case eq_tab i w of
        None \<Rightarrow> w
      | Some t \<Rightarrow> if onTabClick E w (currentIndex w) (getIndex (Some (t_id t)) w) then w else tab_show E (Some t) w)"

definition resetWizard :: "wizard_env \<Rightarrow> wizard \<Rightarrow> wizard" where
  "resetWizard E w = fixNavigationButtons E (w\<lparr>activeTab := w_shown w\<rparr>)"

definition new_wizard :: "wizard_env \<Rightarrow> wtab list \<Rightarrow> nat option \<Rightarrow> wizard" where
  "new_wizard E tabs shown =
     fixNavigationButtons E \<lparr>w_tabs = tabs, w_shown = shown, activeTab = shown, historyStack = [],
       w_buttons = \<lparr>previous_disabled = False, next_disabled = False, next_hidden = False, last_hidden = False,
         finish_hidden = False, back_disabled = False, back_hidden = False\<rparr>, w_events = []\<rparr>"

section \<open>Runs\<close>

datatype wizard_action =
    Next | Previous | First | Last | Finish | Back | Show tab_ref | Click int
  | Disable int | Enable int | Hide int | Display int | Remove int | Reset

fun wizard_step :: "wizard_env \<Rightarrow> wizard \<Rightarrow> wizard_action \<Rightarrow> wizard" where
  "wizard_step E w Next = wizard_next E w"
| "wizard_step E w Previous = wizard_previous E w"
| "wizard_step E w First = wizard_first E w"
| "wizard_step E w Last = wizard_last E w"
| "wizard_step E w Finish = wizard_finish w"
| "wizard_step E w Back = wizard_back E w"
| "wizard_step E w (Show r) = wizard_show E r w"
| "wizard_step E w (Click i) = tab_click E i w"
| "wizard_step E w (Disable i) = wizard_disable i w"
| "wizard_step E w (Enable i) = wizard_enable i w"
| "wizard_step E w (Hide i) = wizard_hide i w"
| "wizard_step E w (Display i) = wizard_display i w"
| "wizard_step E w (Remove i) = wizard_remove i w"
| "wizard_step E w Reset = resetWizard E w"

definition wizard_run :: "wizard_env \<Rightarrow> wizard_action list \<Rightarrow> wizard \<Rightarrow> wizard" where
  "wizard_run E as w = foldl (wizard_step E) w as"

fun removes :: "wizard_action \<Rightarrow> bool" where
  "removes (Remove i) = True"
| "removes a = False"

section \<open>The invariant\<close>

definition known :: "wizard \<Rightarrow> nat option \<Rightarrow> bool" where
  "known w t \<longleftrightarrow> (case t of None \<Rightarrow> False | Some i \<Rightarrow> i \<in> t_id ` set (w_tabs w))"

definition places_ok :: "wizard \<Rightarrow> bool" where
  "places_ok w \<longleftrightarrow> distinct (map t_id (w_tabs w)) \<and> known w (activeTab w) \<and> known w (w_shown w) \<and>
     (\<forall>k\<in>set (historyStack w). 0 \<le> k \<and> k \<le> navigationLength w)"

definition buttons_ok :: "wizard \<Rightarrow> bool" where
  "buttons_ok w \<longleftrightarrow> previous_disabled (w_buttons w) = (currentIndex w = 0) \<and>
     next_disabled (w_buttons w) = (currentIndex w = navigationLength w)"

definition wizard_inv :: "wizard \<Rightarrow> bool" where
  "wizard_inv w \<longleftrightarrow> places_ok w \<and> buttons_ok w"

lemma known_index:
  assumes "known w t"
  shows "0 \<le> getIndex t w" "getIndex t w \<le> navigationLength w"
    "w_tabs w ! nat (getIndex t w) \<in> set (w_tabs w)" "Some (t_id (w_tabs w ! nat (getIndex t w))) = t"
proof -
  obtain i where i: "t = Some i" "i \<in> set (map t_id (w_tabs w))" using assms by (auto simp: known_def split: option.splits)
  from js_indexOf_present [OF i(2)] i(1)
  show "0 \<le> getIndex t w" "getIndex t w \<le> navigationLength w"
    "w_tabs w ! nat (getIndex t w) \<in> set (w_tabs w)" "Some (t_id (w_tabs w ! nat (getIndex t w))) = t"
    by (auto simp: getIndex_def navigationLength_def)
qed

lemma known_eq_tab:
  "known w t \<Longrightarrow> \<exists>u. eq_tab (getIndex t w) w = Some u \<and> u \<in> set (w_tabs w) \<and> Some (t_id u) = t"
  using known_index [of w t] by (auto simp: eq_tab_def navigationLength_def)

lemma eq_tab_in: "eq_tab n w = Some t \<Longrightarrow> t \<in> set (w_tabs w)"
  by (auto simp: eq_tab_def Let_def split: if_splits)

lemma wizard_fields [simp]:
  "getIndex t (w\<lparr>historyStack := h\<rparr>) = getIndex t w" "getIndex t (w\<lparr>w_shown := s\<rparr>) = getIndex t w"
  "getIndex t (w\<lparr>activeTab := a\<rparr>) = getIndex t w" "getIndex t (w\<lparr>w_buttons := b\<rparr>) = getIndex t w"
  "getIndex t (w\<lparr>w_events := e\<rparr>) = getIndex t w"
  "navigationLength (w\<lparr>historyStack := h\<rparr>) = navigationLength w" "navigationLength (w\<lparr>w_shown := s\<rparr>) = navigationLength w"
  "navigationLength (w\<lparr>activeTab := a\<rparr>) = navigationLength w" "navigationLength (w\<lparr>w_buttons := b\<rparr>) = navigationLength w"
  "navigationLength (w\<lparr>w_events := e\<rparr>) = navigationLength w"
  "known (w\<lparr>historyStack := h\<rparr>) = known w" "known (w\<lparr>w_shown := s\<rparr>) = known w"
  "known (w\<lparr>activeTab := a\<rparr>) = known w" "known (w\<lparr>w_buttons := b\<rparr>) = known w"
  "known (w\<lparr>w_events := e\<rparr>) = known w"
  "eq_tab n (w\<lparr>historyStack := h\<rparr>) = eq_tab n w" "eq_tab n (w\<lparr>w_shown := s\<rparr>) = eq_tab n w"
  "eq_tab n (w\<lparr>activeTab := a\<rparr>) = eq_tab n w"
  by (auto simp: getIndex_def navigationLength_def known_def eq_tab_def Let_def fun_eq_iff split: option.splits)

lemma set_buttons_inv: "places_ok w \<Longrightarrow> wizard_inv (set_buttons E w)"
  using known_index [of w "activeTab w"]
  by (auto simp: wizard_inv_def places_ok_def buttons_ok_def set_buttons_def currentIndex_def firstIndex_def Let_def)

lemma active_places: "places_ok w \<Longrightarrow> known w a \<Longrightarrow> places_ok (w\<lparr>activeTab := a\<rparr>)"
  by (auto simp: places_ok_def)

lemma tab_known [simp]: "t \<in> set (w_tabs w) \<Longrightarrow> known w (Some (t_id t))"
  by (simp add: known_def)

lemma inv_places [simp]: "wizard_inv w \<Longrightarrow> places_ok w"
  by (simp add: wizard_inv_def)

lemma inner_inv:
  "wizard_inv w \<Longrightarrow> t \<in> set (w_tabs w) \<Longrightarrow> wizard_inv (innerTabShown E t w)"
  by (simp add: innerTabShown_def set_buttons_inv active_places)

lemma shown_inv: "wizard_inv w \<Longrightarrow> known w s \<Longrightarrow> wizard_inv (w\<lparr>w_shown := s\<rparr>)"
  by (auto simp: wizard_inv_def places_ok_def buttons_ok_def currentIndex_def)

lemma pushed_inv:
  "wizard_inv w \<Longrightarrow> wizard_inv (w\<lparr>historyStack := historyStack w @ [currentIndex w]\<rparr>)"
  using known_index [of w "activeTab w"]
  by (auto simp: wizard_inv_def places_ok_def buttons_ok_def currentIndex_def)

lemma popped_inv: "wizard_inv w \<Longrightarrow> wizard_inv (w\<lparr>historyStack := butlast (historyStack w)\<rparr>)"
  by (auto simp: wizard_inv_def places_ok_def buttons_ok_def currentIndex_def dest: in_set_butlastD)

lemma tab_show_inv:
  assumes "wizard_inv w" "\<And>u. t = Some u \<Longrightarrow> u \<in> set (w_tabs w)"
  shows "wizard_inv (tab_show E t w)"
proof (cases t)
  case (Some u)
  with assms(2) have "u \<in> set (w_tabs w)" by simp
  then show ?thesis using Some assms(1) by (auto simp: tab_show_def known_def intro!: inner_inv shown_inv)
qed (simp add: tab_show_def assms)

lemma pushed_show_inv:
  assumes "wizard_inv w"
  shows "wizard_inv (tab_show E (eq_tab n w) (w\<lparr>historyStack := historyStack w @ [currentIndex w]\<rparr>))"
  by (rule tab_show_inv [OF pushed_inv [OF assms]]) (auto dest: eq_tab_in)

lemma moves_inv:
  assumes "wizard_inv w"
  shows "wizard_inv (wizard_next E w)" "wizard_inv (wizard_previous E w)" "wizard_inv (wizard_first E w)"
    "wizard_inv (wizard_last E w)"
  using assms
  by (simp_all add: wizard_next_def wizard_previous_def wizard_first_def wizard_last_def Let_def pushed_show_inv)

definition ref_tab :: "tab_ref \<Rightarrow> wizard \<Rightarrow> wtab option" where
  "ref_tab r w =
     (case r of TabIndex i \<Rightarrow> eq_tab i w
      | TabName n \<Rightarrow> (case filter (\<lambda>t. t_href t = CHR ''#'' # n) (w_tabs w) of [] \<Rightarrow> None | t # ts \<Rightarrow> Some t))"

lemma ref_tab_in: "ref_tab r w = Some t \<Longrightarrow> t \<in> set (w_tabs w)"
proof (cases r)
  case (TabName n)
  assume "ref_tab r w = Some t"
  with TabName obtain ts where "filter (\<lambda>t. t_href t = CHR ''#'' # n) (w_tabs w) = t # ts"
    by (auto simp: ref_tab_def split: list.splits)
  from arg_cong [OF this, of set] show ?thesis by auto
qed (simp add: ref_tab_def eq_tab_in)

lemma wizard_show_ref:
  "wizard_show E r w =
     (if ref_tab r w = None then w
      else tab_show E (ref_tab r w) (w\<lparr>historyStack := historyStack w @ [currentIndex w]\<rparr>))"
  by (simp add: wizard_show_def ref_tab_def Let_def)

lemma show_inv: "wizard_inv w \<Longrightarrow> wizard_inv (wizard_show E r w)"
  by (auto simp: wizard_show_ref intro!: tab_show_inv pushed_inv dest: ref_tab_in)

lemma back_inv:
  assumes "wizard_inv w" shows "wizard_inv (wizard_back E w)"
proof (cases "historyStack w = []")
  case False
  have "wizard_inv (tab_show E (eq_tab n w) (w\<lparr>historyStack := butlast (historyStack w)\<rparr>))" for n
    by (rule tab_show_inv [OF popped_inv [OF assms]]) (auto dest: eq_tab_in)
  with False assms show ?thesis by (simp add: wizard_back_def Let_def)
qed (simp add: wizard_back_def assms)

lemma click_inv: "wizard_inv w \<Longrightarrow> wizard_inv (tab_click E i w)"
  by (auto simp: tab_click_def intro!: tab_show_inv dest: eq_tab_in split: option.split)

lemma same_places_inv:
  assumes "wizard_inv w" "map t_id (w_tabs w') = map t_id (w_tabs w)" "w_shown w' = w_shown w"
    "activeTab w' = activeTab w" "historyStack w' = historyStack w" "w_buttons w' = w_buttons w"
  shows "wizard_inv w'"
proof -
  have "set (map t_id (w_tabs w')) = set (map t_id (w_tabs w))" by (simp only: assms(2))
  then have "known w' t = known w t" for t by (simp add: known_def split: option.split)
  moreover have "length (w_tabs w') = length (w_tabs w)" using assms(2) by (metis length_map)
  then have "navigationLength w' = navigationLength w" by (simp add: navigationLength_def)
  moreover have "getIndex t w' = getIndex t w" for t using assms(2) by (simp add: getIndex_def split: option.split)
  ultimately show ?thesis using assms by (simp add: wizard_inv_def places_ok_def buttons_ok_def currentIndex_def)
qed

lemma map_tab_inv:
  assumes "wizard_inv w" "\<And>u. t_id (f u) = t_id u" shows "wizard_inv (map_tab i f w)"
  by (rule same_places_inv [OF assms(1)]) (auto simp: map_tab_def assms(2) o_def split: option.split)

lemma finish_inv: "wizard_inv w \<Longrightarrow> wizard_inv (wizard_finish w)"
  by (erule same_places_inv) (simp_all add: wizard_finish_def)

lemma reset_inv:
  assumes "wizard_inv w" shows "wizard_inv (resetWizard E w)"
proof -
  have known: "known w (w_shown w)" using inv_places [OF assms] by (simp add: places_ok_def)
  then obtain i where "w_shown w = Some i" by (cases "w_shown w") (auto simp: known_def)
  with known show ?thesis using assms
    by (simp add: resetWizard_def fixNavigationButtons_def set_buttons_inv active_places)
qed

lemma step_inv: "wizard_inv w \<Longrightarrow> \<not> removes a \<Longrightarrow> wizard_inv (wizard_step E w a)"
  by (cases a) (simp_all add: moves_inv show_inv back_inv click_inv finish_inv reset_inv map_tab_inv
      wizard_disable_def wizard_enable_def wizard_hide_def wizard_display_def)

definition kept_step :: "wizard_env \<Rightarrow> wizard \<Rightarrow> wizard_action \<Rightarrow> wizard" where
  "kept_step E w a = (if removes a then w else wizard_step E w a)"

interpretation wizard: step_invariant "kept_step E" wizard_inv for E
  by unfold_locales (simp add: kept_step_def step_inv)

lemma run_kept: "\<forall>a\<in>set as. \<not> removes a \<Longrightarrow> wizard_run E as w = foldl (kept_step E) w as"
  unfolding wizard_run_def by (rule foldl_cong) (auto simp: kept_step_def)

lemma run_inv: "wizard_inv w \<Longrightarrow> \<forall>a\<in>set as. \<not> removes a \<Longrightarrow> wizard_inv (wizard_run E as w)"
  by (simp add: run_kept wizard.run_keeps)

lemma new_inv:
  assumes "tabs \<noteq> []" "distinct (map t_id tabs)" "shown = None \<or> the shown \<in> t_id ` set tabs"
  shows "wizard_inv (new_wizard E tabs shown)"
proof -
  define w where "w = \<lparr>w_tabs = tabs, w_shown = shown, activeTab = shown, historyStack = [],
       w_buttons = \<lparr>previous_disabled = False, next_disabled = False, next_hidden = False, last_hidden = False,
         finish_hidden = False, back_disabled = False, back_hidden = False\<rparr>, w_events = []\<rparr>"
  have new: "new_wizard E tabs shown = fixNavigationButtons E w" by (simp add: new_wizard_def w_def)
  show ?thesis
  proof (cases shown)
    case None
    obtain t ts where tabs: "tabs = t # ts" using assms(1) by (cases tabs) auto
    let ?v = "tab_show E (eq_tab 0 w) w"
    have "w_tabs ?v = tabs" "w_shown ?v = Some (t_id t)" "historyStack ?v = []"
      by (simp_all add: w_def tabs None tab_show_def eq_tab_def innerTabShown_def set_buttons_def Let_def)
    moreover from this have "eq_tab 0 ?v = Some t" by (simp add: eq_tab_def tabs)
    ultimately have "places_ok (?v\<lparr>activeTab := map_option t_id (eq_tab 0 ?v)\<rparr>)"
      using assms(2) tabs by (simp add: places_ok_def known_def)
    moreover have "activeTab w = None" by (simp add: w_def None)
    ultimately show ?thesis unfolding new fixNavigationButtons_def by (simp add: set_buttons_inv Let_def)
  next
    case (Some i)
    with assms(2,3) have "places_ok w" by (auto simp: w_def places_ok_def known_def)
    with Some show ?thesis unfolding new fixNavigationButtons_def by (simp add: w_def set_buttons_inv)
  qed
qed

section \<open>Going back\<close>

text \<open>
  What the pages show depends on tabs, the tab shown, the active tab and the stack. They agree as
  long as no tab is disabled and no handler refuses a change after it was shown.
\<close>

definition quiet :: "wizard_env \<Rightarrow> bool" where
  "quiet E \<longleftrightarrow> onBack E = (\<lambda>w i. False) \<and> onTabChange E = (\<lambda>w i j. False)"

definition core :: "wizard \<Rightarrow> wtab list \<times> nat option \<times> nat option \<times> int list" where
  "core w = (w_tabs w, w_shown w, activeTab w, historyStack w)"

definition in_sync :: "wizard \<Rightarrow> bool" where
  "in_sync w \<longleftrightarrow> places_ok w \<and> activeTab w = w_shown w \<and> (\<forall>t\<in>set (w_tabs w). \<not> t_disabled t)"

fun is_move :: "wizard_action \<Rightarrow> bool" where
  "is_move Next = True"
| "is_move Previous = True"
| "is_move First = True"
| "is_move Last = True"
| "is_move (Show r) = True"
| "is_move a = False"

fun disables :: "wizard_action \<Rightarrow> bool" where
  "disables (Disable i) = True"
| "disables a = False"

lemma core_known: "core v = core w \<Longrightarrow> known v = known w"
  by (auto simp: core_def known_def fun_eq_iff split: option.splits)

lemma core_navigation: "core v = core w \<Longrightarrow> navigationLength v = navigationLength w"
  by (simp add: core_def navigationLength_def)

lemma core_eq_tab: "core v = core w \<Longrightarrow> eq_tab n v = eq_tab n w"
  by (simp add: core_def eq_tab_def Let_def)

lemma core_sync: "core v = core w \<Longrightarrow> in_sync v = in_sync w"
  using core_known [of v w] core_navigation [of v w] by (simp add: in_sync_def places_ok_def core_def)

lemma pushed_sync: "in_sync w \<Longrightarrow> in_sync (w\<lparr>historyStack := historyStack w @ [currentIndex w]\<rparr>)"
  using known_index [of w "activeTab w"] by (auto simp: in_sync_def places_ok_def currentIndex_def)

lemma show_core:
  assumes "quiet E" "in_sync w" "t \<in> set (w_tabs w)"
  shows "core (tab_show E (Some t) w) = (w_tabs w, Some (t_id t), Some (t_id t), historyStack w)"
  using assms by (auto simp: quiet_def in_sync_def core_def tab_show_def innerTabShown_def set_buttons_def Let_def)

lemma core_show_sync:
  "in_sync w \<Longrightarrow> t \<in> set (w_tabs w) \<Longrightarrow> core v = (w_tabs w, Some (t_id t), Some (t_id t), historyStack w) \<Longrightarrow> in_sync v"
  using core_sync [of v "w\<lparr>w_shown := Some (t_id t), activeTab := Some (t_id t)\<rparr>"]
  by (auto simp: core_def in_sync_def places_ok_def)

lemma show_sync: "quiet E \<Longrightarrow> in_sync w \<Longrightarrow> t \<in> set (w_tabs w) \<Longrightarrow> in_sync (tab_show E (Some t) w)"
  by (metis core_show_sync show_core)

lemma eq_tab_range: "0 \<le> n \<Longrightarrow> n \<le> navigationLength w \<Longrightarrow> \<exists>t. eq_tab n w = Some t"
  by (simp add: eq_tab_def navigationLength_def)

lemma move_cases:
  assumes "in_sync w" "is_move a"
  shows "wizard_step E w a = w \<or>
    (\<exists>t\<in>set (w_tabs w). wizard_step E w a = tab_show E (Some t) (w\<lparr>historyStack := historyStack w @ [currentIndex w]\<rparr>))"
proof -
  have cur: "0 \<le> currentIndex w" "currentIndex w \<le> navigationLength w"
    using assms(1) known_index [of w "activeTab w"] by (auto simp: in_sync_def places_ok_def currentIndex_def)
  have go: "\<exists>t\<in>set (w_tabs w). eq_tab n w = Some t" if "0 \<le> n" "n \<le> navigationLength w" for n
    using eq_tab_range [OF that] eq_tab_in by blast
  show ?thesis
  proof (cases a)
    case Next
    then show ?thesis using cur go [of "nextIndex w"]
      by (fastforce simp: wizard_next_def Let_def nextIndex_def)
  next
    case Previous
    then show ?thesis using cur go [of "previousIndex w"]
      by (fastforce simp: wizard_previous_def Let_def previousIndex_def)
  next
    case First
    then show ?thesis using cur go [of 0] by (auto simp: wizard_first_def)
  next
    case Last
    then show ?thesis using cur go [of "navigationLength w"] by (auto simp: wizard_last_def)
  next
    case (Show r)
    then show ?thesis using ref_tab_in [of r w] by (auto simp: wizard_show_ref)
  qed (use assms(2) in auto)
qed

lemma back_core:
  assumes "quiet E" "in_sync w" "historyStack w = h @ [k]" "eq_tab k w = Some t"
  shows "core (wizard_back E w) = (w_tabs w, Some (t_id t), Some (t_id t), h)"
proof -
  let ?v = "w\<lparr>historyStack := h\<rparr>"
  have "in_sync ?v" using assms(2,3) by (auto simp: in_sync_def places_ok_def)
  with show_core [OF assms(1) this, of t] assms eq_tab_in [OF assms(4)] show ?thesis
    by (simp add: wizard_back_def quiet_def)
qed

lemma history_tab:
  assumes "in_sync w" "historyStack w = h @ [k]" shows "\<exists>t\<in>set (w_tabs w). eq_tab k w = Some t"
  using assms eq_tab_range [of k w] eq_tab_in [of k w] by (fastforce simp: in_sync_def places_ok_def)

lemma back_cong:
  assumes "quiet E" "in_sync w" "core v = core w"
  shows "core (wizard_back E v) = core (wizard_back E w)"
proof (cases "historyStack w" rule: rev_cases)
  case Nil
  with assms(3) show ?thesis by (simp add: wizard_back_def core_def)
next
  case (snoc h k)
  obtain t where t: "eq_tab k w = Some t" using history_tab [OF assms(2) snoc] by blast
  have v: "in_sync v" "historyStack v = h @ [k]" "eq_tab k v = Some t" "w_tabs v = w_tabs w"
    using assms snoc t core_sync [OF assms(3)] core_eq_tab [OF assms(3)] by (auto simp: core_def)
  show ?thesis using back_core [OF assms(1) v(1-3)] back_core [OF assms(1,2) snoc t] v(4) by simp
qed

lemma back_sync:
  assumes "quiet E" "in_sync w" shows "in_sync (wizard_back E w)"
proof (cases "historyStack w" rule: rev_cases)
  case (snoc h k)
  obtain t where t: "t \<in> set (w_tabs w)" "eq_tab k w = Some t" using history_tab [OF assms(2) snoc] by blast
  have "in_sync (w\<lparr>historyStack := h\<rparr>)" using assms(2) snoc by (auto simp: in_sync_def places_ok_def)
  from core_show_sync [OF this, of t] show ?thesis using back_core [OF assms snoc t(2)] t(1) by simp
qed (simp add: wizard_back_def assms)

lemma move_undone:
  assumes "quiet E" "in_sync w" "is_move a"
  shows "wizard_step E w a = w \<or>
    in_sync (wizard_step E w a) \<and> length (historyStack (wizard_step E w a)) = Suc (length (historyStack w)) \<and>
    core (wizard_back E (wizard_step E w a)) = core w"
proof (cases "wizard_step E w a = w")
  case False
  let ?p = "w\<lparr>historyStack := historyStack w @ [currentIndex w]\<rparr>"
  from move_cases [OF assms(2,3), of E] False obtain t where
    t: "t \<in> set (w_tabs w)" "wizard_step E w a = tab_show E (Some t) ?p" by blast
  have sync: "in_sync (tab_show E (Some t) ?p)" using show_sync [OF assms(1) pushed_sync [OF assms(2)]] t(1) by simp
  have c: "core (tab_show E (Some t) ?p) = (w_tabs w, Some (t_id t), Some (t_id t), historyStack w @ [currentIndex w])"
    using show_core [OF assms(1) pushed_sync [OF assms(2)]] t(1) by simp
  have known: "known w (activeTab w)" using assms(2) by (simp add: in_sync_def places_ok_def)
  obtain u where u: "eq_tab (currentIndex w) w = Some u" "Some (t_id u) = activeTab w"
    using known_eq_tab [OF known] by (auto simp: currentIndex_def)
  moreover have "eq_tab (currentIndex w) (tab_show E (Some t) ?p) = eq_tab (currentIndex w) w"
    using c by (simp add: core_def eq_tab_def Let_def)
  ultimately have "core (wizard_back E (tab_show E (Some t) ?p)) = core w"
    using back_core [OF assms(1) sync, of "historyStack w" "currentIndex w" u] c assms(2)
    by (simp add: core_def in_sync_def)
  with sync c t(2) show ?thesis by (simp add: core_def)
qed simp

lemma same_core_sync: "in_sync w \<Longrightarrow> core v = core w \<Longrightarrow> in_sync v"
  using core_sync by blast

lemma sync_tabs:
  assumes "in_sync w" "core v = (ts, w_shown w, activeTab w, historyStack w)" "map t_id ts = map t_id (w_tabs w)"
    "\<forall>t\<in>set ts. \<not> t_disabled t"
  shows "in_sync v"
proof -
  have "set (map t_id ts) = set (map t_id (w_tabs w))" by (simp only: assms(3))
  then have "known v t = known w t" for t using assms(2) by (simp add: known_def core_def split: option.split)
  moreover have "length ts = length (w_tabs w)" using assms(3) by (metis length_map)
  then have "navigationLength v = navigationLength w" using assms(2) by (simp add: navigationLength_def core_def)
  ultimately show ?thesis using assms by (simp add: in_sync_def places_ok_def core_def)
qed

lemma map_tab_sync:
  assumes "in_sync w" "\<And>u. t_id (f u) = t_id u" "\<And>u. \<not> t_disabled u \<Longrightarrow> \<not> t_disabled (f u)"
  shows "in_sync (map_tab i f w)"
  using assms by (intro sync_tabs [OF assms(1), of _ "w_tabs (map_tab i f w)"]) (auto simp: map_tab_def core_def in_sync_def split: option.split)

lemma step_sync:
  assumes "quiet E" "in_sync w" "\<not> removes a" "\<not> disables a" shows "in_sync (wizard_step E w a)"
proof (cases "is_move a")
  case True
  from move_undone [OF assms(1,2) True] assms(2) show ?thesis by metis
next
  case False
  then show ?thesis
  proof (cases a)
    case (Click i)
    then show ?thesis using assms show_sync [OF assms(1,2) eq_tab_in [of i w]]
      by (auto simp: tab_click_def split: option.split)
  next
    case Reset
    obtain i where "w_shown w = Some i" using assms(2)
      by (cases "w_shown w") (auto simp: in_sync_def places_ok_def known_def)
    with Reset show ?thesis using assms(2)
      by (intro same_core_sync [OF assms(2)])
        (auto simp: resetWizard_def fixNavigationButtons_def set_buttons_def core_def in_sync_def Let_def)
  next
    case Finish
    then show ?thesis by (intro same_core_sync [OF assms(2)]) (simp add: core_def wizard_finish_def)
  qed (use assms False in \<open>auto simp: back_sync wizard_enable_def wizard_hide_def wizard_display_def map_tab_sync\<close>)
qed

lemma new_sync:
  assumes "tabs \<noteq> []" "distinct (map t_id tabs)" "shown = None \<or> the shown \<in> t_id ` set tabs"
    "\<forall>t\<in>set tabs. \<not> t_disabled t"
  shows "in_sync (new_wizard E tabs shown)"
proof -
  have places: "places_ok (new_wizard E tabs shown)" using new_inv [OF assms(1-3)] by simp
  show ?thesis
  proof (cases shown)
    case None
    obtain t ts where "tabs = t # ts" using assms(1) by (cases tabs) auto
    then have "activeTab (new_wizard E tabs shown) = w_shown (new_wizard E tabs shown) \<and> w_tabs (new_wizard E tabs shown) = tabs"
      using None by (simp add: new_wizard_def fixNavigationButtons_def set_buttons_def tab_show_def innerTabShown_def
          eq_tab_def Let_def)
    then show ?thesis using places assms(4) by (simp add: in_sync_def)
  next
    case (Some i)
    with places assms(4) show ?thesis
      by (simp add: in_sync_def new_wizard_def fixNavigationButtons_def set_buttons_def Let_def)
  qed
qed

lemma run_sync:
  "quiet E \<Longrightarrow> in_sync w \<Longrightarrow> \<forall>a\<in>set as. \<not> removes a \<and> \<not> disables a \<Longrightarrow> in_sync (wizard_run E as w)"
  unfolding wizard_run_def by (induction as arbitrary: w) (auto simp: step_sync)

lemma move_keeps: "is_move a \<Longrightarrow> \<not> removes a \<and> \<not> disables a"
  by (cases a) auto

lemma backs_core:
  assumes "quiet E"
  shows "in_sync w \<Longrightarrow> core v = core w \<Longrightarrow> core ((wizard_back E ^^ n) v) = core ((wizard_back E ^^ n) w)"
proof (induction n arbitrary: v w)
  case (Suc n)
  show ?case unfolding funpow_Suc_right comp_apply
    by (rule Suc.IH [OF back_sync [OF assms Suc.prems(1)] back_cong [OF assms Suc.prems]])
qed simp

lemma moves_undone:
  assumes "quiet E" "in_sync w" "\<forall>a\<in>set as. is_move a"
  shows "length (historyStack w) \<le> length (historyStack (wizard_run E as w)) \<and>
    core ((wizard_back E ^^ (length (historyStack (wizard_run E as w)) - length (historyStack w))) (wizard_run E as w)) = core w"
  using assms(3)
proof (induction as rule: rev_induct)
  case (snoc a as)
  let ?v = "wizard_run E as w"
  have v: "in_sync ?v" using snoc.prems move_keeps by (intro run_sync assms) auto
  have run: "wizard_run E (as @ [a]) w = wizard_step E ?v a" by (simp add: wizard_run_def)
  consider (same) "wizard_step E ?v a = ?v"
    | (moved) "length (historyStack (wizard_step E ?v a)) = Suc (length (historyStack ?v))"
      "core (wizard_back E (wizard_step E ?v a)) = core ?v"
    using move_undone [OF assms(1) v, of a] snoc.prems by auto
  then show ?case
  proof cases
    case same
    then show ?thesis using snoc by (simp add: run)
  next
    case moved
    have IH: "length (historyStack w) \<le> length (historyStack ?v)"
      "core ((wizard_back E ^^ (length (historyStack ?v) - length (historyStack w))) ?v) = core w" using snoc by simp_all
    show ?thesis unfolding run moved(1) Suc_diff_le [OF IH(1)] funpow_Suc_right comp_apply
      using backs_core [OF assms(1) v moved(2)] IH by simp
  qed
qed (simp add: wizard_run_def)

section \<open>Properties\<close>

definition plain_env :: wizard_env where
  "plain_env = \<lparr>onNext = (\<lambda>w i. False), onPrevious = (\<lambda>w i. False), onFirst = (\<lambda>w i. False), onLast = (\<lambda>w i. False),
     onBack = (\<lambda>w i. False), onTabChange = (\<lambda>w i j. False), onTabClick = (\<lambda>w i j. False),
     class_first = False, class_last = False, class_disabled = False, has_finish = True\<rparr>"

definition three_tabs :: "wtab list" where
  "three_tabs = map (\<lambda>(i, h). \<lparr>t_id = i, t_href = h, t_disabled = False, t_visible = True\<rparr>)
     [(0, ''#account''), (1, ''#address''), (2, ''#done'')]"

text \<open>
  C24: Whatever the handlers of the application refuse, through every sequence of buttons, calls and
  clicks that removes no tab, the wizard stands on an existing tab, the previous button is disabled
  exactly on the first tab and the next button exactly on the last, and every entry of the history is
  the position of an existing tab.
\<close>

theorem wizard_places:
  assumes "tabs \<noteq> []" "distinct (map t_id tabs)" "shown = None \<or> the shown \<in> t_id ` set tabs"
    and "\<forall>a\<in>set as. \<not> removes a"
    and "w = wizard_run E as (new_wizard E tabs shown)"
  shows "0 \<le> currentIndex w \<and> currentIndex w \<le> lastIndex w \<and>
    (previous_disabled (w_buttons w) \<longleftrightarrow> currentIndex w = firstIndex w) \<and>
    (next_disabled (w_buttons w) \<longleftrightarrow> currentIndex w = lastIndex w) \<and>
    (\<forall>k\<in>set (historyStack w). eq_tab k w \<noteq> None)"
proof -
  have inv: "wizard_inv w" using run_inv [OF new_inv [OF assms(1-3)] assms(4)] assms(5) by simp
  then have "known w (activeTab w)" by (simp add: wizard_inv_def places_ok_def)
  from known_index(1,2) [OF this] inv eq_tab_range [of _ w] show ?thesis
    by (auto simp: wizard_inv_def places_ok_def buttons_ok_def currentIndex_def firstIndex_def lastIndex_def)
qed

theorem wizard_places_witness:
  "let w = wizard_run plain_env [Next, Disable 2, Next, Back] (new_wizard plain_env three_tabs None)
   in 0 \<le> currentIndex w \<and> currentIndex w \<le> lastIndex w"
  using wizard_places [of three_tabs None "[Next, Disable 2, Next, Back]" _ plain_env]
  by (simp add: three_tabs_def Let_def)

text \<open>
  C25: Going back undoes. Suppose that the handlers of the back button and of the change of a tab
  refuse nothing, while those of next, previous, first and last may refuse what they like, and that
  no tab is disabled at the start or later, and none removed. From any state so reached, after any
  sequence of next, previous, first, last and show, as many steps back as the history has grown
  bring back the tab the page shows, the active tab and the history. Each condition is needed: see
  \<open>back_refused\<close>, \<open>next_onto_disabled\<close> and \<open>remove_shifts_history\<close> below.
\<close>

theorem backs_undo:
  assumes "tabs \<noteq> []" "distinct (map t_id tabs)" "shown = None \<or> the shown \<in> t_id ` set tabs"
    and "\<forall>t\<in>set tabs. \<not> t_disabled t"
    and "onBack E = (\<lambda>w i. False)" "onTabChange E = (\<lambda>w i j. False)"
    and "\<forall>a\<in>set bs. \<not> removes a \<and> \<not> disables a" "\<forall>a\<in>set as. is_move a"
    and "w = wizard_run E bs (new_wizard E tabs shown)" "v = wizard_run E as w"
    and "u = (wizard_back E ^^ (length (historyStack v) - length (historyStack w))) v"
  shows "w_shown u = w_shown w \<and> activeTab u = activeTab w \<and> historyStack u = historyStack w"
proof -
  have "quiet E" using assms(5,6) by (simp add: quiet_def)
  moreover from this have "in_sync w" using run_sync new_sync [OF assms(1-4)] assms(7,9) by simp
  ultimately show ?thesis using moves_undone [OF _ _ assms(8), of E w] assms(10,11) by (simp add: core_def)
qed

theorem backs_undo_witness:
  "let w = wizard_run plain_env [Click 1] (new_wizard plain_env three_tabs None);
       v = wizard_run plain_env [Next, Last, First, Show (TabName ''address'')] w
   in activeTab ((wizard_back plain_env ^^ (length (historyStack v) - length (historyStack w))) v) = activeTab w"
  unfolding Let_def
  by (rule backs_undo [of three_tabs None plain_env "[Click 1]" "[Next, Last, First, Show (TabName ''address'')]",
        OF _ _ _ _ _ _ _ _ refl refl refl, THEN conjunct2, THEN conjunct1])
    (simp_all add: three_tabs_def plain_env_def)

text \<open>A handler that refuses to go back, or to leave the second tab, keeps the wizard where it is.\<close>

lemma back_refused:
  "activeTab (wizard_run (plain_env\<lparr>onBack := (\<lambda>w i. True)\<rparr>) [Next, Back] (new_wizard plain_env three_tabs None)) = Some 1"
  "activeTab (wizard_run (plain_env\<lparr>onTabChange := (\<lambda>w i j. i = 1)\<rparr>) [Next, Back] (new_wizard plain_env three_tabs None)) = Some 1"
  by code_simp+

text \<open>
  A disabled tab is reached all the same: the page shows its pane and the position is pushed on the
  history, while the wizard keeps its active tab and its buttons.
\<close>

lemma next_onto_disabled:
  assumes "\<not> class_last E" "\<not> onNext E w (nextIndex w)" "nextIndex w \<le> navigationLength w"
    and "eq_tab (nextIndex w) w = Some t" "t_disabled t" "w_shown w \<noteq> Some (t_id t)"
  shows "wizard_next E w = w\<lparr>w_shown := Some (t_id t), historyStack := historyStack w @ [currentIndex w]\<rparr>"
  using assms by (simp add: wizard_next_def tab_show_def innerTabShown_def)

text \<open>The first button on the first tab: nothing moves, and the history grows by an entry that leads nowhere.\<close>

lemma first_on_first:
  assumes "\<not> onFirst E w (firstIndex w)" "\<not> class_disabled E" "eq_tab 0 w = Some t" "w_shown w = Some (t_id t)"
  shows "wizard_first E w = w\<lparr>historyStack := historyStack w @ [currentIndex w]\<rparr>"
  using assms by (simp add: wizard_first_def tab_show_def)

text \<open>The history holds positions: after a tab in front was removed, going back leads to another tab.\<close>

lemma remove_shifts_history:
  "activeTab (wizard_run plain_env [Next, Next, Remove 0, Back] (new_wizard plain_env three_tabs None)) = Some 2"
  "activeTab (wizard_run plain_env [Next, Next, Back] (new_wizard plain_env three_tabs None)) = Some 1"
  by code_simp+

end
