(* ===== verification/Multi_Select.thy ===== *)
theory Multi_Select
  imports Js_Prelude "HOL-Library.Word"
begin

text \<open>
  The two-list selection widget, \<open>jquery.multi-select.js\<close>. A hidden \<open>select\<close> element has options,
  some in groups; each option has a list item on either side, found by an id that is a 32-bit
  hash of its value. Elements carry a key, their identity in the page. Values, labels and texts
  are taken to have no quotes and no markup; every option has its value as an attribute; groups
  are not disabled as a whole, and the labels of different groups differ.
\<close>

section \<open>State\<close>

record ms_option =
  o_key :: nat
  o_value :: string
  o_selected :: bool
  o_disabled :: bool

datatype sel_node = Opt ms_option | Optgroup string "ms_option list"

record li =
  li_key :: nat
  li_value :: string
  li_selected :: bool
  li_shown :: bool
  li_disabled :: bool
  li_hover :: bool

text \<open>A child of a list: an item, or the container of a group (its id, its label, whether the label shows, its items).\<close>

datatype entry = Item li | Container "32 word" string bool "li list"

datatype ms_side = Selectable | Selection

datatype ms_event = Change | AfterSelect "string list" | AfterDeselect "string list option"

record ms =
  ms_nodes :: "sel_node list"
  selectableUl :: "entry list"
  selectionUl :: "entry list"
  ms_focus :: "ms_side option"
  ms_events :: "ms_event list"

text \<open>
  Options of the widget, whether the \<open>select\<close> is disabled, and the page: whether an element of this
  widget is the first in the page with its id (\<open>getElementById\<close> finds it), whether the browser lays
  out the container of a group visibly, and where the tabulator leads when \<open>tabindex\<close> is set.
\<close>

record ms_env =
  keySelect :: "int list"
  selectableOptgroup :: bool
  dblClick :: bool
  keepOrder :: bool
  has_afterSelect :: bool
  ms_disabled :: bool
  first_found :: bool
  container_visible :: "entry \<Rightarrow> bool"
  tabindex_focus :: "(bool \<Rightarrow> ms_side option) option"

section \<open>Elements\<close>

fun node_opts :: "sel_node \<Rightarrow> ms_option list" where
  "node_opts (Opt x) = [x]"
| "node_opts (Optgroup l xs) = xs"

definition ms_opts :: "sel_node list \<Rightarrow> ms_option list" where
  "ms_opts ns = concat (map node_opts ns)"

fun map_node :: "(ms_option \<Rightarrow> ms_option) \<Rightarrow> sel_node \<Rightarrow> sel_node" where
  "map_node f (Opt x) = Opt (f x)"
| "map_node f (Optgroup l xs) = Optgroup l (map f xs)"

fun entry_lis :: "entry \<Rightarrow> li list" where
  "entry_lis (Item l) = [l]"
| "entry_lis (Container h g v ls) = ls"

definition lis :: "entry list \<Rightarrow> li list" where
  "lis es = concat (map entry_lis es)"

fun map_entry :: "(li \<Rightarrow> li) \<Rightarrow> entry \<Rightarrow> entry" where
  "map_entry f (Item l) = Item (f l)"
| "map_entry f (Container h g v ls) = Container h g v (map f ls)"

fun map_label :: "(bool \<Rightarrow> li list \<Rightarrow> bool) \<Rightarrow> entry \<Rightarrow> entry" where
  "map_label f (Item l) = Item l"
| "map_label f (Container h g v ls) = Container h g (f v ls) ls"

fun is_container :: "entry \<Rightarrow> bool" where
  "is_container (Item l) = False"
| "is_container (Container h g v ls) = True"

text \<open>\<open>insertAt\<close>: behind a child that does not exist, nothing is inserted.\<close>

definition insertAt :: "nat \<Rightarrow> 'a \<Rightarrow> 'a list \<Rightarrow> 'a list" where
  "insertAt i x xs = (if i = 0 then x # xs else if i \<le> length xs then take i xs @ x # drop i xs else xs)"

text \<open>The selector of the items the keyboard and the mouse see.\<close>

definition elems :: "li \<Rightarrow> bool" where
  "elems l \<longleftrightarrow> li_shown l \<and> \<not> li_disabled l"

definition clear_hover :: "entry list \<Rightarrow> entry list" where
  "clear_hover = map (map_entry (\<lambda>l. if elems l then l\<lparr>li_hover := False\<rparr> else l))"

section \<open>Identifiers\<close>

definition hash_step :: "32 word \<Rightarrow> char \<Rightarrow> 32 word" where
  "hash_step hash c = (push_bit 5 hash - hash) + of_nat (of_char c)"

definition sanitize :: "string \<Rightarrow> 32 word" where
  "sanitize v = (if length v = 0 then 0 else foldl hash_step 0 v)"

text \<open>
  The items with one of the ids. A single id is looked up with \<open>getElementById\<close>, which gives one
  element; a list of ids gives all elements that have one of them.
\<close>

definition find_lis :: "ms_env \<Rightarrow> 32 word list \<Rightarrow> li list \<Rightarrow> li list" where
  "find_lis E ids ls =
     (let found = filter (\<lambda>l. sanitize (li_value l) \<in> set ids) ls
      in if length ids = 1 \<and> first_found E then take 1 found else found)"

section \<open>Selecting\<close>

definition mark :: "nat set \<Rightarrow> bool \<Rightarrow> bool \<Rightarrow> entry list \<Rightarrow> entry list" where
  "mark K sel shown = map (map_entry (\<lambda>l. if li_key l \<in> K then l\<lparr>li_selected := sel, li_shown := shown\<rparr> else l))"

definition set_options :: "(ms_option \<Rightarrow> bool) \<Rightarrow> bool \<Rightarrow> sel_node list \<Rightarrow> sel_node list" where
  "set_options P b = map (map_node (\<lambda>x. if P x then x\<lparr>o_selected := b\<rparr> else x))"

text \<open>\<open>selections.insertAfter(last)\<close>; the element they go behind stays where it is.\<close>

definition insertAfter :: "nat set \<Rightarrow> nat \<Rightarrow> entry list \<Rightarrow> entry list" where
  "insertAfter K t es =
     (let moves = (\<lambda>e. \<exists>l\<in>set (entry_lis e). li_key l \<in> K \<and> li_key l \<noteq> t)
      in concat (map (\<lambda>e. if \<exists>l\<in>set (entry_lis e). li_key l = t then e # filter moves es else [e])
           (filter (\<lambda>e. \<not> moves e) es)))"

definition keep_order :: "li list \<Rightarrow> entry list \<Rightarrow> entry list" where
  "keep_order selections es =
     (let selectionLiLast = filter li_selected (lis es)
      in if length selectionLiLast > 1 \<and> map li_key (take 1 selections) \<noteq> [li_key (last selectionLiLast)]
         then insertAfter (li_key ` set selections) (li_key (last selectionLiLast)) es else es)"

definition ms_select :: "ms_env \<Rightarrow> bool \<Rightarrow> string list \<Rightarrow> ms \<Rightarrow> ms" where
  "ms_select E init value s =
     (let msIds = map sanitize value;
          selectables = filter (\<lambda>l. init \<or> \<not> li_disabled l) (find_lis E msIds (lis (selectableUl s)));
          selections = filter (\<lambda>l. init \<or> \<not> li_disabled l) (find_lis E msIds (lis (selectionUl s)))
      in if selectables = [] then s
         else (let a = clear_hover (mark (li_key ` set selectables) True False (selectableUl s));
                   b = clear_hover (mark (li_key ` set selections) True True (selectionUl s));
                   groups = (\<exists>e\<in>set a. is_container e)
               in s\<lparr>ms_nodes := set_options (\<lambda>x. \<not> o_disabled x \<and> o_value x \<in> set value) True (ms_nodes s),
                    selectableUl := (if groups then map (map_label (\<lambda>v ls. if \<forall>l\<in>set ls. li_selected l then False else v)) a else a),
                    selectionUl :=
                      (if groups then map (map_label (\<lambda>v ls. if \<exists>l\<in>set ls. li_selected l then True else v)) b
                       else if keepOrder E \<and> \<not> init then keep_order selections b else b),
                    ms_events := ms_events s @ (if init then [] else [Change, AfterSelect value])\<rparr>))"

definition ms_deselect :: "ms_env \<Rightarrow> string list \<Rightarrow> ms \<Rightarrow> ms" where
  "ms_deselect E value s =
     (let msIds = map sanitize value;
          selectables = find_lis E msIds (lis (selectableUl s));
          selections = filter (\<lambda>l. li_selected l \<and> \<not> li_disabled l) (find_lis E msIds (lis (selectionUl s)))
      in if selections = [] then s
         else (let a = clear_hover (mark (li_key ` set selectables) False True (selectableUl s));
                   b = clear_hover (mark (li_key ` set selections) False False (selectionUl s));
                   groups = (\<exists>e\<in>set a. is_container e)
               in s\<lparr>ms_nodes := set_options (\<lambda>x. o_value x \<in> set value) False (ms_nodes s),
                    selectableUl := (if groups then map (map_label (\<lambda>v ls. if \<exists>l\<in>set ls. \<not> li_selected l then True else v)) a else a),
                    selectionUl := (if groups then map (map_label (\<lambda>v ls. if \<forall>l\<in>set ls. \<not> li_selected l then False else v)) b else b),
                    ms_events := ms_events s @ [Change, AfterDeselect (Some value)]\<rparr>))"

text \<open>\<open>val()\<close> of the element: \<open>null\<close> when nothing is selected, else the enabled values.\<close>

definition ms_val :: "sel_node list \<Rightarrow> string list option" where
  "ms_val ns =
     (if \<exists>x\<in>set (ms_opts ns). o_selected x
      then Some (map o_value (filter (\<lambda>x. o_selected x \<and> \<not> o_disabled x) (ms_opts ns))) else None)"

text \<open>An exception leaves the changes made before it.\<close>

definition select_all :: "ms_env \<Rightarrow> ms \<Rightarrow> ms \<times> js_error option" where
  "select_all E s =
     (let values = ms_val (ms_nodes s);
          nodes = set_options (\<lambda>x. \<not> o_disabled x) True (ms_nodes s);
          en = (\<lambda>es. li_key ` set (filter (\<lambda>l. \<not> li_disabled l) (lis es)));
          s' = s\<lparr>ms_nodes := nodes,
                 selectableUl := map (map_label (\<lambda>v ls. False)) (mark (en (selectableUl s)) True False (selectableUl s)),
                 selectionUl := map (map_label (\<lambda>v ls. True)) (mark (en (selectionUl s)) True True (selectionUl s)),
                 ms_focus := Some Selection, ms_events := ms_events s @ [Change]\<rparr>
      in if has_afterSelect E
         then (case ms_val nodes of
                 None \<Rightarrow> (s', Some TypeError)
               | Some vs \<Rightarrow> (s'\<lparr>ms_events := ms_events s' @
                   [AfterSelect (filter (\<lambda>v. case values of None \<Rightarrow> True | Some xs \<Rightarrow> v \<notin> set xs) vs)]\<rparr>, None))
         else (s', None))"

definition deselect_all :: "ms \<Rightarrow> ms" where
  "deselect_all s =
     (let values = ms_val (ms_nodes s); all = (\<lambda>es. li_key ` set (lis es))
      in s\<lparr>ms_nodes := set_options (\<lambda>x. True) False (ms_nodes s),
           selectableUl := map (map_label (\<lambda>v ls. True)) (mark (all (selectableUl s)) False True (selectableUl s)),
           selectionUl := map (map_label (\<lambda>v ls. False)) (mark (all (selectionUl s)) False False (selectionUl s)),
           ms_focus := Some Selectable, ms_events := ms_events s @ [Change, AfterDeselect values]\<rparr>)"

section \<open>Building the lists\<close>

definition new_li :: "ms_env \<Rightarrow> ms_option \<Rightarrow> bool \<Rightarrow> li" where
  "new_li E opt shown = \<lparr>li_key = o_key opt, li_value = o_value opt, li_selected = False, li_shown = shown,
     li_disabled = o_disabled opt \<or> ms_disabled E, li_hover = False\<rparr>"

fun group_index :: "32 word \<Rightarrow> entry list \<Rightarrow> nat option" where
  "group_index h [] = None"
| "group_index h (Container h' g v ls # es) = (if h' = h then Some (length ls) else group_index h es)"
| "group_index h (Item l # es) = group_index h es"

fun insert_li :: "32 word \<Rightarrow> nat \<Rightarrow> li \<Rightarrow> entry \<Rightarrow> entry" where
  "insert_li h i l (Item m) = Item m"
| "insert_li h i l (Container h' g v ls) = (if h' = h then Container h' g v (insertAt i l ls) else Container h' g v ls)"

definition generateLisFromOption :: "ms_env \<Rightarrow> ms_option \<Rightarrow> string option \<Rightarrow> nat option \<Rightarrow> ms \<Rightarrow> ms" where
  "generateLisFromOption E opt optgroup index s =
     (let selectableLi = new_li E opt True; selectedLi = new_li E opt False
      in case optgroup of
           None \<Rightarrow>
             (let i = (case index of None \<Rightarrow> length (selectableUl s) | Some i \<Rightarrow> i)
              in s\<lparr>selectableUl := insertAt i (Item selectableLi) (selectableUl s),
                   selectionUl := insertAt i (Item selectedLi) (selectionUl s)\<rparr>)
         | Some g \<Rightarrow>
             (let h = sanitize g;
                  s1 = (if group_index h (selectableUl s) = None
                        then s\<lparr>selectableUl := selectableUl s @ [Container h g True []],
                               selectionUl := selectionUl s @ [Container h g True []]\<rparr> else s);
                  i = (case index of None \<Rightarrow> the (group_index h (selectableUl s1)) | Some i \<Rightarrow> i)
              in s1\<lparr>selectableUl := map (insert_li h i selectableLi) (selectableUl s1),
                    selectionUl := map (insert_li h i selectedLi) (selectionUl s1)\<rparr>))"

fun node_lis :: "ms_env \<Rightarrow> sel_node \<Rightarrow> ms \<Rightarrow> ms" where
  "node_lis E (Opt opt) s = generateLisFromOption E opt None None s"
| "node_lis E (Optgroup g opts) s = fold (\<lambda>opt. generateLisFromOption E opt (Some g) None) opts s"

definition ms_selected_values :: "ms \<Rightarrow> string list" where
  "ms_selected_values s = map o_value (filter o_selected (ms_opts (ms_nodes s)))"

text \<open>\<open>init\<close> without and with the container in the page.\<close>

definition ms_reinit :: "ms_env \<Rightarrow> ms \<Rightarrow> ms" where
  "ms_reinit E s = ms_select E True (ms_selected_values s) s"

definition ms_init :: "ms_env \<Rightarrow> sel_node list \<Rightarrow> ms" where
  "ms_init E nodes =
     (let s = fold (node_lis E) nodes \<lparr>ms_nodes = nodes, selectableUl = [], selectionUl = [], ms_focus = None, ms_events = []\<rparr>
      in ms_reinit E (s\<lparr>selectionUl := map (map_label (\<lambda>v ls. False)) (selectionUl s)\<rparr>))"

definition ms_refresh :: "ms_env \<Rightarrow> ms \<Rightarrow> ms" where
  "ms_refresh E s = (let t = ms_init E (ms_nodes s) in t\<lparr>ms_events := ms_events s\<rparr>)"

record new_option =
  n_value :: string
  n_index :: "nat option"
  n_nested :: "string option"

fun find_group :: "string \<Rightarrow> sel_node list \<Rightarrow> ms_option list option" where
  "find_group g [] = None"
| "find_group g (Opt x # ns) = find_group g ns"
| "find_group g (Optgroup l opts # ns) = (if l = g then Some opts else find_group g ns)"

fun insert_opt :: "string \<Rightarrow> nat \<Rightarrow> ms_option \<Rightarrow> sel_node \<Rightarrow> sel_node" where
  "insert_opt g i opt (Opt x) = Opt x"
| "insert_opt g i opt (Optgroup l opts) = (if l = g then Optgroup l (insertAt i opt opts) else Optgroup l opts)"

text \<open>The identity of a new element.\<close>

definition fresh_key :: "ms \<Rightarrow> nat" where
  "fresh_key s = Suc (foldr max (map o_key (ms_opts (ms_nodes s)) @ map li_key (lis (selectableUl s)) @
     map li_key (lis (selectionUl s))) 0)"

definition add_option :: "ms_env \<Rightarrow> new_option \<Rightarrow> ms \<Rightarrow> ms" where
  "add_option E n s =
     (if n_value n \<noteq> [] \<and> (\<forall>opt\<in>set (ms_opts (ms_nodes s)). o_value opt \<noteq> n_value n)
      then (let opt = \<lparr>o_key = fresh_key s, o_value = n_value n, o_selected = False, o_disabled = False\<rparr>;
                i = (case n_index n of None \<Rightarrow> length (ms_nodes s) | Some i \<Rightarrow> i);
                nodes = (case n_nested n of None \<Rightarrow> insertAt i (Opt opt) (ms_nodes s)
                         | Some g \<Rightarrow> map (insert_opt g i opt) (ms_nodes s));
                parent = (case n_nested n of None \<Rightarrow> None
                          | Some g \<Rightarrow> (case find_group g (ms_nodes s) of
                                        None \<Rightarrow> None | Some opts \<Rightarrow> if i \<le> length opts then Some g else None))
            in generateLisFromOption E opt parent (Some i) (s\<lparr>ms_nodes := nodes\<rparr>))
      else s)"

definition addOption :: "ms_env \<Rightarrow> new_option list \<Rightarrow> ms \<Rightarrow> ms" where
  "addOption E ns s = foldl (\<lambda>s n. add_option E n s) s ns"

section \<open>Keyboard and mouse\<close>

definition side_ul :: "ms_side \<Rightarrow> ms \<Rightarrow> entry list" where
  "side_ul d s = (case d of Selectable \<Rightarrow> selectableUl s | Selection \<Rightarrow> selectionUl s)"

definition set_side :: "ms_side \<Rightarrow> entry list \<Rightarrow> ms \<Rightarrow> ms" where
  "set_side d es s = (case d of Selectable \<Rightarrow> s\<lparr>selectableUl := es\<rparr> | Selection \<Rightarrow> s\<lparr>selectionUl := es\<rparr>)"

text \<open>Siblings: the items outside groups, and the items of each group.\<close>

definition top_items :: "entry list \<Rightarrow> li list" where
  "top_items es = concat (map (\<lambda>e. if is_container e then [] else entry_lis e) es)"

definition sibling_lists :: "entry list \<Rightarrow> li list list" where
  "sibling_lists es = top_items es # map entry_lis (filter is_container es)"

definition cur :: "li \<Rightarrow> bool" where
  "cur l \<longleftrightarrow> elems l \<and> li_hover l"

definition nextAll :: "entry list \<Rightarrow> nat set" where
  "nextAll es = li_key ` set (filter elems (concat (map (\<lambda>ls. tl (dropWhile (\<lambda>l. \<not> cur l) ls)) (sibling_lists es))))"

definition prevAll :: "entry list \<Rightarrow> nat set" where
  "prevAll es = li_key ` set (filter elems (concat (map (\<lambda>ls. rev (tl (dropWhile (\<lambda>l. \<not> cur l) (rev ls)))) (sibling_lists es))))"

definition js_first :: "'a list \<Rightarrow> 'a option" where
  "js_first xs = (case xs of [] \<Rightarrow> None | x # xs \<Rightarrow> Some x)"

definition js_last :: "'a list \<Rightarrow> 'a option" where
  "js_last xs = js_first (rev xs)"

fun followers :: "(entry \<Rightarrow> bool) \<Rightarrow> entry list \<Rightarrow> entry list" where
  "followers P (e # f # es) = (if P e then [f] else []) @ followers P (f # es)"
| "followers P es = []"

fun shown_entry :: "ms_env \<Rightarrow> entry \<Rightarrow> bool" where
  "shown_entry E (Item l) = li_shown l"
| "shown_entry E (Container h g v ls) = container_visible E (Container h g v ls)"

definition inner_elems :: "entry list \<Rightarrow> li list" where
  "inner_elems es = filter elems (concat (map (\<lambda>e. if is_container e then entry_lis e else []) es))"

definition cur_group :: "entry \<Rightarrow> bool" where
  "cur_group e \<longleftrightarrow> is_container e \<and> (\<exists>l\<in>set (entry_lis e). cur l)"

definition next_elem :: "ms_env \<Rightarrow> entry list \<Rightarrow> li option" where
  "next_elem E es =
     (case filter (\<lambda>l. li_key l \<in> nextAll es) (lis es) of
        l # ls \<Rightarrow> Some l
      | [] \<Rightarrow>
          if \<exists>e\<in>set es. cur_group e
          then (case filter (shown_entry E) (followers cur_group es) of
                  [] \<Rightarrow> js_first (filter elems (lis es))
                | f # fs \<Rightarrow> js_first (inner_elems (f # fs)))
          else js_first (filter elems (lis es)))"

definition prev_elem :: "ms_env \<Rightarrow> entry list \<Rightarrow> li option" where
  "prev_elem E es =
     (case rev (filter (\<lambda>l. li_key l \<in> prevAll es) (lis es)) of
        l # ls \<Rightarrow> Some l
      | [] \<Rightarrow>
          if \<exists>e\<in>set es. cur_group e
          then (case filter (shown_entry E) (followers cur_group (rev es)) of
                  [] \<Rightarrow> js_last (filter elems (lis es))
                | f # fs \<Rightarrow> js_last (inner_elems (rev (f # fs))))
          else js_last (filter elems (lis es)))"

definition highlight :: "nat \<Rightarrow> entry list \<Rightarrow> entry list" where
  "highlight k = map (map_entry (\<lambda>l. if li_key l = k then l\<lparr>li_hover := True\<rparr> else l))"

definition moveHighlight :: "ms_env \<Rightarrow> ms_side \<Rightarrow> int \<Rightarrow> ms \<Rightarrow> ms" where
  "moveHighlight E d direction s =
     (let es = side_ul d s;
          target = (if direction = 1 then next_elem E es else if direction = -1 then prev_elem E es else None)
      in case target of
           None \<Rightarrow> set_side d (clear_hover es) s
         | Some l \<Rightarrow> set_side d (highlight (li_key l) (clear_hover es)) s)"

definition ms_click_value :: "ms_env \<Rightarrow> ms_side \<Rightarrow> string \<Rightarrow> ms \<Rightarrow> ms" where
  "ms_click_value E d v s = (case d of Selectable \<Rightarrow> ms_select E False [v] s | Selection \<Rightarrow> ms_deselect E [v] s)"

definition unhover :: "nat set \<Rightarrow> entry list \<Rightarrow> entry list" where
  "unhover K = map (map_entry (\<lambda>l. if li_key l \<in> K then l\<lparr>li_hover := False\<rparr> else l))"

definition selectHighlighted :: "ms_env \<Rightarrow> ms_side \<Rightarrow> ms \<Rightarrow> ms" where
  "selectHighlighted E d s =
     (case filter cur (lis (side_ul d s)) of
        [] \<Rightarrow> s
      | l # ls \<Rightarrow> (let t = ms_click_value E d (li_value l) s
                  in set_side d (unhover (li_key ` set (filter elems (lis (side_ul d s)))) (side_ul d t)) t))"

definition clear_all_hover :: "ms \<Rightarrow> ms" where
  "clear_all_hover s = s\<lparr>selectableUl := clear_hover (selectableUl s), selectionUl := clear_hover (selectionUl s)\<rparr>"

definition switchList :: "ms_side \<Rightarrow> ms \<Rightarrow> ms" where
  "switchList d s =
     (clear_all_hover s)\<lparr>ms_focus := Some (case d of Selectable \<Rightarrow> Selection | Selection \<Rightarrow> Selectable)\<rparr>"

definition ms_keydown :: "ms_env \<Rightarrow> ms_side \<Rightarrow> int \<Rightarrow> bool \<Rightarrow> ms \<Rightarrow> ms" where
  "ms_keydown E d which shiftKey s =
     (let keySel = (\<lambda>s. if which \<in> set (keySelect E) then selectHighlighted E d s else s)
      in if which = 40 \<or> which = 38 then moveHighlight E d (if which = 38 then -1 else 1) s
         else if which = 37 \<or> which = 39 then switchList d s
         else if which = 9 then
           (case tabindex_focus E of
              Some f \<Rightarrow> s\<lparr>ms_focus := f shiftKey\<rparr>
            | None \<Rightarrow> keySel (if shiftKey then s\<lparr>ms_focus := Some Selectable\<rparr> else s))
         else keySel s)"

text \<open>The mouse enters or leaves an item the selector sees; a click, single or double, on any item shown.\<close>

definition ms_mouseenter :: "ms_side \<Rightarrow> nat \<Rightarrow> ms \<Rightarrow> ms" where
  "ms_mouseenter d k s =
     (if \<exists>l\<in>set (lis (side_ul d s)). li_key l = k \<and> elems l
      then (let t = clear_all_hover s in set_side d (highlight k (side_ul d t)) t) else s)"

definition ms_mouseleave :: "ms_side \<Rightarrow> nat \<Rightarrow> ms \<Rightarrow> ms" where
  "ms_mouseleave d k s =
     (if \<exists>l\<in>set (lis (side_ul d s)). li_key l = k \<and> elems l then clear_all_hover s else s)"

definition ms_click :: "ms_env \<Rightarrow> ms_side \<Rightarrow> bool \<Rightarrow> nat \<Rightarrow> ms \<Rightarrow> ms" where
  "ms_click E d double k s =
     (case filter (\<lambda>l. li_key l = k \<and> li_shown l) (lis (side_ul d s)) of
        [] \<Rightarrow> s
      | l # ls \<Rightarrow> if double = dblClick E then ms_click_value E d (li_value l) s else s)"

text \<open>A click on the label of a group.\<close>

definition ms_label_click :: "ms_env \<Rightarrow> ms_side \<Rightarrow> string \<Rightarrow> ms \<Rightarrow> ms" where
  "ms_label_click E d g s =
     (case find_group g (ms_nodes s) of
        None \<Rightarrow> s
      | Some opts \<Rightarrow>
          if selectableOptgroup E
          then (case d of
                  Selectable \<Rightarrow> ms_select E False (map o_value (filter (\<lambda>x. \<not> o_selected x \<and> \<not> o_disabled x) opts)) s
                | Selection \<Rightarrow> ms_deselect E (map o_value (filter (\<lambda>x. o_selected x \<and> \<not> o_disabled x) opts)) s)
          else s)"

section \<open>Runs\<close>

datatype ms_action =
    Select "string list" | Deselect "string list" | SelectAll | DeselectAll | AddOption "new_option list"
  | Reinit | Refresh | KeyDown ms_side int bool | MouseEnter ms_side nat | MouseLeave ms_side nat
  | Click ms_side bool nat | LabelClick ms_side string

fun ms_step :: "ms_env \<Rightarrow> ms \<Rightarrow> ms_action \<Rightarrow> ms" where
  "ms_step E s (Select vs) = ms_select E False vs s"
| "ms_step E s (Deselect vs) = ms_deselect E vs s"
| "ms_step E s SelectAll = fst (select_all E s)"
| "ms_step E s DeselectAll = deselect_all s"
| "ms_step E s (AddOption ns) = addOption E ns s"
| "ms_step E s Reinit = ms_reinit E s"
| "ms_step E s Refresh = ms_refresh E s"
| "ms_step E s (KeyDown d which shift) = ms_keydown E d which shift s"
| "ms_step E s (MouseEnter d k) = ms_mouseenter d k s"
| "ms_step E s (MouseLeave d k) = ms_mouseleave d k s"
| "ms_step E s (Click d double k) = ms_click E d double k s"
| "ms_step E s (LabelClick d g) = ms_label_click E d g s"

definition ms_run :: "ms_env \<Rightarrow> ms_action list \<Rightarrow> ms \<Rightarrow> ms" where
  "ms_run E as s = foldl (ms_step E) s as"

section \<open>The hash\<close>

lemma hash_step_arith: "hash_step h c = 31 * h + of_nat (of_char c)"
  by (simp add: hash_step_def push_bit_eq_mult)

lemma sanitize_foldl: "sanitize v = foldl hash_step 0 v"
  by (simp add: sanitize_def)

lemma sanitize_snoc [simp]: "sanitize (v @ [c]) = 31 * sanitize v + of_nat (of_char c)"
  by (simp add: sanitize_foldl hash_step_arith)

lemma sanitize_sum: "sanitize v = of_nat (\<Sum>i<length v. 31 ^ (length v - 1 - i) * of_char (v ! i))"
proof (induction v rule: rev_induct)
  case (snoc c v)
  have "(\<Sum>i<length v. 31 ^ (length v - i) * of_char ((v @ [c]) ! i)) =
    31 * (\<Sum>i<length v. 31 ^ (length v - 1 - i) * (of_char (v ! i) :: nat))"
    unfolding sum_distrib_left
  proof (rule sum.cong)
    fix i assume "i \<in> {..<length v}"
    then have "31 ^ (length v - i) = (31 :: nat) * 31 ^ (length v - 1 - i)" "(v @ [c]) ! i = v ! i"
      by (simp_all add: nth_append flip: power_Suc)
    then show "31 ^ (length v - i) * of_char ((v @ [c]) ! i) = 31 * (31 ^ (length v - 1 - i) * (of_char (v ! i) :: nat))"
      by simp
  qed simp
  then show ?case using snoc by (simp add: nth_append)
qed (simp add: sanitize_def)

section \<open>Views of the elements\<close>

definition li_view :: "li \<Rightarrow> nat \<times> string \<times> bool \<times> bool" where
  "li_view l = (li_key l, li_value l, li_disabled l, li_selected l)"

definition opt_view :: "ms_option \<Rightarrow> nat \<times> string \<times> bool \<times> bool" where
  "opt_view x = (o_key x, o_value x, o_disabled x, o_selected x)"

lemma lis_map_entry [simp]: "lis (map (map_entry f) es) = map f (lis es)"
proof -
  have "entry_lis (map_entry f e) = map f (entry_lis e)" for e by (cases e) simp_all
  then show ?thesis by (simp add: lis_def map_concat o_def)
qed

lemma lis_map_label [simp]: "lis (map (map_label f) es) = lis es"
proof -
  have "entry_lis (map_label f e) = entry_lis e" for e by (cases e) simp_all
  then show ?thesis by (simp add: lis_def o_def)
qed

lemma opts_map_node [simp]: "ms_opts (map (map_node f) ns) = map f (ms_opts ns)"
proof -
  have "node_opts (map_node f n) = map f (node_opts n)" for n by (cases n) simp_all
  then show ?thesis by (simp add: ms_opts_def map_concat o_def)
qed

lemma lis_clear_hover: "lis (clear_hover es) = map (\<lambda>l. if elems l then l\<lparr>li_hover := False\<rparr> else l) (lis es)"
  by (simp add: clear_hover_def)

lemma lis_mark: "lis (mark K a b es) = map (\<lambda>l. if li_key l \<in> K then l\<lparr>li_selected := a, li_shown := b\<rparr> else l) (lis es)"
  by (simp add: mark_def)

lemma opts_set_options: "ms_opts (set_options P b ns) = map (\<lambda>x. if P x then x\<lparr>o_selected := b\<rparr> else x) (ms_opts ns)"
  by (simp add: set_options_def)

lemma lengths [simp]: "length (clear_hover es) = length es" "length (mark K a b es) = length es"
  "length (set_options P c ns) = length ns"
  by (simp_all add: clear_hover_def mark_def set_options_def)

text \<open>Moving the items of a list without groups about keeps them all.\<close>

lemma flat_lis: "\<forall>e\<in>set es. \<not> is_container e \<Longrightarrow> map Item (lis es) = es"
proof (induction es)
  case (Cons e es)
  then show ?case by (cases e) (auto simp: lis_def)
qed (simp add: lis_def)

lemma lis_items [simp]: "lis (map Item ls) = ls"
  by (induction ls) (auto simp: lis_def)

lemma concat_single: "\<forall>x\<in>set xs. \<not> P x \<Longrightarrow> concat (map (\<lambda>x. if P x then x # ys else [x]) xs) = xs"
  by (induction xs) auto

lemma insertAfter_items:
  assumes "distinct (map li_key (a @ l # b))"
  shows "insertAfter K (li_key l) (map Item (a @ l # b)) =
    map Item (filter (\<lambda>m. li_key m \<notin> K) a @ l # filter (\<lambda>m. li_key m \<in> K) (a @ b) @ filter (\<lambda>m. li_key m \<notin> K) b)"
proof -
  let ?mv = "\<lambda>e. \<exists>m\<in>set (entry_lis e). li_key m \<in> K \<and> li_key m \<noteq> li_key l"
  have keep: "filter (\<lambda>e. \<not> ?mv e) (map Item xs) = map Item (filter (\<lambda>m. li_key m \<notin> K) xs)"
    "filter ?mv (map Item xs) = map Item (filter (\<lambda>m. li_key m \<in> K) xs)" if "\<forall>m\<in>set xs. li_key m \<noteq> li_key l" for xs
    using that by (induction xs) auto
  have ne: "\<forall>m\<in>set a. li_key m \<noteq> li_key l" "\<forall>m\<in>set b. li_key m \<noteq> li_key l" using assms by (simp_all add: rev_image_eqI) (metis image_eqI)+
  have single: "concat (map (\<lambda>e. if \<exists>m\<in>set (entry_lis e). li_key m = li_key l then e # ys else [e])
      (map Item (filter P xs))) = map Item (filter P xs)" if "\<forall>m\<in>set xs. li_key m \<noteq> li_key l" for xs P ys
    using that by (intro concat_single) auto
  show ?thesis
    unfolding insertAfter_def Let_def
    using keep [OF ne(1)] keep [OF ne(2)] single [OF ne(1)] single [OF ne(2)] by simp
qed

lemma mset_filter_split: "mset (filter P xs) + mset (filter (\<lambda>x. \<not> P x) xs) = mset xs"
  by (induction xs) auto

lemma keep_order_mset:
  assumes "\<forall>e\<in>set es. \<not> is_container e" "distinct (map li_key (lis es))"
  shows "mset (lis (keep_order sel es)) = mset (lis es) \<and> (\<forall>e\<in>set (keep_order sel es). \<not> is_container e) \<and>
    length (keep_order sel es) = length es"
proof -
  let ?chosen = "filter li_selected (lis es)"
  show ?thesis
  proof (cases "length ?chosen > 1 \<and> map li_key (take 1 sel) \<noteq> [li_key (last ?chosen)]")
    case True
    then have "last ?chosen \<in> set ?chosen" by (intro last_in_set) auto
    then have in_es: "last ?chosen \<in> set (lis es)" by simp
    obtain c where c: "last ?chosen = c" by simp
    with in_es have "c \<in> set (lis es)" by (simp only: c)
    then obtain a b where ab: "lis es = a @ c # b" by (meson split_list)
    let ?K = "li_key ` set sel"
    have es: "es = map Item (a @ c # b)" using flat_lis [OF assms(1)] ab by simp
    have "keep_order sel es = insertAfter ?K (li_key c) es" using True c by (simp add: keep_order_def Let_def)
    also have "\<dots> = map Item (filter (\<lambda>m. li_key m \<notin> ?K) a @ c #
        filter (\<lambda>m. li_key m \<in> ?K) (a @ b) @ filter (\<lambda>m. li_key m \<notin> ?K) b)"
      unfolding es by (rule insertAfter_items) (use assms(2) ab in simp)
    finally have eq: "keep_order sel es = map Item (filter (\<lambda>m. li_key m \<notin> ?K) a @ c #
        filter (\<lambda>m. li_key m \<in> ?K) (a @ b) @ filter (\<lambda>m. li_key m \<notin> ?K) b)" .
    have "mset (lis (keep_order sel es)) = mset (lis es)"
      unfolding eq lis_items ab using mset_filter_split [of "\<lambda>m. li_key m \<in> ?K" a]
        mset_filter_split [of "\<lambda>m. li_key m \<in> ?K" b] by simp
    moreover have "length es = Suc (length a + length b)" using arg_cong [OF es, of length] by simp
    then have "length (keep_order sel es) = length es"
      unfolding eq using sum_length_filter_compl [of "\<lambda>m. li_key m \<in> ?K" a]
        sum_length_filter_compl [of "\<lambda>m. li_key m \<in> ?K" b] by simp
    moreover have "\<forall>e\<in>set (keep_order sel es). \<not> is_container e" unfolding eq by auto
    ultimately show ?thesis by simp
  qed (use assms in \<open>auto simp: keep_order_def Let_def\<close>)
qed

section \<open>Agreement of the lists with the element\<close>

definition has_group :: "entry list \<Rightarrow> bool" where
  "has_group es \<longleftrightarrow> (\<exists>e\<in>set es. is_container e)"

lemma has_group_simps [simp]:
  "has_group (clear_hover es) = has_group es" "has_group (mark K a b es) = has_group es"
  "has_group (map (map_entry f) es) = has_group es" "has_group (map (map_label g) es) = has_group es"
proof -
  have "is_container (map_entry f e) = is_container e" "is_container (map_label g e) = is_container e" for f g e
    by (cases e; simp)+
  then show "has_group (clear_hover es) = has_group es" "has_group (mark K a b es) = has_group es"
    "has_group (map (map_entry f) es) = has_group es" "has_group (map (map_label g) es) = has_group es"
    by (simp_all add: has_group_def clear_hover_def mark_def)
qed

definition lists_agree :: "string set \<Rightarrow> ms \<Rightarrow> bool" where
  "lists_agree V s \<longleftrightarrow>
     mset (map li_view (lis (selectableUl s))) = mset (map opt_view (ms_opts (ms_nodes s))) \<and>
     mset (map li_view (lis (selectionUl s))) = mset (map opt_view (ms_opts (ms_nodes s))) \<and>
     (\<forall>l\<in>set (lis (selectableUl s)). li_shown l \<longleftrightarrow> \<not> li_selected l) \<and>
     (\<forall>l\<in>set (lis (selectionUl s)). li_shown l \<longleftrightarrow> li_selected l) \<and>
     distinct (map o_key (ms_opts (ms_nodes s))) \<and> distinct (map o_value (ms_opts (ms_nodes s))) \<and>
     o_value ` set (ms_opts (ms_nodes s)) \<subseteq> V \<and>
     length (selectableUl s) = length (ms_nodes s) \<and> length (selectionUl s) = length (ms_nodes s) \<and>
     has_group (selectionUl s) = has_group (selectableUl s)"

definition sides :: "ms \<Rightarrow> entry list \<Rightarrow> bool" where
  "sides s es \<longleftrightarrow> es = selectableUl s \<or> es = selectionUl s"

lemma view_maps:
  assumes "mset (map li_view ls) = mset (map opt_view xs)"
  shows "mset (map li_key ls) = mset (map o_key xs)" "mset (map li_value ls) = mset (map o_value xs)"
proof -
  have "map li_key ls = map fst (map li_view ls)" "map o_key xs = map fst (map opt_view xs)"
    "map li_value ls = map (fst \<circ> snd) (map li_view ls)" "map o_value xs = map (fst \<circ> snd) (map opt_view xs)"
    by (simp_all add: li_view_def opt_view_def)
  then show "mset (map li_key ls) = mset (map o_key xs)" "mset (map li_value ls) = mset (map o_value xs)"
    using assms by (metis mset_map)+
qed

lemma agree_side:
  assumes "lists_agree V s" "sides s es"
  shows "mset (map li_view (lis es)) = mset (map opt_view (ms_opts (ms_nodes s)))"
    "distinct (map li_key (lis es))" "distinct (map li_value (lis es))" "li_value ` set (lis es) \<subseteq> V"
    "length es = length (ms_nodes s)"
proof -
  show views: "mset (map li_view (lis es)) = mset (map opt_view (ms_opts (ms_nodes s)))"
    using assms by (auto simp: lists_agree_def sides_def)
  note m = view_maps [OF views]
  show "distinct (map li_key (lis es))" "distinct (map li_value (lis es))"
    using m [THEN mset_eq_imp_distinct_iff] assms(1) by (auto simp: lists_agree_def)
  show "li_value ` set (lis es) \<subseteq> V"
    using m(2) [THEN mset_eq_setD] assms(1) by (auto simp: lists_agree_def)
  show "length es = length (ms_nodes s)" using assms by (auto simp: lists_agree_def sides_def)
qed

lemma view_partner:
  assumes "lists_agree V s" "sides s es" "l \<in> set (lis es)"
  obtains x where "x \<in> set (ms_opts (ms_nodes s))" "opt_view x = li_view l"
proof -
  have "li_view ` set (lis es) = opt_view ` set (ms_opts (ms_nodes s))"
    using agree_side(1) [OF assms(1,2), THEN mset_eq_setD] by simp
  with assms(3) that show ?thesis by (metis (no_types, lifting) image_iff)
qed

text \<open>Without collisions the ids find exactly the items with the values.\<close>

lemma filter_at_most_one:
  "distinct (map f xs) \<Longrightarrow> length (filter (\<lambda>x. f x = v) xs) \<le> 1"
proof (induction xs)
  case (Cons x xs)
  then have "filter (\<lambda>y. f y = f x) xs = []" by (auto simp: filter_empty_conv rev_image_eqI)
  with Cons show ?case by auto
qed simp

lemma find_lis_exact:
  assumes "inj_on sanitize V" "set value \<subseteq> V" "distinct (map li_value ls)" "li_value ` set ls \<subseteq> V"
  shows "find_lis E (map sanitize value) ls = filter (\<lambda>l. li_value l \<in> set value) ls"
proof -
  have found: "filter (\<lambda>l. sanitize (li_value l) \<in> set (map sanitize value)) ls = filter (\<lambda>l. li_value l \<in> set value) ls"
  proof (rule filter_cong)
    fix l assume "l \<in> set ls"
    with assms(4) have "li_value l \<in> V" by blast
    with assms(1,2) show "sanitize (li_value l) \<in> set (map sanitize value) \<longleftrightarrow> li_value l \<in> set value"
      by (simp add: inj_on_image_mem_iff)
  qed simp
  have "take 1 (filter (\<lambda>l. li_value l \<in> set value) ls) = filter (\<lambda>l. li_value l \<in> set value) ls" if "length value = 1"
  proof -
    obtain v where "value = [v]" using \<open>length value = 1\<close> by (cases "value") auto
    then have "length (filter (\<lambda>l. li_value l \<in> set value) ls) \<le> 1"
      using filter_at_most_one [OF assms(3), of v] by simp
    then show ?thesis by simp
  qed
  with found show ?thesis by (simp add: find_lis_def Let_def)
qed

lemma key_found:
  assumes "distinct (map li_key ls)" "l \<in> set ls"
  shows "li_key l \<in> li_key ` set (filter P ls) \<longleftrightarrow> P l"
  using assms by (auto simp: distinct_map inj_on_def)

text \<open>An operation that changes the elements of all three lists alike keeps the agreement.\<close>

lemma agree_update:
  assumes agree: "lists_agree V s"
    and a: "mset (lis a) = mset (map f (lis (selectableUl s)))"
      "\<forall>l\<in>set (lis (selectableUl s)). li_view (f l) = G (li_view l) \<and> (li_shown (f l) \<longleftrightarrow> \<not> li_selected (f l))"
    and b: "mset (lis b) = mset (map g (lis (selectionUl s)))"
      "\<forall>l\<in>set (lis (selectionUl s)). li_view (g l) = G (li_view l) \<and> (li_shown (g l) \<longleftrightarrow> li_selected (g l))"
    and n: "ms_opts ns = map h (ms_opts (ms_nodes s))"
      "\<forall>x\<in>set (ms_opts (ms_nodes s)). opt_view (h x) = G (opt_view x) \<and> o_key (h x) = o_key x \<and> o_value (h x) = o_value x"
    and gr: "has_group a = has_group (selectableUl s)" "has_group b = has_group (selectionUl s)"
    and len: "length a = length (selectableUl s)" "length b = length (selectionUl s)" "length ns = length (ms_nodes s)"
    and s': "selectableUl s' = a" "selectionUl s' = b" "ms_nodes s' = ns"
  shows "lists_agree V s'"
proof -
  note side = agree_side [OF agree]
  have opts: "map opt_view (ms_opts ns) = map G (map opt_view (ms_opts (ms_nodes s)))" using n by simp
  have views: "mset (map li_view (lis es')) = mset (map opt_view (ms_opts ns))"
    if "mset (lis es') = mset (map k (lis es))" "\<forall>l\<in>set (lis es). li_view (k l) = G (li_view l)" "sides s es" for es es' k
  proof -
    have "mset (map li_view (lis es')) = image_mset li_view (mset (lis es'))" by simp
    also have "\<dots> = mset (map li_view (map k (lis es)))" unfolding that(1) by (simp add: multiset.map_comp)
    also have "map li_view (map k (lis es)) = map G (map li_view (lis es))" using that(2) by simp
    also have "mset \<dots> = image_mset G (mset (map li_view (lis es)))" by (simp only: mset_map)
    also have "\<dots> = image_mset G (mset (map opt_view (ms_opts (ms_nodes s))))" using side(1) [OF that(3)] by (simp only:)
    also have "\<dots> = mset (map opt_view (ms_opts ns))" unfolding opts by (simp only: mset_map)
    finally show ?thesis .
  qed
  have "map o_key (ms_opts ns) = map o_key (ms_opts (ms_nodes s))" "map o_value (ms_opts ns) = map o_value (ms_opts (ms_nodes s))"
    using n by simp_all
  moreover from this(2) have "o_value ` set (ms_opts ns) = o_value ` set (ms_opts (ms_nodes s))" by (metis set_map)
  moreover have "\<forall>l\<in>set (lis a). li_shown l \<longleftrightarrow> \<not> li_selected l" "\<forall>l\<in>set (lis b). li_shown l \<longleftrightarrow> li_selected l"
    using mset_eq_setD [OF a(1)] a(2) mset_eq_setD [OF b(1)] b(2) by auto
  ultimately show ?thesis using views [OF a(1)] a(2) views [OF b(1)] b(2) agree len gr
    unfolding lists_agree_def s' by (simp add: sides_def)
qed

definition touch :: "(li \<Rightarrow> bool) \<Rightarrow> bool \<Rightarrow> bool \<Rightarrow> li \<Rightarrow> li" where
  "touch P x y l =
     (let m = (if P l then l\<lparr>li_selected := x, li_shown := y\<rparr> else l) in if elems m then m\<lparr>li_hover := False\<rparr> else m)"

lemma touch_simps [simp]: "li_key (touch P x y l) = li_key l" "li_value (touch P x y l) = li_value l"
  "li_disabled (touch P x y l) = li_disabled l"
  "li_selected (touch P x y l) = (if P l then x else li_selected l)"
  "li_shown (touch P x y l) = (if P l then y else li_shown l)"
  by (simp_all add: touch_def Let_def)

lemma lis_touch:
  assumes "distinct (map li_key (lis es))"
  shows "lis (clear_hover (mark (li_key ` set (filter P (lis es))) x y es)) = map (touch P x y) (lis es)"
  unfolding lis_clear_hover lis_mark map_map
proof (rule map_cong)
  fix l assume "l \<in> set (lis es)"
  from key_found [OF assms this, of P]
  show "((\<lambda>l. if elems l then l\<lparr>li_hover := False\<rparr> else l) \<circ>
    (\<lambda>l. if li_key l \<in> li_key ` set (filter P (lis es)) then l\<lparr>li_selected := x, li_shown := y\<rparr> else l)) l = touch P x y l"
    by (simp add: touch_def Let_def)
qed simp

definition relabel :: "bool \<Rightarrow> (bool \<Rightarrow> li list \<Rightarrow> bool) \<Rightarrow> entry list \<Rightarrow> entry list" where
  "relabel c f es = (if c then map (map_label f) es else es)"

lemma relabel_simps [simp]: "lis (relabel c f es) = lis es" "has_group (relabel c f es) = has_group es"
  "length (relabel c f es) = length es"
  by (simp_all add: relabel_def)

text \<open>The list on the right after labels or order have been adjusted.\<close>

definition reorder :: "bool \<Rightarrow> li list \<Rightarrow> entry list \<Rightarrow> entry list" where
  "reorder c sel es = (if c then keep_order sel es else es)"

lemma reorder_mset:
  assumes "\<not> has_group es" "distinct (map li_key (lis es))"
  shows "mset (lis (reorder c sel es)) = mset (lis es)" "\<not> has_group (reorder c sel es)"
    "length (reorder c sel es) = length es"
  using keep_order_mset [of es sel] assms by (auto simp: reorder_def has_group_def)

text \<open>Nothing matches on one side if nothing matches on the other.\<close>

lemma no_match:
  assumes "lists_agree V s" "sides s es" "sides s fs" "l \<in> set (lis fs)"
    and "\<forall>m\<in>set (lis es). \<not> P (li_value m) (li_disabled m)"
  shows "\<not> P (li_value l) (li_disabled l)"
proof -
  have "li_view ` set (lis fs) = li_view ` set (lis es)"
    using agree_side(1) [OF assms(1,2), THEN mset_eq_setD] agree_side(1) [OF assms(1,3), THEN mset_eq_setD] by simp
  with assms(4) obtain m where "m \<in> set (lis es)" "li_view m = li_view l" by (metis (no_types, lifting) image_iff)
  with assms(5) show ?thesis by (auto simp: li_view_def)
qed

lemma select_lists_agree:
  assumes "inj_on sanitize V" "set value \<subseteq> V" "lists_agree V s"
    and h: "ms_opts ns = map h (ms_opts (ms_nodes s))" "length ns = length (ms_nodes s)"
    and G: "\<forall>x\<in>set (ms_opts (ms_nodes s)).
      opt_view (h x) = (\<lambda>(k, v, d, b). (k, v, d, b \<or> v \<in> set value \<and> (init \<or> \<not> d))) (opt_view x) \<and>
      o_key (h x) = o_key x \<and> o_value (h x) = o_value x"
  shows "lists_agree V ((ms_select E init value s)\<lparr>ms_nodes := ns\<rparr>)"
proof -
  let ?P = "\<lambda>l. li_value l \<in> set value \<and> (init \<or> \<not> li_disabled l)"
  let ?G = "\<lambda>(k, v, d, b). (k, v, d, b \<or> v \<in> set value \<and> (init \<or> \<not> d))"
  let ?found = "\<lambda>es. filter (\<lambda>l. init \<or> \<not> li_disabled l) (find_lis E (map sanitize value) (lis es))"
  define a where "a = clear_hover (mark (li_key ` set (?found (selectableUl s))) True False (selectableUl s))"
  define b where "b = clear_hover (mark (li_key ` set (?found (selectionUl s))) True True (selectionUl s))"
  define a' where "a' = relabel (has_group a) (\<lambda>v ls. if \<forall>l\<in>set ls. li_selected l then False else v) a"
  define b' where "b' = (if has_group a then relabel True (\<lambda>v ls. if \<exists>l\<in>set ls. li_selected l then True else v) b
    else reorder (keepOrder E \<and> \<not> init) (?found (selectionUl s)) b)"
  note side = agree_side [OF assms(3)]
  have found: "?found es = filter ?P (lis es)" if "sides s es" for es
    using find_lis_exact [OF assms(1,2) side(3,4) [OF that]] by (simp add: conj_commute)
  have a: "lis a' = map (touch ?P True False) (lis (selectableUl s))" "has_group a' = has_group (selectableUl s)"
    "length a' = length (selectableUl s)"
    using found [of "selectableUl s"] lis_touch [OF side(2), of "selectableUl s" ?P]
    by (simp_all add: sides_def a_def a'_def)
  have b: "lis b = map (touch ?P True True) (lis (selectionUl s))"
    using found [of "selectionUl s"] lis_touch [OF side(2), of "selectionUl s" ?P] by (simp add: sides_def b_def)
  have "distinct (map li_key (lis b))" unfolding b using side(2) [of "selectionUl s"] by (simp add: sides_def o_def)
  then have b': "mset (lis b') = mset (lis b)" "has_group b' = has_group (selectionUl s)" "length b' = length (selectionUl s)"
    using reorder_mset [of b] assms(3) by (auto simp: lists_agree_def b'_def a_def b_def)
  have view: "li_view (touch ?P True y l) = ?G (li_view l)" for y l by (auto simp: li_view_def)
  show ?thesis
  proof (cases "?found (selectableUl s) = []")
    case True
    then have s: "ms_select E init value s = s" by (simp add: ms_select_def Let_def)
    have none: "\<not> ?P l" if "l \<in> set (lis es)" "sides s es" for l es
      using no_match [OF assms(3) _ that(2,1), of "selectableUl s" "\<lambda>v d. v \<in> set value \<and> (init \<or> \<not> d)"] True found
      by (simp add: sides_def filter_empty_conv)
    show ?thesis
      by (rule agree_update [OF assms(3) _ _ _ _ h(1) G _ _ _ _ h(2), where f = id and g = id])
        (use none assms(3) in \<open>auto simp: s li_view_def sides_def lists_agree_def\<close>)
  next
    case False
    then have eq: "\<exists>ns e. ms_select E init value s = s\<lparr>ms_nodes := ns, selectableUl := a', selectionUl := b', ms_events := e\<rparr>"
      unfolding ms_select_def Let_def relabel_def reorder_def has_group_def a'_def b'_def a_def b_def
      by (simp only: if_False if_True) blast
    have fA: "\<forall>l\<in>set (lis (selectableUl s)). li_view (touch ?P True False l) = ?G (li_view l) \<and>
        (li_shown (touch ?P True False l) \<longleftrightarrow> \<not> li_selected (touch ?P True False l))"
      and fB: "\<forall>l\<in>set (lis (selectionUl s)). li_view (touch ?P True True l) = ?G (li_view l) \<and>
        (li_shown (touch ?P True True l) \<longleftrightarrow> li_selected (touch ?P True True l))"
      using assms(3) unfolding view by (auto simp: lists_agree_def)
    show ?thesis
      by (rule agree_update [OF assms(3) _ fA _ fB h(1) G a(2) b'(2) a(3) b'(3) h(2)]) (use eq in \<open>auto simp: a(1) b b'(1)\<close>)
  qed
qed

lemma select_agree:
  assumes "inj_on sanitize V" "set value \<subseteq> V" "lists_agree V s"
    and "init \<longrightarrow> (\<forall>x\<in>set (ms_opts (ms_nodes s)). o_value x \<in> set value \<longrightarrow> o_selected x)"
  shows "lists_agree V (ms_select E init value s)"
proof -
  let ?h = "\<lambda>x :: ms_option. if \<not> o_disabled x \<and> o_value x \<in> set value then x\<lparr>o_selected := True\<rparr> else x"
  let ?ns = "set_options (\<lambda>x. \<not> o_disabled x \<and> o_value x \<in> set value) True (ms_nodes s)"
  have "lists_agree V ((ms_select E init value s)\<lparr>ms_nodes := ?ns\<rparr>)"
    by (rule select_lists_agree [OF assms(1-3), where h = ?h]) (use assms(4) in \<open>auto simp: opts_set_options opt_view_def\<close>)
  moreover have "(ms_select E init value s)\<lparr>ms_nodes := ?ns\<rparr> = ms_select E init value s \<or> ms_select E init value s = s"
    by (simp add: ms_select_def Let_def)
  ultimately show ?thesis using assms(3) by auto
qed

lemma deselect_agree:
  assumes "inj_on sanitize V" "set value \<subseteq> V" "lists_agree V s"
    and "\<forall>x\<in>set (ms_opts (ms_nodes s)). o_value x \<in> set value \<longrightarrow> \<not> o_disabled x"
  shows "lists_agree V (ms_deselect E value s)"
proof -
  let ?P = "\<lambda>l. li_value l \<in> set value" and ?Q = "\<lambda>l. li_value l \<in> set value \<and> li_selected l \<and> \<not> li_disabled l"
  let ?A = "find_lis E (map sanitize value) (lis (selectableUl s))"
  let ?B = "filter (\<lambda>l. li_selected l \<and> \<not> li_disabled l) (find_lis E (map sanitize value) (lis (selectionUl s)))"
  define a where "a = clear_hover (mark (li_key ` set ?A) False True (selectableUl s))"
  define b where "b = clear_hover (mark (li_key ` set ?B) False False (selectionUl s))"
  define a' where "a' = relabel (has_group a) (\<lambda>v ls. if \<exists>l\<in>set ls. \<not> li_selected l then True else v) a"
  define b' where "b' = relabel (has_group a) (\<lambda>v ls. if \<forall>l\<in>set ls. \<not> li_selected l then False else v) b"
  define h where "h = (\<lambda>x :: ms_option. if o_value x \<in> set value then x\<lparr>o_selected := False\<rparr> else x)"
  define ns where "ns = set_options (\<lambda>x. o_value x \<in> set value) False (ms_nodes s)"
  note side = agree_side [OF assms(3)]
  have found: "find_lis E (map sanitize value) (lis es) = filter ?P (lis es)" if "sides s es" for es
    using find_lis_exact [OF assms(1,2) side(3,4) [OF that]] .
  have a: "lis a' = map (touch ?P False True) (lis (selectableUl s))" "has_group a' = has_group (selectableUl s)"
    "length a' = length (selectableUl s)"
    using found [of "selectableUl s"] lis_touch [OF side(2), of "selectableUl s" ?P]
    by (simp_all add: sides_def a_def a'_def)
  have b: "lis b' = map (touch ?Q False False) (lis (selectionUl s))" "has_group b' = has_group (selectionUl s)"
    "length b' = length (selectionUl s)"
    using found [of "selectionUl s"] lis_touch [OF side(2), of "selectionUl s" ?Q]
    by (simp_all add: sides_def b_def b'_def conj_ac)
  show ?thesis
  proof (cases "?B = []")
    case False
    then have eq: "ms_deselect E value s = s\<lparr>ms_nodes := ns, selectableUl := a', selectionUl := b',
        ms_events := ms_events s @ [Change, AfterDeselect (Some value)]\<rparr>"
      unfolding ms_deselect_def Let_def relabel_def has_group_def a'_def b'_def a_def b_def ns_def
      by (simp only: if_False if_True)
    have h: "ms_opts ns = map h (ms_opts (ms_nodes s))" "length ns = length (ms_nodes s)"
      by (simp_all add: ns_def h_def opts_set_options)
    let ?G = "\<lambda>(k, v, d, b). (k, v, d, b \<and> v \<notin> set value)"
    have G: "\<forall>x\<in>set (ms_opts (ms_nodes s)). opt_view (h x) = ?G (opt_view x) \<and> o_key (h x) = o_key x \<and> o_value (h x) = o_value x"
      by (auto simp: h_def opt_view_def)
    have en: "\<not> li_disabled l" if l: "l \<in> set (lis (selectionUl s))" "li_value l \<in> set value" for l
    proof -
      have "sides s (selectionUl s)" by (simp add: sides_def)
      from view_partner [OF assms(3) this l(1)] obtain x where "x \<in> set (ms_opts (ms_nodes s))" "opt_view x = li_view l" .
      with l(2) assms(4) show ?thesis by (auto simp: li_view_def opt_view_def)
    qed
    have fA: "\<forall>l\<in>set (lis (selectableUl s)). li_view (touch ?P False True l) = ?G (li_view l) \<and>
        (li_shown (touch ?P False True l) \<longleftrightarrow> \<not> li_selected (touch ?P False True l))"
      using assms(3) by (auto simp: lists_agree_def li_view_def)
    have fB: "\<forall>l\<in>set (lis (selectionUl s)). li_view (touch ?Q False False l) = ?G (li_view l) \<and>
        (li_shown (touch ?Q False False l) \<longleftrightarrow> li_selected (touch ?Q False False l))"
      using assms(3) en by (auto simp: lists_agree_def li_view_def)
    show ?thesis
      by (rule agree_update [OF assms(3) _ fA _ fB h(1) G a(2) b(2) a(3) b(3) h(2)]) (simp_all add: a(1) b(1) eq)
  qed (use assms(3) in \<open>simp add: ms_deselect_def Let_def\<close>)
qed

lemma lis_mark_found:
  assumes "distinct (map li_key (lis es))"
  shows "lis (mark (li_key ` set (filter P (lis es))) x y es) =
    map (\<lambda>l. if P l then l\<lparr>li_selected := x, li_shown := y\<rparr> else l) (lis es)"
  unfolding lis_mark using key_found [OF assms] by (intro map_cong) simp_all

text \<open>Marking all items that satisfy a test on value and disabledness, in both lists and the element.\<close>

lemma mark_agree:
  assumes agree: "lists_agree V s"
    and P: "\<And>l. P l = R (li_disabled l)"
    and s': "selectableUl s' = map (map_label f) (mark (li_key ` set (filter P (lis (selectableUl s)))) x (\<not> x) (selectableUl s))"
      "selectionUl s' = map (map_label g) (mark (li_key ` set (filter P (lis (selectionUl s)))) x x (selectionUl s))"
      "ms_nodes s' = set_options (\<lambda>p. R (o_disabled p)) x (ms_nodes s)"
  shows "lists_agree V s'"
proof -
  let ?m = "\<lambda>y l. if P l then l\<lparr>li_selected := x, li_shown := y\<rparr> else l"
  let ?h = "\<lambda>p :: ms_option. if R (o_disabled p) then p\<lparr>o_selected := x\<rparr> else p"
  let ?G = "\<lambda>(k, v, d, b). (k, v, d, if R d then x else b)"
  note side = agree_side [OF agree]
  have a: "lis (selectableUl s') = map (?m (\<not> x)) (lis (selectableUl s))" "lis (selectionUl s') = map (?m x) (lis (selectionUl s))"
    unfolding s' lis_map_label by (rule lis_mark_found, rule side(2), simp add: sides_def)+
  have h: "ms_opts (ms_nodes s') = map ?h (ms_opts (ms_nodes s))" by (simp add: s' opts_set_options)
  have G: "\<forall>p\<in>set (ms_opts (ms_nodes s)). opt_view (?h p) = ?G (opt_view p) \<and> o_key (?h p) = o_key p \<and> o_value (?h p) = o_value p"
    by (auto simp: opt_view_def)
  have fA: "\<forall>l\<in>set (lis (selectableUl s)). li_view (?m (\<not> x) l) = ?G (li_view l) \<and> (li_shown (?m (\<not> x) l) \<longleftrightarrow> \<not> li_selected (?m (\<not> x) l))"
    and fB: "\<forall>l\<in>set (lis (selectionUl s)). li_view (?m x l) = ?G (li_view l) \<and> (li_shown (?m x l) \<longleftrightarrow> li_selected (?m x l))"
    using agree by (auto simp: lists_agree_def li_view_def P)
  show ?thesis
    by (rule agree_update [OF agree _ fA _ fB h G]) (simp_all only: a, simp_all add: s')
qed

lemma select_all_agree:
  assumes "lists_agree V s" shows "lists_agree V (fst (select_all E s))"
  by (rule mark_agree [OF assms, where P = "\<lambda>l. \<not> li_disabled l" and R = Not and x = True
        and f = "\<lambda>v ls. False" and g = "\<lambda>v ls. True"])
    (simp_all add: select_all_def Let_def split: option.split)

lemma deselect_all_agree:
  assumes "lists_agree V s" shows "lists_agree V (deselect_all s)"
  by (rule mark_agree [OF assms, where P = "\<lambda>l. True" and R = "\<lambda>d. True" and x = False
        and f = "\<lambda>v ls. True" and g = "\<lambda>v ls. False"])
    (simp_all add: deselect_all_def Let_def)

text \<open>What only moves the highlight or the focus.\<close>

lemma hover_agree:
  assumes "lists_agree V s" "ms_nodes s' = ms_nodes s"
    and "selectableUl s' = map (map_entry f) (selectableUl s)" "selectionUl s' = map (map_entry g) (selectionUl s)"
    and "\<And>l. li_view (f l) = li_view l \<and> li_shown (f l) = li_shown l \<and> li_selected (f l) = li_selected l"
    and "\<And>l. li_view (g l) = li_view l \<and> li_shown (g l) = li_shown l \<and> li_selected (g l) = li_selected l"
  shows "lists_agree V s'"
  using assms(1)
  by (intro agree_update [OF assms(1), where G = id and f = f and g = g and h = id])
    (simp_all add: assms(2-6) lists_agree_def)

lemma clear_all_agree: "lists_agree V s \<Longrightarrow> lists_agree V (clear_all_hover s)"
  unfolding clear_all_hover_def clear_hover_def
  by (erule hover_agree [where f = "\<lambda>l. if elems l then l\<lparr>li_hover := False\<rparr> else l"
        and g = "\<lambda>l. if elems l then l\<lparr>li_hover := False\<rparr> else l"]) (simp_all add: li_view_def)

lemma set_side_agree:
  assumes "lists_agree V s"
    and "\<And>l. li_view (f l) = li_view l \<and> li_shown (f l) = li_shown l \<and> li_selected (f l) = li_selected l"
  shows "lists_agree V (set_side d (map (map_entry f) (side_ul d s)) s)"
proof -
  have id: "map (map_entry (\<lambda>l. l)) es = es" for es
    using map_idI [of es "map_entry (\<lambda>l. l)"] by (metis entry.exhaust list.map_ident map_entry.simps)
  show ?thesis
    by (cases d) (rule hover_agree [OF assms(1), where f = f and g = "\<lambda>l. l"] hover_agree [OF assms(1), where f = "\<lambda>l. l" and g = f];
        simp add: set_side_def side_ul_def assms(2) id)+
qed

lemma side_set [simp]: "side_ul d (set_side d es s) = es" "set_side d es (set_side d fs s) = set_side d es s"
  by (cases d; simp add: side_ul_def set_side_def)+

lemma highlight_agree: "lists_agree V s \<Longrightarrow> lists_agree V (set_side d (highlight k (side_ul d s)) s)"
  unfolding highlight_def by (rule set_side_agree) (simp_all add: li_view_def)

lemma clear_side_agree: "lists_agree V s \<Longrightarrow> lists_agree V (set_side d (clear_hover (side_ul d s)) s)"
  unfolding clear_hover_def by (rule set_side_agree) (simp_all add: li_view_def)

lemma move_agree: "lists_agree V s \<Longrightarrow> lists_agree V (moveHighlight E d direction s)"
  using highlight_agree [OF clear_side_agree [of V s d], of d]
  by (simp add: moveHighlight_def Let_def clear_side_agree split: option.split)

lemma same_value:
  assumes "lists_agree V s" "x \<in> set (ms_opts (ms_nodes s))" "y \<in> set (ms_opts (ms_nodes s))" "o_value x = o_value y"
  shows "x = y"
  using assms by (auto simp: lists_agree_def distinct_map dest: inj_onD)

lemma deselect_one_agree:
  assumes "inj_on sanitize V" "v \<in> V" "lists_agree V s" shows "lists_agree V (ms_deselect E [v] s)"
proof (cases "\<exists>x\<in>set (ms_opts (ms_nodes s)). o_value x = v \<and> o_disabled x")
  case True
  then obtain x where x: "x \<in> set (ms_opts (ms_nodes s))" "o_value x = v" "o_disabled x" by blast
  have sd: "sides s (selectionUl s)" by (simp add: sides_def)
  have "li_disabled l" if l: "l \<in> set (lis (selectionUl s))" "li_value l = v" for l
  proof -
    obtain y where y: "y \<in> set (ms_opts (ms_nodes s))" "opt_view y = li_view l" using view_partner [OF assms(3) sd l(1)] .
    then have "y = x" using l(2) x by (intro same_value [OF assms(3)]) (auto simp: li_view_def opt_view_def)
    with y x show ?thesis by (simp add: li_view_def opt_view_def)
  qed
  then have "filter (\<lambda>l. li_selected l \<and> \<not> li_disabled l) (find_lis E (map sanitize [v]) (lis (selectionUl s))) = []"
    using find_lis_exact [OF assms(1) _ agree_side(3,4) [OF assms(3) sd], of "[v]" E] assms(2)
    by (auto simp: filter_empty_conv)
  then show ?thesis using assms(3) by (simp add: ms_deselect_def Let_def)
next
  case False
  with assms show ?thesis by (intro deselect_agree) auto
qed

lemma click_value_agree:
  "inj_on sanitize V \<Longrightarrow> v \<in> V \<Longrightarrow> lists_agree V s \<Longrightarrow> lists_agree V (ms_click_value E d v s)"
  by (cases d) (simp_all add: ms_click_value_def select_agree deselect_one_agree)

lemma side_value:
  assumes "lists_agree V s" "l \<in> set (lis (side_ul d s))" shows "li_value l \<in> V"
proof -
  have "sides s (side_ul d s)" by (cases d) (simp_all add: sides_def side_ul_def)
  from agree_side(4) [OF assms(1) this] assms(2) show ?thesis by blast
qed

lemma click_agree:
  assumes "inj_on sanitize V" "lists_agree V s" shows "lists_agree V (ms_click E d double k s)"
proof (cases "filter (\<lambda>l. li_key l = k \<and> li_shown l) (lis (side_ul d s))")
  case (Cons l ls)
  from arg_cong [OF Cons, of set] have "l \<in> set (lis (side_ul d s))" by auto
  from side_value [OF assms(2) this] Cons assms show ?thesis by (simp add: ms_click_def click_value_agree)
qed (simp add: ms_click_def assms)

lemma select_highlighted_agree:
  assumes "inj_on sanitize V" "lists_agree V s" shows "lists_agree V (selectHighlighted E d s)"
proof (cases "filter cur (lis (side_ul d s))")
  case (Cons l ls)
  from arg_cong [OF Cons, of set] have "l \<in> set (lis (side_ul d s))" by auto
  from click_value_agree [OF assms(1) side_value [OF assms(2) this] assms(2)]
  have "lists_agree V (ms_click_value E d (li_value l) s)" .
  with Cons show ?thesis unfolding selectHighlighted_def unhover_def Let_def
    by (simp add: set_side_agree li_view_def)
qed (simp add: selectHighlighted_def assms)

lemma focus_agree: "lists_agree V s \<Longrightarrow> lists_agree V (s\<lparr>ms_focus := f\<rparr>)"
  by (simp add: lists_agree_def)

lemma key_agree:
  assumes "inj_on sanitize V" "lists_agree V s" shows "lists_agree V (ms_keydown E d which shift s)"
  using assms by (simp add: ms_keydown_def Let_def switchList_def move_agree clear_all_agree focus_agree
      select_highlighted_agree split: option.split)

lemma mouse_agree:
  assumes "lists_agree V s"
  shows "lists_agree V (ms_mouseenter d k s)" "lists_agree V (ms_mouseleave d k s)"
  using assms by (simp_all add: ms_mouseenter_def ms_mouseleave_def Let_def clear_all_agree highlight_agree)

lemma find_group_opts: "find_group g ns = Some xs \<Longrightarrow> set xs \<subseteq> set (ms_opts ns)"
  by (induction g ns rule: find_group.induct) (auto simp: ms_opts_def split: if_splits)

lemma label_agree:
  assumes "inj_on sanitize V" "lists_agree V s" shows "lists_agree V (ms_label_click E d g s)"
proof (cases "find_group g (ms_nodes s)")
  case (Some xs)
  note xs = find_group_opts [OF Some]
  have V: "o_value ` set (ms_opts (ms_nodes s)) \<subseteq> V" using assms(2) by (simp add: lists_agree_def)
  have "lists_agree V (ms_select E False (map o_value (filter (\<lambda>x. \<not> o_selected x \<and> \<not> o_disabled x) xs)) s)"
    using xs V by (intro select_agree assms) auto
  moreover have "lists_agree V (ms_deselect E (map o_value (filter (\<lambda>x. o_selected x \<and> \<not> o_disabled x) xs)) s)"
  proof (rule deselect_agree [OF assms(1) _ assms(2)])
    show "\<forall>x\<in>set (ms_opts (ms_nodes s)). o_value x \<in> set (map o_value (filter (\<lambda>x. o_selected x \<and> \<not> o_disabled x) xs)) \<longrightarrow> \<not> o_disabled x"
    proof (intro ballI impI)
      fix x assume x: "x \<in> set (ms_opts (ms_nodes s))"
        "o_value x \<in> set (map o_value (filter (\<lambda>x. o_selected x \<and> \<not> o_disabled x) xs))"
      then obtain y where "y \<in> set xs" "\<not> o_disabled y" "o_value x = o_value y" by auto
      with x(1) xs same_value [OF assms(2), of x y] show "\<not> o_disabled x" by blast
    qed
  qed (use xs V in auto)
  ultimately show ?thesis using Some assms(2) by (cases d) (simp_all add: ms_label_click_def)
qed (simp add: ms_label_click_def assms)

text \<open>Adding an option outside groups.\<close>

lemma insertAt_eq: "insertAt i x xs = (if i \<le> length xs then take i xs @ x # drop i xs else xs)"
  by (auto simp: insertAt_def)

lemma lis_append: "lis (es @ fs) = lis es @ lis fs" and opts_append: "ms_opts (ns @ ms) = ms_opts ns @ ms_opts ms"
  by (simp_all add: lis_def ms_opts_def)

lemma lis_Item: "lis (Item l # es) = l # lis es" and opts_Opt: "ms_opts (Opt x # ns) = x # ms_opts ns"
  by (simp_all add: lis_def ms_opts_def)

lemma mset_lis_insertAt: "mset (lis (insertAt i (Item l) es)) = (if i \<le> length es then add_mset l (mset (lis es)) else mset (lis es))"
proof (cases "i \<le> length es")
  case True
  have "mset (lis (take i es)) + mset (lis (drop i es)) = mset (lis es)" using lis_append [of "take i es" "drop i es"] by simp
  with True show ?thesis by (simp add: insertAt_eq lis_append lis_Item)
qed (simp add: insertAt_eq)

lemma mset_opts_insertAt: "mset (ms_opts (insertAt i (Opt x) ns)) = (if i \<le> length ns then add_mset x (mset (ms_opts ns)) else mset (ms_opts ns))"
proof (cases "i \<le> length ns")
  case True
  have "mset (ms_opts (take i ns)) + mset (ms_opts (drop i ns)) = mset (ms_opts ns)" using opts_append [of "take i ns" "drop i ns"] by simp
  with True show ?thesis by (simp add: insertAt_eq opts_append opts_Opt)
qed (simp add: insertAt_eq)

lemma group_insertAt: "has_group (insertAt i (Item l) es) = has_group es"
proof (cases "i \<le> length es")
  case True
  have "set es = set (take i es) \<union> set (drop i es)" by (metis append_take_drop_id set_append)
  with True show ?thesis by (auto simp: insertAt_eq has_group_def)
qed (simp add: insertAt_eq)

lemma length_insertAt: "length (insertAt i x xs) = (if i \<le> length xs then Suc (length xs) else length xs)"
  by (simp add: insertAt_eq)

lemma fresh_above: "n \<in> set ns \<Longrightarrow> n \<le> foldr max ns (0 :: nat)"
  by (induction ns) (auto simp: max.coboundedI2)

lemma fresh_key_new: "x \<in> set (ms_opts (ms_nodes s)) \<Longrightarrow> o_key x \<noteq> fresh_key s"
  using fresh_above [of "o_key x" "map o_key (ms_opts (ms_nodes s)) @ map li_key (lis (selectableUl s)) @ map li_key (lis (selectionUl s))"]
  by (auto simp: fresh_key_def)

lemma add_agree:
  assumes "lists_agree V s" "n_nested n = None" "n_value n \<in> V" "\<not> ms_disabled E"
  shows "lists_agree V (add_option E n s)"
proof (cases "n_value n \<noteq> [] \<and> (\<forall>x\<in>set (ms_opts (ms_nodes s)). o_value x \<noteq> n_value n)")
  case True
  define x where "x = \<lparr>o_key = fresh_key s, o_value = n_value n, o_selected = False, o_disabled = False\<rparr>"
  define i where "i = (case n_index n of None \<Rightarrow> length (ms_nodes s) | Some i \<Rightarrow> i)"
  have eq: "add_option E n s = s\<lparr>ms_nodes := insertAt i (Opt x) (ms_nodes s),
      selectableUl := insertAt i (Item (new_li E x True)) (selectableUl s),
      selectionUl := insertAt i (Item (new_li E x False)) (selectionUl s)\<rparr>"
    using True assms(2) by (simp add: add_option_def generateLisFromOption_def Let_def x_def i_def)
  have view: "li_view (new_li E x b) = opt_view x" "li_shown (new_li E x b) = b" "\<not> li_selected (new_li E x b)" for b
    using assms(4) by (simp_all add: new_li_def li_view_def opt_view_def x_def)
  have len: "length (selectableUl s) = length (ms_nodes s)" "length (selectionUl s) = length (ms_nodes s)"
    using assms(1) by (simp_all add: lists_agree_def)
  let ?v = "add_option E n s"
  have nodes: "mset (ms_opts (ms_nodes ?v)) = (if i \<le> length (ms_nodes s) then {#x#} else {#}) + mset (ms_opts (ms_nodes s))"
    by (simp add: eq mset_opts_insertAt)
  have lists: "mset (lis (selectableUl ?v)) = (if i \<le> length (ms_nodes s) then {#new_li E x True#} else {#}) + mset (lis (selectableUl s))"
    "mset (lis (selectionUl ?v)) = (if i \<le> length (ms_nodes s) then {#new_li E x False#} else {#}) + mset (lis (selectionUl s))"
    by (simp_all add: eq mset_lis_insertAt len)
  have distinct: "distinct (map f (ms_opts (ms_nodes ?v)))"
    if "distinct (map f (ms_opts (ms_nodes s)))" "\<forall>y\<in>set (ms_opts (ms_nodes s)). f y \<noteq> f x" for f :: "ms_option \<Rightarrow> 'b"
  proof -
    have "mset (map f (ms_opts (ms_nodes ?v))) = mset (map f ((if i \<le> length (ms_nodes s) then [x] else []) @ ms_opts (ms_nodes s)))"
      using nodes by simp
    from mset_eq_imp_distinct_iff [OF this] that show ?thesis by auto
  qed
  have sets: "set (ms_opts (ms_nodes ?v)) \<subseteq> insert x (set (ms_opts (ms_nodes s)))"
    "set (lis (selectableUl ?v)) \<subseteq> insert (new_li E x True) (set (lis (selectableUl s)))"
    "set (lis (selectionUl ?v)) \<subseteq> insert (new_li E x False) (set (lis (selectionUl s)))"
    using arg_cong [OF nodes, of set_mset] arg_cong [OF lists(1), of set_mset] arg_cong [OF lists(2), of set_mset] by auto
  have "distinct (map o_key (ms_opts (ms_nodes ?v)))" "distinct (map o_value (ms_opts (ms_nodes ?v)))"
    using assms(1) True fresh_key_new [of _ s] by (auto intro!: distinct simp: lists_agree_def x_def)
  moreover have "o_value ` set (ms_opts (ms_nodes ?v)) \<subseteq> V" 
  proof -
    have A: "o_value ` set (ms_opts (ms_nodes ?v)) \<subseteq> insert (n_value n) (o_value ` set (ms_opts (ms_nodes s)))"
      using image_mono [OF sets(1), of o_value] by (simp add: x_def)
    have "o_value ` set (ms_opts (ms_nodes s)) \<subseteq> V" using assms(1) by (simp add: lists_agree_def)
    with assms(3) show ?thesis by (intro order_trans [OF A]) simp
  qed
  moreover have "\<forall>l\<in>set (lis (selectableUl ?v)). li_shown l \<longleftrightarrow> \<not> li_selected l" "\<forall>l\<in>set (lis (selectionUl ?v)). li_shown l \<longleftrightarrow> li_selected l"
    using sets(2,3) assms(1) view by (auto simp: lists_agree_def)
  moreover have "mset (map li_view (lis (selectableUl ?v))) = mset (map opt_view (ms_opts (ms_nodes ?v)))"
    "mset (map li_view (lis (selectionUl ?v))) = mset (map opt_view (ms_opts (ms_nodes ?v)))"
    using nodes lists assms(1) view by (simp_all add: lists_agree_def)
  moreover have "length (selectableUl ?v) = length (ms_nodes ?v)" "length (selectionUl ?v) = length (ms_nodes ?v)"
    "has_group (selectionUl ?v) = has_group (selectableUl ?v)"
    using assms(1) by (simp_all add: eq length_insertAt group_insertAt lists_agree_def)
  ultimately show ?thesis by (simp add: lists_agree_def)
qed (use assms(1) in \<open>auto simp: add_option_def\<close>)

lemma addOption_agree:
  assumes "\<forall>n\<in>set ns. n_nested n = None \<and> n_value n \<in> V" "\<not> ms_disabled E"
  shows "lists_agree V s \<Longrightarrow> lists_agree V (addOption E ns s)"
  unfolding addOption_def using assms by (induction ns arbitrary: s) (auto simp: add_agree)

section \<open>The lists after building\<close>

fun shape :: "ms_env \<Rightarrow> bool \<Rightarrow> sel_node \<Rightarrow> entry" where
  "shape E b (Opt x) = Item (new_li E x b)"
| "shape E b (Optgroup g xs) = Container (sanitize g) g True (map (\<lambda>x. new_li E x b) xs)"

fun node_label :: "sel_node \<Rightarrow> string list" where
  "node_label (Opt x) = []"
| "node_label (Optgroup g xs) = [g]"

definition labels :: "sel_node list \<Rightarrow> string list" where
  "labels ns = concat (map node_label ns)"

text \<open>No group is empty, and the labels of the groups have different hashes.\<close>

definition groups_ok :: "sel_node list \<Rightarrow> bool" where
  "groups_ok ns \<longleftrightarrow> distinct (map sanitize (labels ns)) \<and> (\<forall>n\<in>set ns. node_opts n \<noteq> [])"

definition group_ids :: "entry list \<Rightarrow> 32 word set" where
  "group_ids es = {h. \<exists>g v ls. Container h g v ls \<in> set es}"

lemma group_index_absent: "h \<notin> group_ids es \<Longrightarrow> group_index h (es @ fs) = group_index h fs"
  by (induction h es rule: group_index.induct) (auto simp: group_ids_def)

lemma insert_li_absent: "h \<notin> group_ids es \<Longrightarrow> map (insert_li h i l) es = es"
proof (induction es)
  case (Cons e es)
  then show ?case by (cases e) (auto simp: group_ids_def)
qed simp

lemma insertAt_end [simp]: "insertAt (length xs) x xs = xs @ [x]"
  by (simp add: insertAt_eq)

lemma group_lis:
  assumes "h \<notin> group_ids pre" "h \<notin> group_ids pre'" "h = sanitize g"
  shows "selectableUl s = pre @ [Container h g True (map (\<lambda>x. new_li E x True) ys)] \<Longrightarrow>
    selectionUl s = pre' @ [Container h g True (map (\<lambda>x. new_li E x False) ys)] \<Longrightarrow>
    fold (\<lambda>x. generateLisFromOption E x (Some g) None) xs s =
      s\<lparr>selectableUl := pre @ [Container h g True (map (\<lambda>x. new_li E x True) (ys @ xs))],
        selectionUl := pre' @ [Container h g True (map (\<lambda>x. new_li E x False) (ys @ xs))]\<rparr>"
proof (induction xs arbitrary: s ys)
  case (Cons x xs)
  have "generateLisFromOption E x (Some g) None s =
    s\<lparr>selectableUl := pre @ [Container h g True (map (\<lambda>x. new_li E x True) (ys @ [x]))],
      selectionUl := pre' @ [Container h g True (map (\<lambda>x. new_li E x False) (ys @ [x]))]\<rparr>"
    using assms Cons.prems insertAt_end [of "map (\<lambda>x. new_li E x True) ys"] insertAt_end [of "map (\<lambda>x. new_li E x False) ys"]
    by (simp add: generateLisFromOption_def Let_def group_index_absent insert_li_absent)
  then show ?case using Cons.IH [of _ "ys @ [x]"] by simp
qed simp

lemma first_group_li:
  assumes "sanitize g \<notin> group_ids (selectableUl s)" "sanitize g \<notin> group_ids (selectionUl s)"
  shows "generateLisFromOption E x (Some g) None s =
    s\<lparr>selectableUl := selectableUl s @ [Container (sanitize g) g True [new_li E x True]],
      selectionUl := selectionUl s @ [Container (sanitize g) g True [new_li E x False]]\<rparr>"
  using assms group_index_absent [OF assms(1), of "[]"] group_index_absent [OF assms(1)]
  by (simp add: generateLisFromOption_def Let_def insert_li_absent insertAt_def)

lemma shape_ids: "group_ids (map (shape E b) ns) = sanitize ` set (labels ns)"
proof -
  have "(\<exists>g v ls. Container h g v ls = shape E b n) \<longleftrightarrow> h \<in> sanitize ` set (node_label n)" for h n
    by (cases n) auto
  then show ?thesis by (fastforce simp: group_ids_def labels_def image_iff)
qed

lemma build_shape:
  "groups_ok (ms @ ns) \<Longrightarrow> selectableUl s = map (shape E True) ms \<Longrightarrow> selectionUl s = map (shape E False) ms \<Longrightarrow>
   fold (node_lis E) ns s = s\<lparr>selectableUl := map (shape E True) (ms @ ns), selectionUl := map (shape E False) (ms @ ns)\<rparr>"
proof (induction ns arbitrary: ms s)
  case (Cons n ns)
  have "node_lis E n s = s\<lparr>selectableUl := map (shape E True) (ms @ [n]), selectionUl := map (shape E False) (ms @ [n])\<rparr>"
  proof (cases n)
    case (Opt x)
    then show ?thesis using Cons.prems(2,3) insertAt_end [of "map (shape E True) ms"] insertAt_end [of "map (shape E False) ms"]
      by (simp add: generateLisFromOption_def Let_def)
  next
    case (Optgroup g xs)
    with Cons.prems(1) obtain x ys where xs: "xs = x # ys" by (cases xs) (auto simp: groups_ok_def)
    have "sanitize g \<notin> sanitize ` set (labels ms)" using Cons.prems(1) Optgroup by (auto simp: groups_ok_def labels_def)
    then have new: "sanitize g \<notin> group_ids (map (shape E b) ms)" for b by (simp add: shape_ids)
    show ?thesis using first_group_li [of g s E x] new Cons.prems(2,3)
        group_lis [OF new [of True] new [of False] refl, of _ E "[x]" ys] by (simp add: Optgroup xs)
  qed
  then show ?case using Cons.IH [of "ms @ [n]"] Cons.prems(1) by simp
qed simp

lemma shape_lis: "lis (map (shape E b) ns) = map (\<lambda>x. new_li E x b) (ms_opts ns)"
proof -
  have "entry_lis (shape E b n) = map (\<lambda>x. new_li E x b) (node_opts n)" for n by (cases n) simp_all
  then show ?thesis by (simp add: lis_def ms_opts_def map_concat o_def)
qed

lemma agree_cong:
  "selectableUl s' = selectableUl s \<Longrightarrow> selectionUl s' = selectionUl s \<Longrightarrow> ms_nodes s' = ms_nodes s \<Longrightarrow>
   lists_agree V s' = lists_agree V s"
  by (simp add: lists_agree_def)

lemma select_lists_nodes:
  "selectableUl (ms_select E init value (s\<lparr>ms_nodes := ns\<rparr>)) = selectableUl (ms_select E init value s)"
  "selectionUl (ms_select E init value (s\<lparr>ms_nodes := ns\<rparr>)) = selectionUl (ms_select E init value s)"
  by (simp_all add: ms_select_def Let_def)

lemma shape_groups: "has_group (map (shape E b) ns) \<longleftrightarrow> labels ns \<noteq> []"
proof -
  have "is_container (shape E b n) \<longleftrightarrow> node_label n \<noteq> []" for n by (cases n) simp_all
  then show ?thesis by (auto simp: has_group_def labels_def)
qed

lemma map_node_simps: "ms_opts (map (map_node f) ns) = map f (ms_opts ns)" "length (map (map_node f) ns) = length ns"
  by simp_all

lemma selected_values:
  assumes "distinct (map o_value xs)" "x \<in> set xs"
  shows "o_value x \<in> set (map o_value (filter o_selected xs)) \<longleftrightarrow> o_selected x"
  using assms by (auto simp: distinct_map dest: inj_onD)

text \<open>The widget before the selected options are taken over.\<close>

definition blank :: "ms_env \<Rightarrow> sel_node list \<Rightarrow> ms" where
  "blank E nodes = \<lparr>ms_nodes = nodes, selectableUl = map (shape E True) nodes,
     selectionUl = map (map_label (\<lambda>v ls. False)) (map (shape E False) nodes), ms_focus = None, ms_events = []\<rparr>"

definition selected_of :: "sel_node list \<Rightarrow> string list" where
  "selected_of nodes = map o_value (filter o_selected (ms_opts nodes))"

definition unselected :: "ms_option \<Rightarrow> ms_option" where
  "unselected x = x\<lparr>o_selected := False\<rparr>"

lemma init_blank: "groups_ok nodes \<Longrightarrow> ms_init E nodes = ms_select E True (selected_of nodes) (blank E nodes)"
  using build_shape [of "[]" nodes "\<lparr>ms_nodes = nodes, selectableUl = [], selectionUl = [], ms_focus = None, ms_events = []\<rparr>" E]
  by (simp add: ms_init_def ms_reinit_def ms_selected_values_def selected_of_def blank_def Let_def)

lemma blank_lis: "lis (selectableUl (blank E nodes)) = map (\<lambda>x. new_li E x True) (ms_opts nodes)"
  "lis (selectionUl (blank E nodes)) = map (\<lambda>x. new_li E x False) (ms_opts nodes)"
  by (simp_all only: blank_def ms.simps lis_map_label shape_lis)

lemma blank_groups: "has_group (selectableUl (blank E nodes)) \<longleftrightarrow> labels nodes \<noteq> []"
  "has_group (selectionUl (blank E nodes)) \<longleftrightarrow> labels nodes \<noteq> []"
  by (simp_all only: blank_def ms.simps has_group_simps shape_groups)

lemma blank_agree:
  assumes "distinct (map o_key (ms_opts nodes))" "distinct (map o_value (ms_opts nodes))"
    and "o_value ` set (ms_opts nodes) \<subseteq> V" "\<not> ms_disabled E"
  shows "lists_agree V ((blank E nodes)\<lparr>ms_nodes := map (map_node unselected) nodes\<rparr>)"
proof -
  have view: "map li_view (map (\<lambda>x. new_li E x b) xs) = map opt_view (map unselected xs)" for b xs
    using assms(4) by (simp add: li_view_def opt_view_def new_li_def unselected_def)
  have "length (selectableUl (blank E nodes)) = length nodes" "length (selectionUl (blank E nodes)) = length nodes"
    by (simp_all add: blank_def)
  then show ?thesis unfolding lists_agree_def using assms(1-3)
    by (auto simp: blank_lis view blank_groups simp del: map_map) (auto simp: new_li_def unselected_def o_def)
qed

lemma init_agree:
  assumes "inj_on sanitize V" "groups_ok nodes" "distinct (map o_key (ms_opts nodes))" "distinct (map o_value (ms_opts nodes))"
    and "o_value ` set (ms_opts nodes) \<subseteq> V" "\<not> ms_disabled E"
  shows "lists_agree V (ms_init E nodes)"
proof -
  let ?xs = "ms_opts nodes" and ?vs = "selected_of nodes"
  let ?h = "\<lambda>x :: ms_option. x\<lparr>o_selected := o_value x \<in> set ?vs\<rparr>"
  let ?s = "ms_select E True ?vs (blank E nodes)"
  define t where "t = (blank E nodes)\<lparr>ms_nodes := map (map_node unselected) nodes\<rparr>"
  have t: "lists_agree V t" unfolding t_def by (rule blank_agree [OF assms(3-6)])
  have "ms_opts (ms_nodes ?s) = map ?h ?xs"
  proof -
    have "ms_nodes ?s = nodes \<or> ms_nodes ?s = set_options (\<lambda>x. \<not> o_disabled x \<and> o_value x \<in> set ?vs) True nodes"
      by (simp add: ms_select_def Let_def blank_def)
    moreover have h: "?h x = x" "(if \<not> o_disabled x \<and> o_value x \<in> set ?vs then x\<lparr>o_selected := True\<rparr> else x) = ?h x"
      if "x \<in> set ?xs" for x using selected_values [OF assms(4) that] unfolding selected_of_def by auto
    have "map ?h ?xs = ?xs" by (rule map_idI) (rule h(1))
    moreover have "map (\<lambda>x. if \<not> o_disabled x \<and> o_value x \<in> set ?vs then x\<lparr>o_selected := True\<rparr> else x) ?xs = map ?h ?xs"
      by (rule map_cong [OF refl]) (rule h(2))
    ultimately show ?thesis by (auto simp: opts_set_options)
  qed
  moreover have "length (ms_nodes ?s) = length nodes" by (simp add: ms_select_def Let_def blank_def)
  ultimately have "lists_agree V ((ms_select E True ?vs t)\<lparr>ms_nodes := ms_nodes ?s\<rparr>)"
    using assms(5) by (intro select_lists_agree [OF assms(1) _ t, where h = ?h])
      (auto simp: t_def opt_view_def selected_of_def unselected_def)
  then show ?thesis unfolding init_blank [OF assms(2)] by (subst agree_cong) (simp_all add: t_def select_lists_nodes)
qed

lemma groups_map_node: "groups_ok (map (map_node f) ns) = groups_ok ns"
proof -
  have "node_label (map_node f n) = node_label n" "node_opts (map_node f n) = [] \<longleftrightarrow> node_opts n = []" for n
    by (cases n; simp)+
  then show ?thesis by (simp add: groups_ok_def labels_def o_def)
qed

lemma groups_insertAt: "groups_ok (insertAt i (Opt x) ns) = groups_ok ns"
proof (cases "i \<le> length ns")
  case True
  have "labels (take i ns @ drop i ns) = labels (take i ns @ Opt x # drop i ns)" by (simp add: labels_def del: append_take_drop_id)
  moreover have "set ns = set (take i ns) \<union> set (drop i ns)" by (metis append_take_drop_id set_append)
  ultimately show ?thesis using True by (auto simp: groups_ok_def insertAt_eq)
qed (simp add: insertAt_eq)

lemma set_options_groups: "groups_ok (set_options P b ns) = groups_ok ns"
  by (simp add: set_options_def groups_map_node)

lemma set_side_nodes [simp]: "ms_nodes (set_side d es s) = ms_nodes s"
  by (cases d) (simp_all add: set_side_def)

lemma add_groups: "n_nested n = None \<Longrightarrow> groups_ok (ms_nodes (add_option E n s)) = groups_ok (ms_nodes s)"
  by (simp add: add_option_def generateLisFromOption_def Let_def groups_insertAt)

lemma addOption_groups:
  "\<forall>n\<in>set ns. n_nested n = None \<Longrightarrow> groups_ok (ms_nodes (addOption E ns s)) = groups_ok (ms_nodes s)"
  unfolding addOption_def by (induction ns arbitrary: s) (auto simp: add_groups)

section \<open>The invariant\<close>

text \<open>
  Calls stay within values whose hashes differ, deselect no disabled option, and add options
  outside groups. Disabled options are the ones the page came with.
\<close>

fun action_ok :: "string set \<Rightarrow> string set \<Rightarrow> ms_action \<Rightarrow> bool" where
  "action_ok V D (Select vs) \<longleftrightarrow> set vs \<subseteq> V"
| "action_ok V D (Deselect vs) \<longleftrightarrow> set vs \<subseteq> V - D"
| "action_ok V D (AddOption ns) \<longleftrightarrow> (\<forall>n\<in>set ns. n_nested n = None \<and> n_value n \<in> V - D)"
| "action_ok V D a \<longleftrightarrow> True"

definition off_values :: "ms \<Rightarrow> string set" where
  "off_values s = o_value ` {x \<in> set (ms_opts (ms_nodes s)). o_disabled x}"

definition ms_inv :: "string set \<Rightarrow> string set \<Rightarrow> ms \<Rightarrow> bool" where
  "ms_inv V D s \<longleftrightarrow> lists_agree V s \<and> groups_ok (ms_nodes s) \<and> off_values s \<subseteq> D"

lemma off_set_options: "o_value ` {x \<in> set (ms_opts (set_options P b ns)). o_disabled x} = o_value ` {x \<in> set (ms_opts ns). o_disabled x}"
proof -
  let ?f = "\<lambda>x :: ms_option. if P x then x\<lparr>o_selected := b\<rparr> else x"
  have "{x \<in> set (ms_opts (set_options P b ns)). o_disabled x} = ?f ` {x \<in> set (ms_opts ns). o_disabled x}"
    by (auto simp: opts_set_options)
  moreover have "o_value ` ?f ` S = o_value ` S" for S unfolding image_image by (rule image_cong) auto
  ultimately show ?thesis by simp
qed

lemma off_insertAt:
  "\<not> o_disabled x \<Longrightarrow> o_value ` {y \<in> set (ms_opts (insertAt i (Opt x) ns)). o_disabled y} = o_value ` {y \<in> set (ms_opts ns). o_disabled y}"
  using arg_cong [OF mset_opts_insertAt [of i x ns], of set_mset] by (cases "i \<le> length ns") (auto intro: image_eqI)

lemma addOption_off: "\<forall>n\<in>set ns. n_nested n = None \<Longrightarrow> off_values (addOption E ns s) = off_values s"
proof -
  have "off_values (add_option E n s) = off_values s" if "n_nested n = None" for n s
    using that by (simp add: add_option_def generateLisFromOption_def Let_def off_values_def off_insertAt)
  then show "\<forall>n\<in>set ns. n_nested n = None \<Longrightarrow> off_values (addOption E ns s) = off_values s"
    unfolding addOption_def by (induction ns arbitrary: s) auto
qed

text \<open>Every other step leaves the options as they are but for their selection.\<close>

definition same_options :: "ms \<Rightarrow> ms \<Rightarrow> bool" where
  "same_options s s' \<longleftrightarrow> ms_nodes s' = ms_nodes s \<or> (\<exists>P b. ms_nodes s' = set_options P b (ms_nodes s))"

lemma same_select: "same_options s (ms_select E init value s)" "same_options s (ms_deselect E value s)"
  by (auto simp: same_options_def ms_select_def ms_deselect_def Let_def)

lemma same_click_value: "same_options s (ms_click_value E d v s)"
  by (cases d) (simp_all add: ms_click_value_def same_select)

lemma same_set_side: "same_options s (set_side d es s') = same_options s s'"
  by (simp add: same_options_def)

lemma same_refl [simp]: "same_options s s" "same_options s (s\<lparr>ms_focus := f\<rparr>)" "same_options (s\<lparr>ms_focus := f\<rparr>) s' = same_options s s'"
  by (simp_all add: same_options_def)

lemma same_highlighted: "same_options s (selectHighlighted E d s)"
  by (simp add: selectHighlighted_def Let_def same_set_side same_click_value split: list.split)

lemma same_key: "same_options s (ms_keydown E d which shift s)"
proof -
  have "same_options s (selectHighlighted E d (s\<lparr>ms_focus := f\<rparr>))" for f using same_highlighted [of "s\<lparr>ms_focus := f\<rparr>"] by simp
  moreover have "same_options s (moveHighlight E d i s)" for i
    by (simp add: moveHighlight_def Let_def same_set_side split: option.split)
  moreover have "same_options s (switchList d s)" by (simp add: switchList_def clear_all_hover_def same_options_def)
  ultimately show ?thesis by (simp add: ms_keydown_def Let_def same_highlighted split: option.split)
qed

lemma same_mouse: "same_options s (ms_mouseenter d k s)" "same_options s (ms_mouseleave d k s)"
  "same_options s (ms_click E d double k s)" "same_options s (ms_label_click E d g s)"
proof -
  have clear: "same_options s (clear_all_hover s)" by (simp add: same_options_def clear_all_hover_def)
  show "same_options s (ms_mouseenter d k s)" "same_options s (ms_mouseleave d k s)"
    using clear by (simp_all add: ms_mouseenter_def ms_mouseleave_def Let_def same_set_side)
  show "same_options s (ms_click E d double k s)"
    by (simp add: ms_click_def same_click_value split: list.split)
  show "same_options s (ms_label_click E d g s)"
    by (simp add: ms_label_click_def same_select split: option.split ms_side.split)
qed

lemma same_all: "same_options s (fst (select_all E s))" "same_options s (deselect_all s)" "same_options s (ms_reinit E s)"
  by (auto simp: same_options_def select_all_def deselect_all_def ms_reinit_def ms_select_def Let_def split: option.split)

lemma same_refresh:
  assumes "groups_ok (ms_nodes s)" shows "same_options s (ms_refresh E s)"
proof -
  define t where "t = \<lparr>ms_nodes = ms_nodes s, selectableUl = [], selectionUl = [], ms_focus = None, ms_events = []\<rparr>"
  have "ms_nodes (fold (node_lis E) (ms_nodes s) t) = ms_nodes s"
    using build_shape [of "[]" "ms_nodes s" t E] assms by (simp add: t_def)
  then show ?thesis by (auto simp: ms_refresh_def ms_init_def ms_reinit_def ms_select_def same_options_def t_def Let_def)
qed

lemma same_step:
  "groups_ok (ms_nodes s) \<Longrightarrow> (\<forall>ns. a \<noteq> AddOption ns) \<Longrightarrow> same_options s (ms_step E s a)"
  by (cases a) (simp_all add: same_select same_all same_refresh same_key same_mouse)

lemma same_inv: "same_options s s' \<Longrightarrow> groups_ok (ms_nodes s') = groups_ok (ms_nodes s) \<and> off_values s' = off_values s"
  unfolding same_options_def off_values_def by (elim disjE exE) (simp_all add: set_options_groups off_set_options)

lemma ms_step_inv:
  assumes "inj_on sanitize V" "\<not> ms_disabled E" "ms_inv V D s" "action_ok V D a"
  shows "ms_inv V D (ms_step E s a)"
proof -
  have s: "lists_agree V s" "groups_ok (ms_nodes s)" "off_values s \<subseteq> D" using assms(3) by (simp_all add: ms_inv_def)
  have agree: "lists_agree V (ms_step E s a)"
  proof (cases a)
    case (Deselect vs)
    have "\<forall>x\<in>set (ms_opts (ms_nodes s)). o_value x \<in> set vs \<longrightarrow> \<not> o_disabled x"
      using s(3) assms(4) Deselect by (auto simp: off_values_def)
    with Deselect show ?thesis using assms(4) by (simp add: deselect_agree [OF assms(1) _ s(1)] subset_iff)
  next
    case Reinit
    have "distinct (map o_value (ms_opts (ms_nodes s)))" "o_value ` set (ms_opts (ms_nodes s)) \<subseteq> V" using s(1) by (simp_all add: lists_agree_def)
    with selected_values [OF this(1)] show ?thesis unfolding Reinit ms_step.simps ms_reinit_def ms_selected_values_def
      by (intro select_agree [OF assms(1) _ s(1)]) auto
  next
    case Refresh
    have "lists_agree V (ms_init E (ms_nodes s))"
      using s(1,2) by (intro init_agree assms) (simp_all add: lists_agree_def)
    then show ?thesis unfolding Refresh ms_step.simps ms_refresh_def Let_def by (subst agree_cong) simp_all
  qed (use assms s in \<open>simp_all add: select_agree select_all_agree deselect_all_agree addOption_agree key_agree
        mouse_agree click_agree label_agree\<close>)
  show ?thesis
  proof (cases "\<exists>ns. a = AddOption ns")
    case True
    with agree assms(4) s show ?thesis by (auto simp: ms_inv_def addOption_groups addOption_off)
  next
    case False
    with agree same_inv [OF same_step [OF s(2), of a E]] s(2,3) show ?thesis by (simp add: ms_inv_def)
  qed
qed

definition guarded_step :: "ms_env \<Rightarrow> string set \<Rightarrow> string set \<Rightarrow> ms \<Rightarrow> ms_action \<Rightarrow> ms" where
  "guarded_step E V D s a = (if action_ok V D a then ms_step E s a else s)"

interpretation multi: step_invariant "guarded_step E V D" "\<lambda>s. inj_on sanitize V \<and> \<not> ms_disabled E \<longrightarrow> ms_inv V D s" for E V D
  by unfold_locales (auto simp: guarded_step_def ms_step_inv)

lemma run_guarded: "\<forall>a\<in>set as. action_ok V D a \<Longrightarrow> ms_run E as s = foldl (guarded_step E V D) s as"
  unfolding ms_run_def by (rule foldl_cong) (auto simp: guarded_step_def)

lemma filter_view:
  assumes "mset (map li_view ls) = mset (map opt_view xs)"
  shows "mset (map li_value (filter (\<lambda>l. P (li_selected l)) ls)) = mset (map o_value (filter (\<lambda>x. P (o_selected x)) xs))"
proof -
  let ?F = "\<lambda>(k, v, d, b). P b" and ?V = "\<lambda>(k :: nat, v :: string, d :: bool, b :: bool). v"
  have "map li_value (filter (\<lambda>l. P (li_selected l)) ls) = map ?V (filter ?F (map li_view ls))"
    "map o_value (filter (\<lambda>x. P (o_selected x)) xs) = map ?V (filter ?F (map opt_view xs))"
    by (induction ls, simp_all add: li_view_def) (induction xs, simp_all add: opt_view_def)
  moreover have "mset (map ?V (filter ?F X)) = image_mset ?V (filter_mset ?F (mset X))" for X by simp
  ultimately show ?thesis by (simp only: assms)
qed

section \<open>Properties\<close>

text \<open>
  C26: The lists show the selection. Take an element that is not disabled as a whole, whose options
  have different values, and whose groups are not empty and have labels with different hashes. Let
  the values of its options and of all calls have different hashes. Then through every sequence of
  clicks, keys and calls in which \<open>deselect\<close> is never given the value of an option that was
  disabled at the start, and \<open>addOption\<close> adds only options outside groups and none with such a
  value, the list on the right shows exactly the selected options of the element and the list on
  the left exactly the others. Where a condition fails the lists go wrong: \<open>collision_mixes\<close>,
  \<open>disabled_on_both_sides\<close>, \<open>disabled_element_selected\<close> and \<open>nested_option_lost\<close> below.
\<close>

theorem lists_show_selection:
  assumes "inj_on sanitize V" "o_value ` set (ms_opts nodes) \<subseteq> V"
    and "distinct (map o_key (ms_opts nodes))" "distinct (map o_value (ms_opts nodes))"
    and "groups_ok nodes" "\<not> ms_disabled E"
    and "\<forall>a\<in>set as. action_ok V (o_value ` {x \<in> set (ms_opts nodes). o_disabled x}) a"
    and "s = ms_run E as (ms_init E nodes)"
  shows "mset (map li_value (filter li_shown (lis (selectionUl s)))) =
      mset (map o_value (filter o_selected (ms_opts (ms_nodes s)))) \<and>
    mset (map li_value (filter li_shown (lis (selectableUl s)))) =
      mset (map o_value (filter (\<lambda>x. \<not> o_selected x) (ms_opts (ms_nodes s))))"
proof -
  let ?D = "o_value ` {x \<in> set (ms_opts nodes). o_disabled x}"
  define t where "t = \<lparr>ms_nodes = nodes, selectableUl = [], selectionUl = [], ms_focus = None, ms_events = []\<rparr>"
  have "same_options t (ms_init E nodes)" using same_refresh [of t E] assms(5)
    by (simp add: ms_refresh_def same_options_def t_def Let_def)
  from same_inv [OF this] have "ms_inv V ?D (ms_init E nodes)"
    using init_agree [OF assms(1,5,3,4,2,6)] assms(5) by (simp add: ms_inv_def off_values_def t_def)
  then have "inj_on sanitize V \<and> \<not> ms_disabled E \<longrightarrow> ms_inv V ?D (foldl (guarded_step E V ?D) (ms_init E nodes) as)"
    by (intro multi.run_keeps impI)
  then have "ms_inv V ?D s" using assms(1,6) run_guarded [OF assms(7)] assms(8) by (simp only:) simp
  then have agree: "lists_agree V s" by (simp add: ms_inv_def)
  note left = filter_view [OF agree_side(1) [OF agree], of "selectableUl s" Not]
  note right = filter_view [OF agree_side(1) [OF agree], of "selectionUl s" "\<lambda>b. b"]
  have "filter li_shown (lis (selectionUl s)) = filter li_selected (lis (selectionUl s))"
    "filter li_shown (lis (selectableUl s)) = filter (\<lambda>l. \<not> li_selected l) (lis (selectableUl s))"
    using agree by (auto simp: lists_agree_def intro!: filter_cong)
  with left right show ?thesis by (simp add: sides_def)
qed

section \<open>The order of choosing\<close>

definition right_values :: "li list \<Rightarrow> string list" where
  "right_values ls = map li_value (filter li_selected ls)"

lemma right_values_append [simp]: "right_values (xs @ ys) = right_values xs @ right_values ys"
  "right_values (l # ls) = (if li_selected l then li_value l # right_values ls else right_values ls)"
  "right_values [] = []"
  by (simp_all add: right_values_def)

lemma right_values_in: "v \<in> set (right_values ls) \<Longrightarrow> v \<in> li_value ` set ls"
  by (auto simp: right_values_def)

lemma removeAll_absent: "v \<notin> li_value ` set ls \<Longrightarrow> removeAll v (right_values ls) = right_values ls"
  using right_values_in [of v ls] by (intro removeAll_id) blast

text \<open>A selected item of a flat list is moved behind the selected items.\<close>

lemma keep_order_last:
  assumes "distinct (map li_key ls)" "distinct (map li_value ls)" "m \<in> set ls" "li_selected m" "map li_key sel = [li_key m]"
  shows "right_values (lis (keep_order sel (map Item ls))) = removeAll (li_value m) (right_values ls) @ [li_value m]"
proof -
  obtain xs c ys where ls: "ls = xs @ c # ys" and c: "li_selected c" and ys: "\<forall>l\<in>set ys. \<not> li_selected l"
    using split_list_last_prop [of ls li_selected] assms(3,4) by blast
  have ys': "right_values ys = []" "filter li_selected ys = []" using ys by (simp_all add: right_values_def filter_empty_conv)
  have fl: "filter li_selected ls = filter li_selected xs @ [c]" by (simp add: ls c ys')
  have m: "m = c \<or> m \<in> set xs" using assms(3,4) ls ys by auto
  have sel: "map li_key (take 1 sel) = [li_key m]" "li_key ` set sel = {li_key m}" using assms(5) by auto
  show ?thesis
  proof (cases "m = c")
    case True
    have "keep_order sel (map Item ls) = map Item ls" using True sel(1) by (simp add: keep_order_def Let_def fl)
    moreover have "removeAll (li_value c) (right_values xs) = right_values xs"
      using assms(2) by (intro removeAll_absent) (auto simp: ls)
    moreover have "right_values ls = right_values xs @ [li_value c]" using c ys' by (simp add: ls)
    ultimately show ?thesis using True by simp
  next
    case False
    with m obtain us vs where xs: "xs = us @ m # vs" by (meson split_list)
    have one: "keep_order sel (map Item ls) = insertAfter {li_key m} (li_key c) (map Item (xs @ c # ys))"
    proof -
      have "li_key m \<noteq> li_key c" using assms(1) by (auto simp: ls xs)
      moreover have "filter li_selected xs \<noteq> []" using assms(4) by (simp add: xs)
      ultimately show ?thesis using sel by (simp add: keep_order_def Let_def fl flip: ls)
    qed
    have keys: "\<forall>l\<in>set (us @ vs @ ys). li_key l \<noteq> li_key m" using assms(1) by (auto simp: ls xs) (metis image_eqI)+
    then have "filter (\<lambda>l. li_key l \<notin> {li_key m}) xs = us @ vs" "filter (\<lambda>l. li_key l \<in> {li_key m}) (xs @ ys) = [m]"
      "filter (\<lambda>l. li_key l \<notin> {li_key m}) ys = ys"
      by (auto simp: xs filter_id_conv filter_empty_conv)
    then have "lis (keep_order sel (map Item ls)) = us @ vs @ c # m # ys"
      unfolding one using insertAfter_items [of xs c ys "{li_key m}"] assms(1) lis_items [of "us @ vs @ c # m # ys"]
      by (simp add: ls)
    moreover have "removeAll (li_value m) (right_values us) = right_values us" "removeAll (li_value m) (right_values vs) = right_values vs"
      "li_value c \<noteq> li_value m"
      using assms(2) by (auto simp: ls xs intro!: removeAll_absent)
    ultimately show ?thesis using c ys' assms(4) by (simp add: ls xs)
  qed
qed

lemma right_touch:
  assumes "\<And>l. P l \<Longrightarrow> li_value l = v"
  shows "removeAll v (right_values (map (touch P x y) ls)) = removeAll v (right_values ls)"
  by (induction ls) (auto dest: assms)

lemma select_right:
  assumes "inj_on sanitize V" "set value \<subseteq> V" "lists_agree V s" "\<not> has_group (selectableUl s)"
    and "P = (\<lambda>l. li_value l \<in> set value \<and> (init \<or> \<not> li_disabled l))"
  shows "lis (selectionUl (ms_select E init value s)) =
    (if filter P (lis (selectableUl s)) = [] then lis (selectionUl s)
     else lis (reorder (keepOrder E \<and> \<not> init) (filter P (lis (selectionUl s)))
       (map Item (map (touch P True True) (lis (selectionUl s))))))"
proof -
  note side = agree_side [OF assms(3)]
  have found: "filter (\<lambda>l. init \<or> \<not> li_disabled l) (find_lis E (map sanitize value) (lis es)) = filter P (lis es)" if "sides s es" for es
    using find_lis_exact [OF assms(1,2) side(3,4) [OF that]] by (simp add: conj_commute assms(5))
  let ?b = "clear_hover (mark (li_key ` set (filter P (lis (selectionUl s)))) True True (selectionUl s))"
  have "\<not> has_group ?b" using assms(3,4) by (simp add: lists_agree_def)
  then have b: "?b = map Item (map (touch P True True) (lis (selectionUl s)))"
    using flat_lis [of ?b] lis_touch [OF side(2), of "selectionUl s" P True True] by (simp add: has_group_def sides_def)
  have flat: "\<not> (\<exists>e\<in>set (clear_hover (mark K x y (selectableUl s))). is_container e)" for K x y
    using assms(4) has_group_simps(1,2) unfolding has_group_def by blast
  have sides: "sides s (selectableUl s)" "sides s (selectionUl s)" by (simp_all add: sides_def)
  show ?thesis unfolding ms_select_def Let_def found [OF sides(1)] found [OF sides(2)] b reorder_def by (simp add: flat)
qed

definition on_values :: "ms \<Rightarrow> string set" where
  "on_values s = o_value ` {x \<in> set (ms_opts (ms_nodes s)). \<not> o_disabled x}"

lemma on_values_side:
  assumes "lists_agree V s" "sides s es"
  shows "v \<in> on_values s \<longleftrightarrow> (\<exists>l\<in>set (lis es). li_value l = v \<and> \<not> li_disabled l)"
proof -
  have "li_view ` set (lis es) = opt_view ` set (ms_opts (ms_nodes s))"
    using agree_side(1) [OF assms, THEN mset_eq_setD] by simp
  then have "(\<exists>y\<in>li_view ` set (lis es). (\<lambda>(k, w, d, b). w = v \<and> \<not> d) y) \<longleftrightarrow>
    (\<exists>y\<in>opt_view ` set (ms_opts (ms_nodes s)). (\<lambda>(k, w, d, b). w = v \<and> \<not> d) y)" by (simp only:)
  moreover have "v \<in> on_values s \<longleftrightarrow> (\<exists>x\<in>set (ms_opts (ms_nodes s)). o_value x = v \<and> \<not> o_disabled x)"
    by (auto simp: on_values_def)
  ultimately show ?thesis by (simp add: li_view_def opt_view_def)
qed

lemma filter_one:
  assumes "distinct (map f xs)" "m \<in> set xs" "Q m"
  shows "filter (\<lambda>x. f x = f m \<and> Q x) xs = [m]"
proof -
  obtain us vs where xs: "xs = us @ m # vs" using assms(2) by (meson split_list)
  have "\<forall>x\<in>set us \<union> set vs. f x \<noteq> f m" using assms(1) by (auto simp: xs) (metis image_eqI)+
  then have "filter (\<lambda>x. f x = f m \<and> Q x) us = []" "filter (\<lambda>x. f x = f m \<and> Q x) vs = []" by (auto simp: filter_empty_conv)
  with assms(3) show ?thesis by (simp add: xs)
qed

lemma select_one_right:
  assumes "inj_on sanitize V" "v \<in> V" "lists_agree V s" "\<not> has_group (selectableUl s)" "keepOrder E"
  shows "right_values (lis (selectionUl (ms_select E False [v] s))) =
    (if v \<in> on_values s then removeAll v (right_values (lis (selectionUl s))) @ [v] else right_values (lis (selectionUl s)))"
proof -
  let ?P = "\<lambda>l. li_value l \<in> set [v] \<and> (False \<or> \<not> li_disabled l)" and ?ls = "lis (selectionUl s)"
  have sides: "sides s (selectableUl s)" "sides s (selectionUl s)" by (simp_all add: sides_def)
  have right: "lis (selectionUl (ms_select E False [v] s)) = (if filter ?P (lis (selectableUl s)) = [] then ?ls
      else lis (reorder (keepOrder E \<and> \<not> False) (filter ?P ?ls) (map Item (map (touch ?P True True) ?ls))))"
    by (rule select_right [OF assms(1) _ assms(3,4) refl]) (simp add: assms(2))
  show ?thesis
  proof (cases "v \<in> on_values s")
    case False
    then have "filter ?P (lis (selectableUl s)) = []" using on_values_side [OF assms(3) sides(1)] by (auto simp: filter_empty_conv)
    with right False show ?thesis by simp
  next
    case True
    then have ne: "filter ?P (lis (selectableUl s)) \<noteq> []" using on_values_side [OF assms(3) sides(1)] by (auto simp: filter_empty_conv)
    obtain m where m: "m \<in> set ?ls" "li_value m = v" "\<not> li_disabled m" using True on_values_side [OF assms(3) sides(2)] by auto
    note side = agree_side [OF assms(3) sides(2)]
    have "filter ?P ?ls = [m]" using filter_one [OF side(3) m(1), of "\<lambda>l. \<not> li_disabled l"] m(2,3) by simp
    moreover have "right_values (lis (keep_order [m] (map Item (map (touch ?P True True) ?ls)))) =
        removeAll v (right_values (map (touch ?P True True) ?ls)) @ [v]"
      using keep_order_last [of "map (touch ?P True True) ?ls" "touch ?P True True m" "[m]"] side(2,3) m
      by (simp add: o_def)
    moreover have "removeAll v (right_values (map (touch ?P True True) ?ls)) = removeAll v (right_values ?ls)"
      by (rule right_touch) simp
    ultimately show ?thesis using right ne True assms(5) by (simp add: reorder_def)
  qed
qed

lemma deselect_one_right:
  assumes "inj_on sanitize V" "v \<in> V" "lists_agree V s"
  shows "right_values (lis (selectionUl (ms_deselect E [v] s))) =
    (if v \<in> on_values s then removeAll v (right_values (lis (selectionUl s))) else right_values (lis (selectionUl s)))"
proof -
  let ?Q = "\<lambda>l. li_value l \<in> set [v] \<and> li_selected l \<and> \<not> li_disabled l" and ?ls = "lis (selectionUl s)"
  have sides: "sides s (selectionUl s)" by (simp add: sides_def)
  note side = agree_side [OF assms(3) sides]
  have found: "filter (\<lambda>l. li_selected l \<and> \<not> li_disabled l) (find_lis E (map sanitize [v]) ?ls) = filter ?Q ?ls"
    using find_lis_exact [OF assms(1) _ side(3,4), of "[v]" E] assms(2) by (simp add: conj_ac)
  have right: "lis (selectionUl (ms_deselect E [v] s)) = (if filter ?Q ?ls = [] then ?ls else map (touch ?Q False False) ?ls)"
    unfolding ms_deselect_def Let_def found using lis_touch [OF side(2), of ?Q] by simp
  have off: "\<not> ?Q l" if "v \<notin> on_values s" "l \<in> set ?ls" for l using on_values_side [OF assms(3) sides] that by auto
  have none: "removeAll v (right_values ls) = right_values ls" if "filter ?Q ls = []" "\<forall>l\<in>set ls. li_value l = v \<longrightarrow> \<not> li_disabled l" for ls
    using that by (intro removeAll_id) (auto simp: right_values_def filter_empty_conv)
  have drop: "right_values (map (touch ?Q False False) ls) = removeAll v (right_values ls)"
    if "\<forall>l\<in>set ls. li_value l = v \<longrightarrow> \<not> li_disabled l" for ls using that by (induction ls) auto
  show ?thesis
  proof (cases "v \<in> on_values s")
    case True
    obtain m where "m \<in> set ?ls" "li_value m = v" "\<not> li_disabled m" using True on_values_side [OF assms(3) sides] by auto
    with side(3) have "\<forall>l\<in>set ?ls. li_value l = v \<longrightarrow> \<not> li_disabled l" by (auto simp: distinct_map dest: inj_onD)
    with True right none [of ?ls] drop [of ?ls] show ?thesis by (cases "filter ?Q ?ls = []") simp_all
  next
    case False
    have "filter ?Q ?ls = []" unfolding filter_empty_conv using off [OF False] by blast
    with False right show ?thesis by simp
  qed
qed

text \<open>What the user means: choosing puts a value at the end, giving it up takes it out.\<close>

datatype choice = Pick string | Drop string

fun choice_call :: "choice \<Rightarrow> ms_action" where
  "choice_call (Pick v) = Select [v]"
| "choice_call (Drop v) = Deselect [v]"

fun chosen :: "string set \<Rightarrow> string list \<Rightarrow> choice \<Rightarrow> string list" where
  "chosen C ch (Pick v) = (if v \<in> C then removeAll v ch @ [v] else ch)"
| "chosen C ch (Drop v) = (if v \<in> C then removeAll v ch else ch)"

fun choice_value :: "choice \<Rightarrow> string" where
  "choice_value (Pick v) = v"
| "choice_value (Drop v) = v"

lemma same_on: "same_options s s' \<Longrightarrow> on_values s' = on_values s"
proof -
  have "o_value ` {x \<in> set (ms_opts (set_options P b ns)). \<not> o_disabled x} = o_value ` {x \<in> set (ms_opts ns). \<not> o_disabled x}" for P b ns
  proof -
    let ?f = "\<lambda>x :: ms_option. if P x then x\<lparr>o_selected := b\<rparr> else x"
    have "{x \<in> set (ms_opts (set_options P b ns)). \<not> o_disabled x} = ?f ` {x \<in> set (ms_opts ns). \<not> o_disabled x}"
      by (auto simp: opts_set_options)
    moreover have "o_value ` ?f ` S = o_value ` S" for S unfolding image_image by (rule image_cong) auto
    ultimately show ?thesis by simp
  qed
  then show "same_options s s' \<Longrightarrow> on_values s' = on_values s"
    unfolding same_options_def on_values_def by (elim disjE exE) simp_all
qed

lemma select_flat: "has_group (selectableUl (ms_select E init value s)) = has_group (selectableUl s)"
  "has_group (selectableUl (ms_deselect E value s)) = has_group (selectableUl s)"
  by (simp_all add: ms_select_def ms_deselect_def Let_def)

definition in_order :: "string set \<Rightarrow> string set \<Rightarrow> ms \<Rightarrow> bool" where
  "in_order V C s \<longleftrightarrow> lists_agree V s \<and> \<not> has_group (selectableUl s) \<and> on_values s = C"

lemma choose_step:
  assumes "inj_on sanitize V" "keepOrder E" "in_order V C s" "choice_value c \<in> V"
  shows "in_order V C (ms_step E s (choice_call c)) \<and>
    right_values (lis (selectionUl (ms_step E s (choice_call c)))) = chosen C (right_values (lis (selectionUl s))) c"
proof -
  have s: "lists_agree V s" "\<not> has_group (selectableUl s)" "on_values s = C" using assms(3) by (simp_all add: in_order_def)
  show ?thesis
  proof (cases c)
    case (Pick v)
    then show ?thesis using assms s select_one_right [OF assms(1) _ s(1,2) assms(2), of v]
      by (simp add: in_order_def select_agree select_flat same_on [OF same_select(1)])
  next
    case (Drop v)
    then show ?thesis using assms s deselect_one_right [OF assms(1) _ s(1), of v]
      by (simp add: in_order_def deselect_one_agree select_flat same_on [OF same_select(2)])
  qed
qed

lemma choose_run:
  assumes "inj_on sanitize V" "keepOrder E"
  shows "in_order V C s \<Longrightarrow> \<forall>c\<in>set cs. choice_value c \<in> V \<Longrightarrow>
    in_order V C (ms_run E (map choice_call cs) s) \<and>
    right_values (lis (selectionUl (ms_run E (map choice_call cs) s))) = foldl (chosen C) (right_values (lis (selectionUl s))) cs"
proof (induction cs arbitrary: s)
  case (Cons c cs)
  then show ?case using choose_step [OF assms Cons.prems(1), of c] by (simp add: ms_run_def)
qed (simp add: ms_run_def)

lemma right_touch_init:
  "right_values (map (touch (\<lambda>l. P (li_value l)) True True) (map (\<lambda>x. new_li E x b) xs)) = map o_value (filter (\<lambda>x. P (o_value x)) xs)"
  by (induction xs) (auto simp: new_li_def)

lemma init_right:
  assumes "inj_on sanitize V" "groups_ok nodes" "distinct (map o_key (ms_opts nodes))" "distinct (map o_value (ms_opts nodes))"
    and "o_value ` set (ms_opts nodes) \<subseteq> V" "\<not> ms_disabled E" "labels nodes = []"
  shows "right_values (lis (selectionUl (ms_init E nodes))) = map o_value (filter o_selected (ms_opts nodes))"
proof -
  let ?xs = "ms_opts nodes" and ?vs = "selected_of nodes"
  let ?t = "(blank E nodes)\<lparr>ms_nodes := map (map_node unselected) nodes\<rparr>"
  let ?P = "\<lambda>l. li_value l \<in> set ?vs \<and> (True \<or> \<not> li_disabled l)"
  have sel: "filter (\<lambda>x. o_value x \<in> set ?vs) ?xs = filter o_selected ?xs"
    unfolding selected_of_def by (intro filter_cong refl selected_values assms(4))
  have "lis (selectionUl (ms_select E True ?vs ?t)) = (if filter ?P (lis (selectableUl ?t)) = [] then lis (selectionUl ?t)
      else lis (reorder (keepOrder E \<and> \<not> True) (filter ?P (lis (selectionUl ?t))) (map Item (map (touch ?P True True) (lis (selectionUl ?t))))))"
    by (rule select_right [OF assms(1) _ blank_agree [OF assms(3-6)] _ refl])
      (use assms(5,7) in \<open>auto simp: blank_groups selected_of_def\<close>)
  then have right: "lis (selectionUl (ms_init E nodes)) = (if filter ?P (map (\<lambda>x. new_li E x True) ?xs) = [] then map (\<lambda>x. new_li E x False) ?xs
      else map (touch ?P True True) (map (\<lambda>x. new_li E x False) ?xs))"
    by (simp add: init_blank [OF assms(2)] select_lists_nodes blank_lis reorder_def del: map_map)
  show ?thesis
  proof (cases "filter (\<lambda>x. o_value x \<in> set ?vs) ?xs = []")
    case True
    then have "filter ?P (map (\<lambda>x. new_li E x True) ?xs) = []" by (simp add: filter_map o_def new_li_def)
    moreover have "right_values (map (\<lambda>x. new_li E x False) ys) = []" for ys by (induction ys) (simp_all add: new_li_def)
    ultimately show ?thesis using True sel by (simp add: right)
  next
    case False
    then have "filter ?P (map (\<lambda>x. new_li E x True) ?xs) \<noteq> []" by (simp add: filter_map o_def new_li_def)
    then show ?thesis using sel right_touch_init [of "\<lambda>v. v \<in> set ?vs" E False ?xs] by (simp add: right del: map_map)
  qed
qed

text \<open>
  C27: The order of choosing. Take an element without groups that is not disabled as a whole, whose
  options have different values, and let the values of its options and of the calls have different
  hashes. With \<open>keepOrder\<close>, calls of \<open>select\<close> and \<open>deselect\<close> with one value each, which is what
  clicks and the keyboard make, implement the list of choices: the right list shows the values in
  the order in which they were chosen, those selected from the start first. Disabled options can
  be neither chosen nor given up. With groups the option does nothing (\<open>keep_order_groups\<close> below),
  and with equal hashes values are mixed up (\<open>collision_mixes\<close>).
\<close>

theorem keep_order_refines:
  assumes "inj_on sanitize V" "o_value ` set (ms_opts nodes) \<subseteq> V"
    and "distinct (map o_key (ms_opts nodes))" "distinct (map o_value (ms_opts nodes))"
    and "groups_ok nodes" "labels nodes = []" "\<not> ms_disabled E" "keepOrder E"
    and "\<forall>c\<in>set cs. choice_value c \<in> V"
    and "s = ms_run E (map choice_call cs) (ms_init E nodes)"
  shows "map li_value (filter li_shown (lis (selectionUl s))) =
    foldl (chosen (o_value ` {x \<in> set (ms_opts nodes). \<not> o_disabled x})) (map o_value (filter o_selected (ms_opts nodes))) cs"
proof -
  let ?C = "o_value ` {x \<in> set (ms_opts nodes). \<not> o_disabled x}"
  note start = init_agree [OF assms(1,5,3,4,2,7)] init_right [OF assms(1,5,3,4,2,7,6)]
  have "same_options (blank E nodes) (ms_init E nodes)" unfolding init_blank [OF assms(5)] by (rule same_select)
  then have "on_values (ms_init E nodes) = ?C" using same_on by (fastforce simp: on_values_def blank_def)
  moreover have "\<not> has_group (selectableUl (ms_init E nodes))"
    unfolding init_blank [OF assms(5)] using assms(6) by (simp add: select_flat blank_groups)
  ultimately have "in_order V ?C (ms_init E nodes)" using start(1) by (simp add: in_order_def)
  from choose_run [OF assms(1,8) this assms(9)] start(2) assms(10)
  have s: "in_order V ?C s" "right_values (lis (selectionUl s)) = foldl (chosen ?C) (map o_value (filter o_selected (ms_opts nodes))) cs"
    by simp_all
  from s(1) have "filter li_shown (lis (selectionUl s)) = filter li_selected (lis (selectionUl s))"
    by (auto simp: in_order_def lists_agree_def intro!: filter_cong)
  with s(2) show ?thesis by (simp add: right_values_def)
qed

section \<open>Witnesses and examples\<close>

definition sample_env :: ms_env where
  "sample_env = \<lparr>keySelect = [32], selectableOptgroup = True, dblClick = False, keepOrder = True, has_afterSelect = True,
     ms_disabled = False, first_found = True, container_visible = (\<lambda>e. True), tabindex_focus = None\<rparr>"

definition sample_option :: "nat \<Rightarrow> string \<Rightarrow> bool \<Rightarrow> bool \<Rightarrow> ms_option" where
  "sample_option k v sel dis = \<lparr>o_key = k, o_value = v, o_selected = sel, o_disabled = dis\<rparr>"

definition sample_nodes :: "sel_node list" where
  "sample_nodes = [Opt (sample_option 0 ''a'' True False), Opt (sample_option 1 ''b'' False False),
     Opt (sample_option 2 ''c'' False False)]"

lemma sample_nodes_ok:
  "inj_on sanitize {''a'', ''b'', ''c''}" "o_value ` set (ms_opts sample_nodes) \<subseteq> {''a'', ''b'', ''c''}"
  "distinct (map o_key (ms_opts sample_nodes))" "distinct (map o_value (ms_opts sample_nodes))"
  "groups_ok sample_nodes" "labels sample_nodes = []" "\<not> ms_disabled sample_env" "keepOrder sample_env"
  by (simp_all add: inj_on_def sanitize_def hash_step_def sample_nodes_def sample_option_def ms_opts_def groups_ok_def
      labels_def sample_env_def)

theorem lists_show_selection_witness:
  "let s = ms_run sample_env [Select [''c'', ''b''], KeyDown Selection 40 False, KeyDown Selection 32 False, SelectAll] (ms_init sample_env sample_nodes)
   in mset (map li_value (filter li_shown (lis (selectionUl s)))) = mset (map o_value (filter o_selected (ms_opts (ms_nodes s))))"
  unfolding Let_def
  by (rule lists_show_selection [OF sample_nodes_ok(1-5,7) _ refl, THEN conjunct1]) simp

theorem keep_order_refines_witness:
  "map li_value (filter li_shown (lis (selectionUl (ms_run sample_env (map choice_call [Pick ''c'', Pick ''b'', Drop ''a'', Pick ''a''])
      (ms_init sample_env sample_nodes))))) = [''c'', ''b'', ''a'']"
proof -
  have "{x \<in> set (ms_opts sample_nodes). \<not> o_disabled x} = set (ms_opts sample_nodes)"
    by (auto simp: sample_nodes_def sample_option_def ms_opts_def)
  moreover have "o_value ` set (ms_opts sample_nodes) = {''a'', ''b'', ''c''}"
    "map o_value (filter o_selected (ms_opts sample_nodes)) = [''a'']"
    by (simp_all add: sample_nodes_def sample_option_def ms_opts_def)
  ultimately show ?thesis
    using keep_order_refines [OF sample_nodes_ok(1-8), of "[Pick ''c'', Pick ''b'', Drop ''a'', Pick ''a'']"] by simp
qed

text \<open>Texts that differ in one place, \<open>Aa\<close> here and \<open>BB\<close> there, have the same hash.\<close>

lemma hash_collision: "sanitize (p @ ''Aa'' @ q) = sanitize (p @ ''BB'' @ q)"
  by (simp add: sanitize_foldl hash_step_arith)

text \<open>
  Two options whose values differ only in \<open>Aa\<close> and \<open>BB\<close> are mixed up: selecting the second selects
  it in the element but shows the first one on the right, alone or (where another widget of the
  page has an element of that id) together with the second.
\<close>

lemma collision_mixes:
  assumes "u = p @ ''Aa'' @ q" "w = p @ ''BB'' @ q"
    and "nodes = [Opt (sample_option 0 u False False), Opt (sample_option 1 w False False)]"
    and "\<not> ms_disabled E" "s = ms_select E False [w] (ms_init E nodes)"
  shows "map o_value (filter o_selected (ms_opts (ms_nodes s))) = [w] \<and>
    (first_found E \<longrightarrow> map li_value (filter li_shown (lis (selectionUl s))) = [u]) \<and>
    (\<not> first_found E \<longrightarrow> mset (map li_value (filter li_shown (lis (selectionUl s)))) = {#u, w#})"
proof -
  have hash: "sanitize u = sanitize w" unfolding assms(1,2) by (rule hash_collision)
  have ne: "u \<noteq> w" unfolding assms(1,2) by simp
  show ?thesis
    using hash ne assms(4) unfolding assms(5,3)
    by (simp add: ms_init_def ms_reinit_def ms_selected_values_def ms_select_def find_lis_def generateLisFromOption_def
        sample_option_def ms_opts_def lis_def insertAt_def new_li_def mark_def clear_hover_def set_options_def keep_order_def
        insertAfter_def elems_def Let_def)
qed

text \<open>Deselecting a disabled option together with an enabled one shows the disabled one on both sides.\<close>

lemma disabled_on_both_sides:
  "let s = ms_deselect sample_env [''a'', ''b'']
       (ms_init sample_env [Opt (sample_option 0 ''a'' True True), Opt (sample_option 1 ''b'' True False)])
   in map li_value (filter li_shown (lis (selectableUl s))) = [''a'', ''b''] \<and>
      map li_value (filter li_shown (lis (selectionUl s))) = [''a'']"
  by code_simp

text \<open>A disabled element: \<open>select_all\<close> selects its options, and the lists show none of it.\<close>

lemma disabled_element_selected:
  "let E = sample_env\<lparr>ms_disabled := True\<rparr>; s = fst (select_all E (ms_init E [Opt (sample_option 0 ''a'' False False)]))
   in map o_selected (ms_opts (ms_nodes s)) = [True] \<and> filter li_shown (lis (selectionUl s)) = []"
  by code_simp

text \<open>
  An option added to a group without an index is placed by the number of children of the element:
  it gets lost, and its list items have no option.
\<close>

lemma nested_option_lost:
  "let s = addOption sample_env [\<lparr>n_value = ''x'', n_index = None, n_nested = Some ''g''\<rparr>]
       (ms_init sample_env [Optgroup ''g'' [sample_option 0 ''a'' False False], Opt (sample_option 1 ''b'' False False)])
   in map o_value (ms_opts (ms_nodes s)) = [''a'', ''b''] \<and> map li_value (lis (selectableUl s)) = [''a'', ''b'', ''x'']"
  by code_simp

text \<open>Several values selected at once are not kept in order: the last of them comes first.\<close>

lemma keep_order_several:
  "map li_value (filter li_shown (lis (selectionUl (ms_select sample_env False [''b'', ''c''] (ms_init sample_env
     [Opt (sample_option 0 ''a'' False False), Opt (sample_option 1 ''b'' False False), Opt (sample_option 2 ''c'' False False)])))))
   = [''c'', ''b'']"
  by code_simp

text \<open>In an element with groups the order of choosing is not kept.\<close>

lemma keep_order_groups:
  "map li_value (filter li_shown (lis (selectionUl (ms_run sample_env [Select [''c''], Select [''b'']] (ms_init sample_env
     [Optgroup ''g'' [sample_option 0 ''a'' False False, sample_option 1 ''b'' False False, sample_option 2 ''c'' False False]])))))
   = [''b'', ''c'']"
  by code_simp

text \<open>\<open>select_all\<close> raises exactly when a callback is set and no option can be selected or is.\<close>

lemma select_all_raises:
  "snd (select_all E s) \<noteq> None \<longleftrightarrow>
     has_afterSelect E \<and> (\<forall>x\<in>set (ms_opts (ms_nodes s)). o_disabled x \<and> \<not> o_selected x)"
proof -
  have "ms_val (set_options (\<lambda>x. \<not> o_disabled x) True ns) = None \<longleftrightarrow> (\<forall>x\<in>set (ms_opts ns). o_disabled x \<and> \<not> o_selected x)" for ns
  proof -
    have "ms_val ms = None \<longleftrightarrow> (\<forall>x\<in>set (ms_opts ms). \<not> o_selected x)" for ms by (simp add: ms_val_def)
    moreover have "o_selected (if P then x\<lparr>o_selected := True\<rparr> else x) \<longleftrightarrow> P \<or> o_selected x" for P and x :: ms_option by simp
    ultimately show ?thesis by (simp only: opts_set_options set_map ball_simps de_Morgan_disj not_not)
  qed
  moreover have "snd (select_all E s) \<noteq> None \<longleftrightarrow>
      has_afterSelect E \<and> ms_val (set_options (\<lambda>x. \<not> o_disabled x) True (ms_nodes s)) = None"
    by (simp add: select_all_def Let_def split: option.split)
  ultimately show ?thesis by simp
qed

end
