(* ===== verification/Toastr.thy ===== *)
theory Toastr
  imports Js_Prelude
begin

text \<open>
  Notifications, \<open>toastr/toastr.js\<close>: toasts in a container of the page, which hide after a time, on a
  click, or on demand. Showing and hiding are animations of jQuery: an element has animations
  that run and a queue of further ones; an element taken out of the page loses its queue and its
  handlers, not its timers nor a running animation. Time is the order of events.
\<close>

section \<open>State\<close>

record toast_opts =
  tapToDismiss :: bool
  extendedTimeOut :: int
  timeOut :: int
  newestOnTop :: bool
  preventDuplicates :: bool
  closeButton :: bool
  has_onclick :: bool
  has_onHidden :: bool

datatype toast_type = Error | Info | Success | Warning

text \<open>
  What a call passes on; the override is what \<open>$.extend\<close> makes of the options, and the icon class it
  has, if any.
\<close>

record toast_map =
  m_type :: toast_type
  m_message :: "string option"
  m_title :: "string option"
  m_override :: "((toast_opts \<Rightarrow> toast_opts) \<times> string) option"

datatype fx = ShowFx | HideFx | ClearFx

record toast =
  t_id :: nat
  t_map :: toast_map
  t_opts :: toast_opts
  t_class :: string
  t_display :: bool
  t_running :: "fx list"
  t_queue :: "fx list"
  t_busy :: bool
  t_live :: bool
  t_interval :: "nat option"
  t_hidden :: bool

text \<open>The variable \<open>$container\<close>: not set, an empty result, or an element.\<close>

datatype cref = Undefined | EmptyResult | Cont nat

datatype toast_event = Published nat bool | OnHidden nat | OnClick nat

record toastr =
  ts_options :: toast_opts
  toastId :: nat
  previousToast :: "string option"
  container :: cref
  page_container :: "nat option"
  kids :: "nat \<Rightarrow> nat list"
  containers :: nat
  toasts :: "nat \<Rightarrow> toast option"
  timers :: "(nat \<times> nat) list"
  timer_ids :: nat
  ts_focus :: "nat option"
  ts_mouse :: "nat option"
  ts_log :: "toast_event list"

definition getDefaults :: toast_opts where
  "getDefaults = \<lparr>tapToDismiss = True, extendedTimeOut = 1000, timeOut = 5000, newestOnTop = True, preventDuplicates = False,
     closeButton = False, has_onclick = False, has_onHidden = False\<rparr>"

definition new_toastr :: "toast_opts \<Rightarrow> toastr" where
  "new_toastr opts = \<lparr>ts_options = opts, toastId = 0, previousToast = None, container = Undefined, page_container = None,
     kids = (\<lambda>c. []), containers = 0, toasts = (\<lambda>i. None), timers = [], timer_ids = 0, ts_focus = None, ts_mouse = None, ts_log = []\<rparr>"

fun icon_of :: "toast_type \<Rightarrow> string" where
  "icon_of Error = ''toast-error''"
| "icon_of Info = ''toast-info''"
| "icon_of Success = ''toast-success''"
| "icon_of Warning = ''toast-warning''"

section \<open>Elements\<close>

definition upd_toast :: "nat \<Rightarrow> (toast \<Rightarrow> toast) \<Rightarrow> toastr \<Rightarrow> toastr" where
  "upd_toast i f s = (case toasts s i of None \<Rightarrow> s | Some t \<Rightarrow> s\<lparr>toasts := (toasts s)(i \<mapsto> f t)\<rparr>)"

definition in_page :: "nat \<Rightarrow> toastr \<Rightarrow> bool" where
  "in_page i s = (case page_container s of None \<Rightarrow> False | Some c \<Rightarrow> i \<in> set (kids s c))"

definition is_visible :: "nat \<Rightarrow> toastr \<Rightarrow> bool" where
  "is_visible i s = (in_page i s \<and> (case toasts s i of None \<Rightarrow> False | Some t \<Rightarrow> t_display t))"

definition children :: "toastr \<Rightarrow> nat list" where
  "children s = (case container s of Cont c \<Rightarrow> kids s c | _ \<Rightarrow> [])"

text \<open>What jQuery forgets about an element it takes out of the page.\<close>

definition clean :: "toast \<Rightarrow> toast" where
  "clean t = t\<lparr>t_queue := [], t_busy := False, t_live := False\<rparr>"

definition remove_element :: "nat \<Rightarrow> toastr \<Rightarrow> toastr" where
  "remove_element i s =
     (upd_toast i clean s)\<lparr>kids := (\<lambda>c. filter (\<lambda>j. j \<noteq> i) (kids s c)),
       ts_focus := if ts_focus s = Some i then None else ts_focus s\<rparr>"

definition remove_container :: "toastr \<Rightarrow> toastr" where
  "remove_container s =
     (case container s of
        Cont c \<Rightarrow> (fold (\<lambda>i. upd_toast i clean) (kids s c) s)
          \<lparr>page_container := if page_container s = Some c then None else page_container s,
           ts_focus := (case ts_focus s of None \<Rightarrow> None | Some i \<Rightarrow> if i \<in> set (kids s c) then None else Some i)\<rparr>
      | _ \<Rightarrow> s)"

section \<open>Animations\<close>

text \<open>An animation that shows makes the element visible at once, one that hides at its end.\<close>

definition start_fx :: "fx \<Rightarrow> toast \<Rightarrow> toast" where
  "start_fx f t = t\<lparr>t_running := t_running t @ [f], t_busy := True, t_display := f = ShowFx \<or> t_display t\<rparr>"

definition enqueue :: "fx \<Rightarrow> toast \<Rightarrow> toast" where
  "enqueue f t = (if t_busy t then t\<lparr>t_queue := t_queue t @ [f]\<rparr> else start_fx f t)"

definition dequeue :: "toast \<Rightarrow> toast" where
  "dequeue t = (case t_queue t of [] \<Rightarrow> t\<lparr>t_busy := False\<rparr> | f # q \<Rightarrow> start_fx f (t\<lparr>t_queue := q\<rparr>))"

section \<open>Containers\<close>

definition getContainer :: "bool \<Rightarrow> toastr \<Rightarrow> toastr" where
  "getContainer create s =
     (case page_container s of
        Some c \<Rightarrow> s\<lparr>container := Cont c\<rparr>
      | None \<Rightarrow> if create
                then s\<lparr>container := Cont (containers s), page_container := Some (containers s),
                       kids := (kids s)(containers s := []), containers := containers s + 1\<rparr>
                else s\<lparr>container := EmptyResult\<rparr>)"

definition ensure_container :: "toastr \<Rightarrow> toastr" where
  "ensure_container s = (if container s = Undefined then getContainer False s else s)"

definition removeToast :: "nat \<Rightarrow> toastr \<Rightarrow> toastr" where
  "removeToast i s =
     (let s = ensure_container s
      in if is_visible i s then s
         else (let s = remove_element i s in if children s = [] then remove_container s else s))"

section \<open>Hiding\<close>

definition publish :: "nat \<Rightarrow> bool \<Rightarrow> toastr \<Rightarrow> toastr" where
  "publish i hidden s = s\<lparr>ts_log := ts_log s @ [Published i hidden]\<rparr>"

text \<open>The functions called when an animation of a toast has ended.\<close>

definition fx_complete :: "fx \<Rightarrow> nat \<Rightarrow> toastr \<Rightarrow> toastr" where
  "fx_complete f i s =
     (case f of
        ShowFx \<Rightarrow> s
      | ClearFx \<Rightarrow> removeToast i s
      | HideFx \<Rightarrow>
          (let s = removeToast i s
           in case toasts s i of
                None \<Rightarrow> s
              | Some t \<Rightarrow>
                  (let s = (if has_onHidden (t_opts t) \<and> \<not> t_hidden t then s\<lparr>ts_log := ts_log s @ [OnHidden i]\<rparr> else s)
                   in publish i True (upd_toast i (\<lambda>t. t\<lparr>t_hidden := True\<rparr>) s))))"

text \<open>The \<open>k\<close>-th running animation of a toast ends; then the queue goes on.\<close>

definition finish_fx :: "nat \<Rightarrow> nat \<Rightarrow> toastr \<Rightarrow> toastr" where
  "finish_fx i k s =
     (case toasts s i of
        None \<Rightarrow> s
      | Some t \<Rightarrow>
          if k < length (t_running t)
          then (let f = t_running t ! k;
                    s = upd_toast i (\<lambda>t. t\<lparr>t_running := take k (t_running t) @ drop (k + 1) (t_running t),
                                           t_display := f = ShowFx \<and> t_display t\<rparr>) s
                in upd_toast i dequeue (fx_complete f i s))
          else s)"

definition hideToast :: "bool \<Rightarrow> nat \<Rightarrow> toastr \<Rightarrow> toastr" where
  "hideToast override i s =
     (if ts_focus s = Some i \<and> \<not> override then s else upd_toast i (enqueue HideFx) s)"

definition set_timer :: "nat \<Rightarrow> toastr \<Rightarrow> toastr" where
  "set_timer i s = upd_toast i (\<lambda>t. t\<lparr>t_interval := Some (timer_ids s)\<rparr>)
     (s\<lparr>timers := timers s @ [(timer_ids s, i)], timer_ids := timer_ids s + 1\<rparr>)"

definition delayedHideToast :: "nat \<Rightarrow> toastr \<Rightarrow> toastr" where
  "delayedHideToast i s =
     (case toasts s i of
        None \<Rightarrow> s
      | Some t \<Rightarrow> if timeOut (t_opts t) > 0 \<or> extendedTimeOut (t_opts t) > 0 then set_timer i s else s)"

text \<open>\<open>stop(true, true)\<close> empties the queue and takes running animations to their ends.\<close>

definition stop_fx :: "nat \<Rightarrow> toastr \<Rightarrow> toastr" where
  "stop_fx i s =
     (case toasts s i of
        None \<Rightarrow> s
      | Some t \<Rightarrow> fold (\<lambda>k. finish_fx i k) (rev [0..<length (t_running t)])
          (upd_toast i (\<lambda>t. t\<lparr>t_queue := [], t_busy := False\<rparr>) s))"

definition stickAround :: "nat \<Rightarrow> toastr \<Rightarrow> toastr" where
  "stickAround i s =
     (case toasts s i of
        None \<Rightarrow> s
      | Some t \<Rightarrow> upd_toast i (enqueue ShowFx)
          (stop_fx i (s\<lparr>timers := filter (\<lambda>(n, j). Some n \<noteq> t_interval t) (timers s)\<rparr>)))"

section \<open>Calls\<close>

definition notify :: "toast_map \<Rightarrow> toastr \<Rightarrow> toastr" where
  "notify m s =
     (let options = ts_options s
      in if preventDuplicates options \<and> m_message m = previousToast s then s
         else (let s = (if preventDuplicates options then s\<lparr>previousToast := m_message m\<rparr> else s);
                   opts = (case m_override m of None \<Rightarrow> options | Some (f, c) \<Rightarrow> f options);
                   icon = (case m_override m of None \<Rightarrow> icon_of (m_type m)
                           | Some (f, c) \<Rightarrow> if c \<noteq> [] then c else icon_of (m_type m));
                   i = toastId s + 1;
                   s = getContainer True (s\<lparr>toastId := i\<rparr>);
                   t = \<lparr>t_id = i, t_map = m, t_opts = opts, t_class = icon, t_display = False, t_running = [], t_queue = [],
                        t_busy = False, t_live = True, t_interval = None, t_hidden = False\<rparr>;
                   s = (case container s of
                          Cont c \<Rightarrow> s\<lparr>kids := (kids s)(c := if newestOnTop opts then i # kids s c else kids s c @ [i]),
                                      toasts := (toasts s)(i \<mapsto> start_fx ShowFx t)\<rparr>
                        | _ \<Rightarrow> s);
                   s = (if timeOut opts > 0 then set_timer i s else s)
               in publish i False s))"

definition clearToast :: "nat \<Rightarrow> toastr \<Rightarrow> bool \<times> toastr" where
  "clearToast i s = (if ts_focus s = Some i then (False, s) else (True, upd_toast i (enqueue ClearFx) s))"

definition clearContainer :: "toastr \<Rightarrow> toastr" where
  "clearContainer s = fold (\<lambda>i s. snd (clearToast i s)) (rev (children s)) s"

definition clear :: "nat option \<Rightarrow> toastr \<Rightarrow> toastr" where
  "clear el s =
     (let s = ensure_container s
      in case el of
           None \<Rightarrow> clearContainer s
         | Some i \<Rightarrow> (let (done, s) = clearToast i s in if done then s else clearContainer s))"

definition remove :: "nat option \<Rightarrow> toastr \<Rightarrow> toastr" where
  "remove el s =
     (let s = ensure_container s; all = (if children s \<noteq> [] then remove_container s else s)
      in case el of None \<Rightarrow> all | Some i \<Rightarrow> if ts_focus s \<noteq> Some i then removeToast i s else all)"

section \<open>Events\<close>

definition live :: "nat \<Rightarrow> toastr \<Rightarrow> bool" where
  "live i s = (in_page i s \<and> (case toasts s i of None \<Rightarrow> False | Some t \<Rightarrow> t_live t))"

definition toast_click :: "nat \<Rightarrow> toastr \<Rightarrow> toastr" where
  "toast_click i s =
     (case toasts s i of
        None \<Rightarrow> s
      | Some t \<Rightarrow>
          if \<not> live i s then s
          else if has_onclick (t_opts t) then hideToast False i (s\<lparr>ts_log := ts_log s @ [OnClick i]\<rparr>)
          else if tapToDismiss (t_opts t) then hideToast True i s else s)"

definition close_click :: "nat \<Rightarrow> toastr \<Rightarrow> toastr" where
  "close_click i s =
     (case toasts s i of
        None \<Rightarrow> s
      | Some t \<Rightarrow> if live i s \<and> closeButton (t_opts t) then hideToast True i s else s)"

text \<open>The mouse is over one toast at a time, and leaves it before it enters another.\<close>

datatype toast_action =
    Notify toast_map | Clear "nat option" | RemoveToasts "nat option" | TimerFires nat | FxEnds nat nat
  | MouseEnter nat | MouseLeave nat | ToastClick nat | CloseClick nat | FocusIn nat | FocusOut

fun toastr_step :: "toastr \<Rightarrow> toast_action \<Rightarrow> toastr" where
  "toastr_step s (Notify m) = notify m s"
| "toastr_step s (Clear el) = clear el s"
| "toastr_step s (RemoveToasts el) = remove el s"
| "toastr_step s (TimerFires n) =
     (case map_of (timers s) n of
        None \<Rightarrow> s | Some i \<Rightarrow> hideToast False i (s\<lparr>timers := filter (\<lambda>(m, j). m \<noteq> n) (timers s)\<rparr>))"
| "toastr_step s (FxEnds i k) = finish_fx i k s"
| "toastr_step s (MouseEnter i) =
     (if live i s \<and> (case ts_mouse s of None \<Rightarrow> True | Some k \<Rightarrow> \<not> live k s)
      then stickAround i (s\<lparr>ts_mouse := Some i\<rparr>) else s)"
| "toastr_step s (MouseLeave i) =
     (if live i s \<and> ts_mouse s = Some i then delayedHideToast i (s\<lparr>ts_mouse := None\<rparr>) else s)"
| "toastr_step s (ToastClick i) = toast_click i s"
| "toastr_step s (CloseClick i) = close_click i s"
| "toastr_step s (FocusIn i) = (if in_page i s then s\<lparr>ts_focus := Some i\<rparr> else s)"
| "toastr_step s FocusOut = s\<lparr>ts_focus := None\<rparr>"

definition toastr_run :: "toast_action list \<Rightarrow> toastr \<Rightarrow> toastr" where
  "toastr_run as s = foldl toastr_step s as"

section \<open>The invariant\<close>

definition fx_ok :: "toast \<Rightarrow> bool" where
  "fx_ok t \<longleftrightarrow> (t_queue t \<noteq> [] \<longrightarrow> t_busy t) \<and> (t_busy t \<longrightarrow> t_running t \<noteq> [])"

definition hiding :: "toast \<Rightarrow> bool" where
  "hiding t \<longleftrightarrow> (\<exists>f\<in>set (t_running t @ t_queue t). f \<noteq> ShowFx)"

text \<open>What takes a toast away by itself; under the mouse it stays.\<close>

definition ways :: "toastr \<Rightarrow> nat \<Rightarrow> toast \<Rightarrow> bool" where
  "ways s j t \<longleftrightarrow> ts_mouse s = Some j \<or> (\<exists>n. (n, j) \<in> set (timers s)) \<or> hiding t"

definition cont_ok :: "toastr \<Rightarrow> bool" where
  "cont_ok s \<longleftrightarrow> (\<forall>c. page_container s = Some c \<longrightarrow> container s = Cont c \<and> kids s c \<noteq> [] \<and> c < containers s) \<and>
     (\<forall>c. containers s \<le> c \<longrightarrow> kids s c = []) \<and> (\<forall>c. \<forall>j\<in>set (kids s c). toasts s j \<noteq> None)"

definition timers_ok :: "toastr \<Rightarrow> bool" where
  "timers_ok s \<longleftrightarrow> distinct (map fst (timers s)) \<and> (\<forall>(n, j)\<in>set (timers s). n < timer_ids s) \<and>
     (\<forall>j t n i. toasts s j = Some t \<longrightarrow> t_interval t = Some n \<longrightarrow> n < timer_ids s \<and> ((n, i) \<in> set (timers s) \<longrightarrow> i = j))"

definition toasts_ok :: "toastr \<Rightarrow> bool" where
  "toasts_ok s \<longleftrightarrow> (\<forall>j t. toasts s j = Some t \<longrightarrow> fx_ok t \<and> j \<le> toastId s) \<and>
     (\<forall>j t. in_page j s \<longrightarrow> toasts s j = Some t \<longrightarrow> t_live t \<and> (0 < timeOut (t_opts t) \<longrightarrow> ways s j t))"

definition toastr_inv :: "toastr \<Rightarrow> bool" where
  "toastr_inv s \<longleftrightarrow> cont_ok s \<and> timers_ok s \<and> toasts_ok s \<and> ts_focus s = None"

lemmas inv_defs = toastr_inv_def cont_ok_def timers_ok_def toasts_ok_def

lemma new_toastr_inv: "toastr_inv (new_toastr opts)"
  by (simp add: inv_defs new_toastr_def in_page_def)

text \<open>Changes of one toast.\<close>

lemma upd_toast_simps [simp]:
  "page_container (upd_toast i f s) = page_container s" "container (upd_toast i f s) = container s" "kids (upd_toast i f s) = kids s"
  "containers (upd_toast i f s) = containers s" "timers (upd_toast i f s) = timers s" "timer_ids (upd_toast i f s) = timer_ids s"
  "ts_focus (upd_toast i f s) = ts_focus s" "ts_mouse (upd_toast i f s) = ts_mouse s" "toastId (upd_toast i f s) = toastId s"
  "ts_options (upd_toast i f s) = ts_options s" "ts_log (upd_toast i f s) = ts_log s"
  "in_page j (upd_toast i f s) = in_page j s" "children (upd_toast i f s) = children s"
  by (simp_all add: upd_toast_def in_page_def children_def split: option.split cref.split)

lemma toasts_upd: "toasts (upd_toast i f s) j = (if j = i then map_option f (toasts s i) else toasts s j)"
  by (simp add: upd_toast_def split: option.split)

lemma cont_upd [simp]: "cont_ok (upd_toast i f s) = cont_ok s"
proof -
  have "toasts (upd_toast i f s) j = None \<longleftrightarrow> toasts s j = None" for j by (simp add: toasts_upd)
  then show ?thesis by (simp add: cont_ok_def)
qed

lemma log_simps [simp]: "cont_ok (s\<lparr>ts_log := l\<rparr>) = cont_ok s" "in_page j (s\<lparr>ts_log := l\<rparr>) = in_page j s"
  by (simp_all add: cont_ok_def in_page_def split: option.split)

lemma upd_inv:
  assumes "toastr_inv s"
    and "\<And>t. toasts s i = Some t \<Longrightarrow> fx_ok t \<Longrightarrow> fx_ok (f t) \<and> t_opts (f t) = t_opts t \<and> t_interval (f t) = t_interval t \<and> (in_page i s \<longrightarrow> (hiding t \<longrightarrow> hiding (f t) \<or> ts_mouse s = Some i) \<and> (t_live t \<longrightarrow> t_live (f t)))"
  shows "toastr_inv (upd_toast i f s)"
proof -
  have c: "cont_ok (upd_toast i f s)" using assms(1) by (auto simp: toastr_inv_def cont_ok_def toasts_upd)
  have t: "timers_ok (upd_toast i f s)"
    unfolding timers_ok_def
  proof (intro conjI allI impI)
    fix j t n k assume a: "toasts (upd_toast i f s) j = Some t" "t_interval t = Some n"
    obtain u where "toasts s j = Some u" "t_interval u = Some n"
    proof (cases "j = i")
      case True
      then obtain u where u: "toasts s i = Some u" "t = f u" using a(1) by (auto simp: toasts_upd)
      moreover from u have "fx_ok u" using assms(1) by (auto simp: inv_defs)
      ultimately show ?thesis using assms(2) [OF u(1)] a(2) True that by auto
    qed (use a that in \<open>simp add: toasts_upd\<close>)
    then have "n < timer_ids s \<and> (\<forall>k. (n, k) \<in> set (timers s) \<longrightarrow> k = j)" using assms(1) by (auto simp: inv_defs)
    then show "n < timer_ids (upd_toast i f s)" "(n, k) \<in> set (timers (upd_toast i f s)) \<Longrightarrow> k = j" by auto
  qed (use assms(1) in \<open>simp_all add: toastr_inv_def timers_ok_def\<close>)
  have "toasts_ok (upd_toast i f s)"
    unfolding toasts_ok_def
  proof (intro conjI allI impI)
    fix j t assume a: "toasts (upd_toast i f s) j = Some t"
    obtain u where u: "toasts s j = Some u" "t = (if j = i then f u else u)" using a by (auto simp: toasts_upd split: if_splits)
    then have ok: "fx_ok u" "j \<le> toastId s" using assms(1) by (auto simp: inv_defs)
    then have f: "j = i \<Longrightarrow> fx_ok (f u) \<and> t_opts (f u) = t_opts u \<and> (in_page i s \<longrightarrow> (hiding u \<longrightarrow> hiding (f u) \<or> ts_mouse s = Some i) \<and> (t_live u \<longrightarrow> t_live (f u)))" using assms(2) [of u] u(1) by auto
    show "fx_ok t" "j \<le> toastId (upd_toast i f s)" using ok f u(2) by auto
    assume p: "in_page j (upd_toast i f s)"
    have "t_live u" using assms(1) u(1) p by (auto simp: inv_defs)
    then show "t_live t" using f u(2) p by auto
    assume p': "0 < timeOut (t_opts t)"
    with p have "ways s j u" using assms(1) u f by (auto simp: inv_defs split: if_splits)
    then show "ways (upd_toast i f s) j t" using f u(2) p by (auto simp: ways_def)
  qed
  with c t assms(1) show ?thesis by (simp add: toastr_inv_def)
qed

lemma enqueue_keeps:
  "fx_ok t \<Longrightarrow> fx_ok (enqueue f t) \<and> t_opts (enqueue f t) = t_opts t \<and> t_interval (enqueue f t) = t_interval t \<and> (hiding t \<longrightarrow> hiding (enqueue f t)) \<and> t_live (enqueue f t) = t_live t"
  by (auto simp: enqueue_def start_fx_def fx_ok_def hiding_def)

lemma dequeue_keeps:
  "t_opts (dequeue t) = t_opts t" "t_interval (dequeue t) = t_interval t" "t_live (dequeue t) = t_live t" "hiding (dequeue t) = hiding t"
  "set (t_running (dequeue t) @ t_queue (dequeue t)) = set (t_running t @ t_queue t)"
  by (auto simp: dequeue_def start_fx_def hiding_def split: list.split)

lemma dequeue_ok: "fx_ok (dequeue t)"
  by (auto simp: dequeue_def start_fx_def fx_ok_def split: list.split)

lemma clean_keeps: "t_opts (clean t) = t_opts t" "t_interval (clean t) = t_interval t" "fx_ok (clean t)"
  by (simp_all add: clean_def fx_ok_def)

lemma enqueue_inv: "toastr_inv s \<Longrightarrow> toastr_inv (upd_toast i (enqueue f) s)"
  by (erule upd_inv) (simp add: enqueue_keeps)

text \<open>Fewer elements in the page.\<close>

lemma shrink_inv:
  assumes "toastr_inv s" "cont_ok s'" "timers s' = timers s" "timer_ids s' = timer_ids s" "ts_focus s' = None"
    and "ts_mouse s' = ts_mouse s" "toastId s' = toastId s"
    and "\<And>j t'. toasts s' j = Some t' \<Longrightarrow> \<exists>t. toasts s j = Some t \<and> t_opts t' = t_opts t \<and> t_interval t' = t_interval t \<and>
      fx_ok t' \<and> (in_page j s' \<longrightarrow> in_page j s \<and> (hiding t \<longrightarrow> hiding t') \<and> (t_live t \<longrightarrow> t_live t'))"
  shows "toastr_inv s'"
proof -
  have "timers_ok s'" unfolding timers_ok_def
  proof (intro conjI allI impI)
    fix j t' n k assume "toasts s' j = Some t'" "t_interval t' = Some n"
    with assms(8) obtain t where "toasts s j = Some t" "t_interval t = Some n" by metis
    then have "n < timer_ids s \<and> ((n, k) \<in> set (timers s) \<longrightarrow> k = j)" using assms(1) by (auto simp: toastr_inv_def timers_ok_def)
    then show "n < timer_ids s'" "(n, k) \<in> set (timers s') \<Longrightarrow> k = j" using assms(3,4) by auto
  qed (use assms(1,3,4) in \<open>simp_all add: toastr_inv_def timers_ok_def\<close>)
  moreover have "toasts_ok s'" unfolding toasts_ok_def
  proof (intro conjI allI impI)
    fix j t' assume "toasts s' j = Some t'"
    with assms(8) obtain t where t: "toasts s j = Some t" "t_opts t' = t_opts t" "fx_ok t'"
      "in_page j s' \<longrightarrow> in_page j s \<and> (hiding t \<longrightarrow> hiding t') \<and> (t_live t \<longrightarrow> t_live t')" by metis
    then show "fx_ok t'" "j \<le> toastId s'" using assms(1,7) by (auto simp: toastr_inv_def toasts_ok_def)
    assume p: "in_page j s'"
    then show "t_live t'" using assms(1) t by (auto simp: toastr_inv_def toasts_ok_def)
    assume "0 < timeOut (t_opts t')"
    with p have "ways s j t" "hiding t \<longrightarrow> hiding t'" using assms(1) t by (auto simp: toastr_inv_def toasts_ok_def)
    then show "ways s' j t'" using assms(3,6) by (auto simp: ways_def)
  qed
  ultimately show ?thesis using assms(2,5) by (simp add: toastr_inv_def)
qed

lemma fold_clean:
  "page_container (fold (\<lambda>i. upd_toast i clean) is s) = page_container s" "container (fold (\<lambda>i. upd_toast i clean) is s) = container s"
  "kids (fold (\<lambda>i. upd_toast i clean) is s) = kids s" "containers (fold (\<lambda>i. upd_toast i clean) is s) = containers s"
  "timers (fold (\<lambda>i. upd_toast i clean) is s) = timers s" "timer_ids (fold (\<lambda>i. upd_toast i clean) is s) = timer_ids s"
  "ts_mouse (fold (\<lambda>i. upd_toast i clean) is s) = ts_mouse s" "toastId (fold (\<lambda>i. upd_toast i clean) is s) = toastId s"
  by (induction "is" arbitrary: s) simp_all

lemma fold_clean_toasts:
  "toasts (fold (\<lambda>i. upd_toast i clean) is s) j = (if j \<in> set is then map_option clean (toasts s j) else toasts s j)"
proof (induction "is" arbitrary: s)
  case (Cons i "is")
  then show ?case by (auto simp: toasts_upd option.map_comp o_def clean_def cong: map_option_cong)
qed simp

lemma remove_container_inv:
  assumes "toastr_inv s" shows "toastr_inv (remove_container s)"
proof (cases "container s")
  case (Cont c)
  then have s: "page_container (remove_container s) = None" "toastr_inv s"
    using assms by (cases "page_container s"; auto simp: remove_container_def toastr_inv_def cont_ok_def)+
  show ?thesis
  proof (rule shrink_inv [OF assms])
    show "cont_ok (remove_container s)" using assms s(1) Cont
      by (auto simp: inv_defs remove_container_def fold_clean fold_clean_toasts)
    fix j t' assume "toasts (remove_container s) j = Some t'"
    then have "toasts s j = Some t' \<or> (\<exists>t. toasts s j = Some t \<and> t' = clean t)"
      using Cont by (auto simp: remove_container_def fold_clean_toasts split: if_splits)
    moreover have "\<not> in_page j (remove_container s)" using s(1) by (simp add: in_page_def)
    ultimately show "\<exists>t. toasts s j = Some t \<and> t_opts t' = t_opts t \<and> t_interval t' = t_interval t \<and>
        fx_ok t' \<and> (in_page j (remove_container s) \<longrightarrow> in_page j s \<and> (hiding t \<longrightarrow> hiding t') \<and> (t_live t \<longrightarrow> t_live t'))"
      using assms by (auto simp: clean_keeps inv_defs)
  qed (use assms Cont in \<open>simp_all add: remove_container_def fold_clean toastr_inv_def\<close>)
qed (use assms in \<open>simp_all add: remove_container_def\<close>)

lemma ensure_cases:
  "cont_ok s \<Longrightarrow> ensure_container s = s \<or> page_container s = None \<and> ensure_container s = s\<lparr>container := EmptyResult\<rparr>"
  by (cases "page_container s") (auto simp: ensure_container_def getContainer_def cont_ok_def)

lemma ensure_simps [simp]: "kids (ensure_container s) = kids s" "toasts (ensure_container s) = toasts s" "timers (ensure_container s) = timers s"
  "timer_ids (ensure_container s) = timer_ids s" "ts_focus (ensure_container s) = ts_focus s" "ts_mouse (ensure_container s) = ts_mouse s"
  "toastId (ensure_container s) = toastId s" "page_container (ensure_container s) = page_container s" "containers (ensure_container s) = containers s"
  by (simp_all add: ensure_container_def getContainer_def split: option.split)

lemma ensure_page [simp]: "in_page j (ensure_container s) = in_page j s" "is_visible j (ensure_container s) = is_visible j s"
  by (simp_all add: in_page_def is_visible_def split: option.split)

lemma ensure_cont: "cont_ok s \<Longrightarrow> cont_ok (ensure_container s)"
  using ensure_cases [of s] by (auto simp: cont_ok_def)

lemma ensure_inv: "toastr_inv s \<Longrightarrow> toastr_inv (ensure_container s)"
  by (simp add: toastr_inv_def ensure_cont timers_ok_def toasts_ok_def ways_def)

lemma removed_element:
  assumes "cont_ok s" "ts_focus s = None"
  shows "(\<forall>c. containers s \<le> c \<longrightarrow> kids (remove_element i s) c = [])"
    "toasts (remove_element i s) j = (if j = i then map_option clean (toasts s i) else toasts s j)"
    "kids (remove_element i s) c = filter (\<lambda>j. j \<noteq> i) (kids s c)" "ts_focus (remove_element i s) = None"
    "container (remove_element i s) = container s" "page_container (remove_element i s) = page_container s"
    "timers (remove_element i s) = timers s" "timer_ids (remove_element i s) = timer_ids s" "ts_mouse (remove_element i s) = ts_mouse s"
    "toastId (remove_element i s) = toastId s" "containers (remove_element i s) = containers s"
  using assms by (simp_all add: remove_element_def toasts_upd cont_ok_def)

lemma empty_container_removed:
  assumes "children s = []" "ts_focus s = None"
  shows "remove_container s = s\<lparr>page_container := if Cont (the (page_container s)) = container s then None else page_container s\<rparr>"
  using assms by (cases "container s"; cases "page_container s") (auto simp: remove_container_def children_def)

lemma removeToast_effect:
  assumes "cont_ok s" "ts_focus s = None" "\<not> is_visible i s"
  defines "s' \<equiv> removeToast i s"
  shows "cont_ok s'" "\<not> in_page i s'" "in_page j s' \<longrightarrow> in_page j s"
    "toasts s' j = (if j = i then map_option clean (toasts s i) else toasts s j)" "ts_focus s' = None"
    "timers s' = timers s" "timer_ids s' = timer_ids s" "ts_mouse s' = ts_mouse s" "toastId s' = toastId s"
proof -
  let ?e = "ensure_container s" let ?r = "remove_element i ?e"
  note r = removed_element [OF ensure_cont [OF assms(1)], of i]
  have f: "ts_focus ?e = None" using assms(2) by simp
  have s': "s' = (if children ?r = [] then ?r\<lparr>page_container := if Cont (the (page_container s)) = container ?e then None else page_container s\<rparr> else ?r)"
    using assms(3) empty_container_removed [of ?r] r(4,5,6) [OF f] by (simp add: s'_def removeToast_def Let_def)
  have e: "cont_ok ?e" by (rule ensure_cont [OF assms(1)])
  show "cont_ok s'"
  proof (cases "page_container s")
    case None
    then show ?thesis using e r [OF f] by (auto simp: s' cont_ok_def)
  next
    case (Some c)
    then have c: "container ?e = Cont c" "c < containers s" using e by (auto simp: cont_ok_def)
    have "children ?r = filter (\<lambda>j. j \<noteq> i) (kids s c)" using c r(3,5) [OF f] by (simp add: children_def)
    then show ?thesis using e r [OF f] c Some by (auto simp: s' cont_ok_def)
  qed
  show "\<not> in_page i s'" "in_page j s' \<longrightarrow> in_page j s" using r(3,6) [OF f] by (auto simp: s' in_page_def split: option.splits if_splits)
  show "toasts s' j = (if j = i then map_option clean (toasts s i) else toasts s j)" "ts_focus s' = None"
    "timers s' = timers s" "timer_ids s' = timer_ids s" "ts_mouse s' = ts_mouse s" "toastId s' = toastId s"
    using r [OF f] by (simp_all add: s')
qed

lemma removeToast_inv:
  assumes "toastr_inv s" shows "toastr_inv (removeToast i s)"
proof (cases "is_visible i s")
  case True
  then show ?thesis using ensure_inv [OF assms] by (simp add: removeToast_def Let_def)
next
  case False
  have s: "cont_ok s" "ts_focus s = None" using assms by (simp_all add: toastr_inv_def)
  note e = removeToast_effect [OF s False]
  show ?thesis
  proof (rule shrink_inv [OF assms e(1,6,7,5,8,9)])
    fix j t' assume t': "toasts (removeToast i s) j = Some t'"
    show "\<exists>t. toasts s j = Some t \<and> t_opts t' = t_opts t \<and> t_interval t' = t_interval t \<and> fx_ok t' \<and>
        (in_page j (removeToast i s) \<longrightarrow> in_page j s \<and> (hiding t \<longrightarrow> hiding t') \<and> (t_live t \<longrightarrow> t_live t'))"
    proof (cases "j = i")
      case True
      then obtain t where "toasts s i = Some t" "t' = clean t" using t' e(4) [of j] by (cases "toasts s i") auto
      then show ?thesis using True e(2) by (simp add: clean_keeps)
    next
      case False
      then show ?thesis using t' e(3,4) [of j] assms by (auto simp: toastr_inv_def toasts_ok_def)
    qed
  qed
qed

text \<open>The end of an animation.\<close>

definition after_fx :: "fx \<Rightarrow> nat \<Rightarrow> toast \<Rightarrow> toast" where
  "after_fx f k t = t\<lparr>t_running := take k (t_running t) @ drop (k + 1) (t_running t), t_display := f = ShowFx \<and> t_display t\<rparr>"

lemma finish_fx_eq:
  assumes "toasts s i = Some t" "k < length (t_running t)"
  shows "finish_fx i k s = upd_toast i dequeue (fx_complete (t_running t ! k) i (upd_toast i (after_fx (t_running t ! k) k) s))"
  using assms by (simp add: finish_fx_def Let_def after_fx_def [abs_def])

lemma hide_complete_effect:
  assumes "f \<noteq> ShowFx" "cont_ok s" "ts_focus s = None" "\<not> is_visible i s"
  defines "s' \<equiv> fx_complete f i s"
  shows "cont_ok s'" "\<not> in_page i s'" "in_page j s' \<longrightarrow> in_page j s" "ts_focus s' = None"
    "timers s' = timers s" "timer_ids s' = timer_ids s" "ts_mouse s' = ts_mouse s" "toastId s' = toastId s"
    "j \<noteq> i \<Longrightarrow> toasts s' j = toasts s j"
    "toasts s i = Some t \<Longrightarrow> \<exists>h. toasts s' i = Some ((clean t)\<lparr>t_hidden := h\<rparr>)"
proof -
  let ?r = "removeToast i s"
  note e = removeToast_effect [OF assms(2-4)]
  have clear: "s' = ?r" if "f = ClearFx" using that by (simp add: s'_def fx_complete_def)
  have none: "s' = ?r" if "toasts s i = None" using that e(4) [of i] assms(1) by (cases f) (simp_all add: s'_def fx_complete_def Let_def)
  have hide: "\<exists>l. s' = (upd_toast i (\<lambda>t. t\<lparr>t_hidden := True\<rparr>) ?r)\<lparr>ts_log := l\<rparr>" if "f = HideFx" "toasts s i = Some t" for t
    using that e(4) [of i] by (auto simp: s'_def fx_complete_def publish_def upd_toast_def Let_def)
  have id: "(upd_toast i (\<lambda>t. t) u)\<lparr>ts_log := ts_log u\<rparr> = u" for u by (simp add: upd_toast_def fun_upd_idem split: option.split)
  have "\<exists>g l. s' = (upd_toast i g ?r)\<lparr>ts_log := l\<rparr>"
    using clear none hide id [of ?r, symmetric] assms(1) by (cases f; cases "toasts s i") blast+
  then obtain g l where s': "s' = (upd_toast i g ?r)\<lparr>ts_log := l\<rparr>" by blast
  show "cont_ok s'" "\<not> in_page i s'" "ts_focus s' = None"
    "timers s' = timers s" "timer_ids s' = timer_ids s" "ts_mouse s' = ts_mouse s" "toastId s' = toastId s"
    using e(1,2,5-9) by (simp_all add: s')
  show "in_page j s' \<longrightarrow> in_page j s" using e(3) [of j] by (simp add: s')
  show "j \<noteq> i \<Longrightarrow> toasts s' j = toasts s j" using e(4) [of j] by (simp add: s' toasts_upd)
  show "\<exists>h. toasts s' i = Some ((clean t)\<lparr>t_hidden := h\<rparr>)" if t: "toasts s i = Some t"
  proof -
    have r: "toasts ?r i = Some (clean t)" using e(4) [of i] t by simp
    show ?thesis
    proof (cases f)
      case HideFx
      then obtain l where "s' = (upd_toast i (\<lambda>t. t\<lparr>t_hidden := True\<rparr>) ?r)\<lparr>ts_log := l\<rparr>" using hide t by blast
      then show ?thesis using r by (intro exI [of _ True]) (simp add: toasts_upd)
    next
      case ClearFx
      then show ?thesis using clear r by (intro exI [of _ "t_hidden t"]) (simp add: clean_def)
    qed (use assms(1) in simp)
  qed
qed

lemma finish_fx_inv:
  assumes "toastr_inv s" shows "toastr_inv (finish_fx i k s)"
proof (cases "\<exists>t. toasts s i = Some t \<and> k < length (t_running t)")
  case True
  then obtain t where t: "toasts s i = Some t" "k < length (t_running t)" by blast
  let ?f = "t_running t ! k" and ?u = "upd_toast i (after_fx (t_running t ! k) k) s"
  have fin: "finish_fx i k s = upd_toast i dequeue (fx_complete ?f i ?u)" by (rule finish_fx_eq [OF t])
  show ?thesis
  proof (cases "?f = ShowFx")
    case True
    have "upd_toast i dequeue (upd_toast i g s) = upd_toast i (\<lambda>t. dequeue (g t)) s" for g by (simp add: upd_toast_def split: option.split)
    then have eq: "finish_fx i k s = upd_toast i (\<lambda>t. dequeue (after_fx ShowFx k t)) s"
      using True fin by (simp add: fx_complete_def)
    have "t_running t = take k (t_running t) @ ?f # drop (k + 1) (t_running t)" using t(2) by (simp add: id_take_nth_drop)
    then have "set (t_running t) \<subseteq> insert ShowFx (set (take k (t_running t) @ drop (k + 1) (t_running t)))"
      using True by (metis Un_insert_right insert_iff list.set(2) set_append subsetI)
    then have "hiding t \<Longrightarrow> hiding (after_fx ShowFx k t)" by (auto simp: hiding_def after_fx_def)
    then show ?thesis unfolding eq using t(1) by (intro upd_inv [OF assms]) (auto simp: dequeue_keeps dequeue_ok, simp_all add: after_fx_def)
  next
    case False
    have u: "cont_ok ?u" "ts_focus ?u = None" "\<not> is_visible i ?u"
      using assms False by (auto simp: toastr_inv_def cont_ok_def toasts_upd is_visible_def after_fx_def split: option.splits)
    note e = hide_complete_effect [OF False u]
    let ?s' = "fx_complete ?f i ?u"
    show ?thesis unfolding fin
    proof (rule shrink_inv [OF assms])
      show "cont_ok (upd_toast i dequeue ?s')" using e(1) by (auto simp: cont_ok_def toasts_upd)
      fix j t' assume t': "toasts (upd_toast i dequeue ?s') j = Some t'"
      show "\<exists>t. toasts s j = Some t \<and> t_opts t' = t_opts t \<and> t_interval t' = t_interval t \<and> fx_ok t' \<and>
        (in_page j (upd_toast i dequeue ?s') \<longrightarrow> in_page j s \<and> (hiding t \<longrightarrow> hiding t') \<and> (t_live t \<longrightarrow> t_live t'))"
      proof (cases "j = i")
        case True
        obtain h where "toasts ?s' i = Some ((clean (after_fx ?f k t))\<lparr>t_hidden := h\<rparr>)"
          using e(10) [of "after_fx ?f k t"] t(1) by (auto simp: toasts_upd)
        then have "t' = dequeue ((clean (after_fx ?f k t))\<lparr>t_hidden := h\<rparr>)" using t' True by (simp add: toasts_upd)
        then show ?thesis using t(1) True e(2) by (simp add: dequeue_keeps dequeue_ok clean_keeps) (simp add: clean_def after_fx_def)
      next
        case False
        then have "toasts s j = Some t'" using t' e(9) [of j] by (simp add: toasts_upd)
        then show ?thesis using e(3) [of j] assms by (auto simp: toastr_inv_def toasts_ok_def)
      qed
    qed (use e assms in \<open>simp_all add: toastr_inv_def\<close>)
  qed
qed (use assms in \<open>auto simp: finish_fx_def split: option.split\<close>)

lemma finish_many_inv: "toastr_inv s \<Longrightarrow> toastr_inv (fold (\<lambda>k. finish_fx i k) ks s)"
  by (induction ks arbitrary: s) (auto simp: finish_fx_inv)

lemma stop_inv:
  assumes "toastr_inv s" "ts_mouse s = Some i" shows "toastr_inv (stop_fx i s)"
proof (cases "toasts s i")
  case (Some t)
  have "toastr_inv (upd_toast i (\<lambda>t. t\<lparr>t_queue := [], t_busy := False\<rparr>) s)"
    by (rule upd_inv [OF assms(1)]) (use assms(2) in \<open>auto simp: fx_ok_def\<close>)
  then show ?thesis using Some by (simp add: stop_fx_def finish_many_inv)
qed (simp add: stop_fx_def assms)

text \<open>Timers and the mouse.\<close>

lemma timer_gone_inv:
  assumes "toastr_inv s" "\<And>n j. (n, j) \<in> set (timers s) \<Longrightarrow> \<not> P n \<Longrightarrow> j = i"
    and "\<And>t. toasts s i = Some t \<Longrightarrow> ts_mouse s = Some i \<or> hiding t"
  shows "toastr_inv (s\<lparr>timers := filter (\<lambda>(n, j). P n) (timers s)\<rparr>)"
proof -
  let ?s = "s\<lparr>timers := filter (\<lambda>(n, j). P n) (timers s)\<rparr>"
  have page: "in_page j ?s = in_page j s" for j by (simp add: in_page_def split: option.split)
  have "cont_ok ?s" using assms(1) by (simp add: toastr_inv_def cont_ok_def)
  moreover have "timers_ok ?s" using assms(1) by (auto simp: toastr_inv_def timers_ok_def intro: distinct_map_filter)
  moreover have "ways ?s j t" if "ways s j t" "toasts s j = Some t" for j t
  proof (cases "j = i")
    case False
    then have "(n, j) \<in> set (timers s) \<Longrightarrow> P n" for n using assms(2) by blast
    then show ?thesis using that(1) by (auto simp: ways_def)
  qed (use assms(3) that(2) in \<open>auto simp: ways_def\<close>)
  then have "toasts_ok ?s" using assms(1) unfolding toastr_inv_def toasts_ok_def page by (simp; blast)
  ultimately show ?thesis using assms(1) by (simp add: toastr_inv_def)
qed

lemma toast_mouse_inv:
  assumes "toastr_inv s" "case ts_mouse s of None \<Rightarrow> True | Some k \<Rightarrow> \<not> live k s"
  shows "toastr_inv (s\<lparr>ts_mouse := Some i\<rparr>)"
proof -
  let ?s = "s\<lparr>ts_mouse := Some i\<rparr>"
  have page: "in_page j ?s = in_page j s" for j by (simp add: in_page_def split: option.split)
  have "cont_ok ?s" "timers_ok ?s" using assms(1) by (simp_all add: toastr_inv_def cont_ok_def timers_ok_def)
  moreover have "ts_mouse s \<noteq> Some j" if "in_page j s" "toasts s j = Some t" for j t
  proof
    assume "ts_mouse s = Some j"
    moreover have "t_live t" using assms(1) that by (auto simp: toastr_inv_def toasts_ok_def)
    ultimately show False using assms(2) that by (simp add: live_def)
  qed
  then have "toasts_ok ?s" using assms(1) unfolding toastr_inv_def toasts_ok_def page ways_def by (simp; blast)
  ultimately show ?thesis using assms(1) by (simp add: toastr_inv_def)
qed

lemma stick_inv:
  assumes "toastr_inv s" "ts_mouse s = Some i" shows "toastr_inv (stickAround i s)"
proof (cases "toasts s i")
  case (Some t)
  let ?s = "s\<lparr>timers := filter (\<lambda>(n, j). Some n \<noteq> t_interval t) (timers s)\<rparr>"
  have "j = i" if j: "(n, j) \<in> set (timers s)" "\<not> Some n \<noteq> t_interval t" for n j
  proof -
    have "t_interval t = Some n" using j(2) by simp
    then show ?thesis using assms(1) Some j(1) by (auto simp: toastr_inv_def timers_ok_def)
  qed
  then have "toastr_inv ?s" by (rule timer_gone_inv [OF assms(1)]) (simp_all add: assms(2))
  then have "toastr_inv (stop_fx i ?s)" by (rule stop_inv) (simp add: assms(2))
  then show ?thesis using Some by (simp add: stickAround_def enqueue_inv)
qed (simp add: stickAround_def assms)

text \<open>All but the way out of one toast, which a timer provides.\<close>

definition inv_but :: "nat \<Rightarrow> toastr \<Rightarrow> bool" where
  "inv_but i s \<longleftrightarrow> cont_ok s \<and> timers_ok s \<and> ts_focus s = None \<and> (\<forall>j t. toasts s j = Some t \<longrightarrow> fx_ok t \<and> j \<le> toastId s) \<and>
     (\<forall>j t. in_page j s \<longrightarrow> toasts s j = Some t \<longrightarrow> t_live t \<and> (j \<noteq> i \<longrightarrow> 0 < timeOut (t_opts t) \<longrightarrow> ways s j t))"

lemma but_inv: "inv_but i s \<Longrightarrow> \<forall>t. toasts s i = Some t \<longrightarrow> \<not> 0 < timeOut (t_opts t) \<Longrightarrow> toastr_inv s"
  unfolding inv_but_def toastr_inv_def toasts_ok_def by blast

lemma set_timer_toasts: "toasts (set_timer i s) j = (if j = i then map_option (\<lambda>t. t\<lparr>t_interval := Some (timer_ids s)\<rparr>) (toasts s i) else toasts s j)"
  by (simp add: set_timer_def toasts_upd)

lemma set_timer_simps [simp]: "timers (set_timer i s) = timers s @ [(timer_ids s, i)]" "timer_ids (set_timer i s) = timer_ids s + 1"
  "cont_ok (set_timer i s) = cont_ok s" "ts_focus (set_timer i s) = ts_focus s" "ts_mouse (set_timer i s) = ts_mouse s"
  "toastId (set_timer i s) = toastId s" "in_page j (set_timer i s) = in_page j s"
proof -
  have "cont_ok (s\<lparr>timers := a, timer_ids := b\<rparr>) = cont_ok s" "in_page j (s\<lparr>timers := a, timer_ids := b\<rparr>) = in_page j s" for a b
    by (simp_all add: cont_ok_def in_page_def split: option.split)
  then show "cont_ok (set_timer i s) = cont_ok s" "in_page j (set_timer i s) = in_page j s" by (simp_all add: set_timer_def)
qed (simp_all add: set_timer_def)

lemma set_timer_inv:
  assumes "inv_but i s" shows "toastr_inv (set_timer i s)"
proof -
  let ?s = "set_timer i s"
  have upd: "\<exists>u. toasts s j = Some u \<and> t = (if j = i then u\<lparr>t_interval := Some (timer_ids s)\<rparr> else u)" if "toasts ?s j = Some t" for j t
    using that by (cases "j = i") (auto simp: set_timer_toasts)
  have old: "n < timer_ids s" if "(n, j) \<in> set (timers s)" for n j using assms that by (auto simp: inv_but_def timers_ok_def)
  have "timers_ok ?s" unfolding timers_ok_def
  proof (intro conjI allI impI)
    show "distinct (map fst (timers ?s))" using assms old by (force simp: inv_but_def timers_ok_def)
    show "\<forall>(n, j)\<in>set (timers ?s). n < timer_ids ?s" using old by (auto intro: less_SucI)
    fix j t n k assume a: "toasts ?s j = Some t" "t_interval t = Some n"
    from upd [OF a(1)] obtain u where u: "toasts s j = Some u" "t = (if j = i then u\<lparr>t_interval := Some (timer_ids s)\<rparr> else u)" by blast
    have b: "n < timer_ids s \<and> ((n, k) \<in> set (timers s) \<longrightarrow> k = j)" if "j \<noteq> i"
      using assms u a(2) that by (auto simp: inv_but_def timers_ok_def)
    show "n < timer_ids ?s" using b a(2) u(2) by (cases "j = i") auto
    show "k = j" if "(n, k) \<in> set (timers ?s)" using that b a(2) u(2) old [of n k] by (cases "j = i") auto
  qed
  moreover have "toasts_ok ?s" unfolding toasts_ok_def
  proof (intro conjI allI impI)
    fix j t assume a: "toasts ?s j = Some t"
    from upd [OF a] obtain u where u: "toasts s j = Some u" "t = (if j = i then u\<lparr>t_interval := Some (timer_ids s)\<rparr> else u)" by blast
    have "fx_ok u" "j \<le> toastId s" using assms u(1) by (auto simp: inv_but_def)
    then show "fx_ok t" "j \<le> toastId ?s" using u(2) by (auto simp: fx_ok_def)
    assume p: "in_page j ?s"
    then have "t_live u" "j \<noteq> i \<longrightarrow> 0 < timeOut (t_opts u) \<longrightarrow> ways s j u" using assms u(1) by (auto simp: inv_but_def)
    then show "t_live t" "0 < timeOut (t_opts t) \<Longrightarrow> ways ?s j t" using u(2) by (cases "j = i"; auto simp: ways_def)+
  qed
  ultimately show ?thesis using assms by (simp add: toastr_inv_def inv_but_def)
qed

lemma leave_inv:
  assumes "toastr_inv s" "ts_mouse s = Some i" shows "toastr_inv (delayedHideToast i (s\<lparr>ts_mouse := None\<rparr>))"
proof -
  let ?s = "s\<lparr>ts_mouse := None\<rparr>"
  have page: "in_page j ?s = in_page j s" for j by (simp add: in_page_def split: option.split)
  have "cont_ok ?s" "timers_ok ?s" using assms(1) by (simp_all add: toastr_inv_def cont_ok_def timers_ok_def)
  then have but: "inv_but i ?s" using assms unfolding inv_but_def toastr_inv_def toasts_ok_def page ways_def by (simp; blast)
  then show ?thesis using set_timer_inv [OF but] but_inv [OF but] by (auto simp: delayedHideToast_def split: option.split)
qed

text \<open>A new toast.\<close>

lemma getContainer_effect:
  assumes "cont_ok s"
  obtains c where "container (getContainer True s) = Cont c" "page_container (getContainer True s) = Some c"
    "c < containers (getContainer True s)" "\<forall>d. containers (getContainer True s) \<le> d \<longrightarrow> kids (getContainer True s) d = []"
    "kids (getContainer True s) = kids s" "\<forall>j. j \<in> set (kids s c) \<longrightarrow> in_page j s" "toasts (getContainer True s) = toasts s"
proof (cases "page_container s")
  case None
  have "(kids s)(containers s := []) = kids s" using assms by (auto simp: cont_ok_def)
  with None assms that [of "containers s"] show ?thesis by (simp add: getContainer_def cont_ok_def)
next
  case (Some c)
  with assms that [of c] show ?thesis by (simp add: getContainer_def cont_ok_def in_page_def)
qed

lemma getContainer_simps [simp]: "timers (getContainer b s) = timers s" "timer_ids (getContainer b s) = timer_ids s"
  "ts_focus (getContainer b s) = ts_focus s" "ts_mouse (getContainer b s) = ts_mouse s" "toastId (getContainer b s) = toastId s"
  by (simp_all add: getContainer_def split: option.split)

definition place_toast :: "nat \<Rightarrow> toast \<Rightarrow> bool \<Rightarrow> toastr \<Rightarrow> toastr" where
  "place_toast c t front s = s\<lparr>kids := (kids s)(c := if front then t_id t # kids s c else kids s c @ [t_id t]),
     toasts := (toasts s)(t_id t \<mapsto> start_fx ShowFx t)\<rparr>"

lemma place_but:
  assumes "toastr_inv s" "t_id t = Suc (toastId s)" "t_live t" "t_interval t = None" "t_running t = []" "t_queue t = []"
  defines "g \<equiv> getContainer True (s\<lparr>toastId := Suc (toastId s)\<rparr>)"
  shows "\<exists>c. container g = Cont c \<and> inv_but (t_id t) (place_toast c t front g)"
proof -
  let ?s = "s\<lparr>toastId := Suc (toastId s)\<rparr>"
  have "cont_ok ?s" using assms(1) by (simp add: toastr_inv_def cont_ok_def)
  then obtain c where c: "container g = Cont c" "page_container g = Some c" "c < containers g"
    "\<forall>d. containers g \<le> d \<longrightarrow> kids g d = []" "kids g = kids s" "\<forall>j. j \<in> set (kids s c) \<longrightarrow> in_page j ?s" "toasts g = toasts s"
    unfolding g_def by (rule getContainer_effect) auto
  have page: "in_page j ?s = in_page j s" for j by (simp add: in_page_def split: option.split)
  have same: "timers g = timers s" "timer_ids g = timer_ids s" "ts_focus g = None" "ts_mouse g = ts_mouse s" "toastId g = Suc (toastId s)"
    using assms(1) by (simp_all add: g_def toastr_inv_def)
  let ?p = "place_toast c t front g"
  have new: "toasts s (t_id t) = None" 
  proof (rule ccontr)
    assume "toasts s (t_id t) \<noteq> None"
    then have "t_id t \<le> toastId s" using assms(1) by (auto simp: toastr_inv_def toasts_ok_def)
    then show False by (simp add: assms(2))
  qed
  have toasts: "toasts ?p j = (if j = t_id t then Some (start_fx ShowFx t) else toasts s j)" for j
    by (simp add: place_toast_def c(7))
  have "cont_ok ?p" unfolding cont_ok_def toasts using assms(1) c(1-5)
    by (auto simp: place_toast_def toastr_inv_def cont_ok_def split: if_splits)
  moreover have "timers_ok ?p" unfolding timers_ok_def toasts using assms(1,4) same
    by (auto simp: place_toast_def toastr_inv_def timers_ok_def start_fx_def split: if_splits)
  moreover have "fx_ok (start_fx ShowFx t)" "t_live (start_fx ShowFx t)" using assms(3,6) by (simp_all add: fx_ok_def start_fx_def)
  moreover have "in_page j ?p \<longleftrightarrow> j = t_id t \<or> j \<in> set (kids s c)" for j
    using c(2,5) by (auto simp: in_page_def place_toast_def)
  moreover have "ways ?p j u = ways s j u" for j u using same by (simp add: ways_def place_toast_def)
  ultimately have "inv_but (t_id t) ?p" unfolding inv_but_def toasts using assms(1,2) c(6) same
    by (auto simp: place_toast_def page toastr_inv_def toasts_ok_def le_SucI)
  with c(1) show ?thesis by blast
qed

lemma other_fields_inv: "toastr_inv s \<Longrightarrow> toastr_inv (s\<lparr>previousToast := p\<rparr>)" "toastr_inv s \<Longrightarrow> toastr_inv (s\<lparr>ts_log := l\<rparr>)"
  by (simp_all add: toastr_inv_def cont_ok_def timers_ok_def toasts_ok_def in_page_def ways_def split: option.split)

lemma notify_inv:
  assumes "toastr_inv s" shows "toastr_inv (notify m s)"
proof (cases "preventDuplicates (ts_options s) \<and> m_message m = previousToast s")
  case False
  define s1 where "s1 = (if preventDuplicates (ts_options s) then s\<lparr>previousToast := m_message m\<rparr> else s)"
  have s1: "toastr_inv s1" "ts_options s1 = ts_options s" using assms by (auto simp: s1_def other_fields_inv)
  define opts where "opts = (case m_override m of None \<Rightarrow> ts_options s | Some (f, c) \<Rightarrow> f (ts_options s))"
  define icon where "icon = (case m_override m of None \<Rightarrow> icon_of (m_type m) | Some (f, c) \<Rightarrow> if c \<noteq> [] then c else icon_of (m_type m))"
  define t where "t = \<lparr>t_id = Suc (toastId s1), t_map = m, t_opts = opts, t_class = icon, t_display = False, t_running = [], t_queue = [],
    t_busy = False, t_live = True, t_interval = None, t_hidden = False\<rparr>"
  define g where "g = getContainer True (s1\<lparr>toastId := Suc (toastId s1)\<rparr>)"
  obtain c where c: "container g = Cont c" "inv_but (t_id t) (place_toast c t (newestOnTop opts) g)"
    using place_but [OF s1(1), of t "newestOnTop opts"] by (auto simp: t_def g_def)
  let ?p = "place_toast c t (newestOnTop opts) g"
  have "notify m s = publish (t_id t) False (if timeOut opts > 0 then set_timer (t_id t) ?p else ?p)"
    unfolding notify_def Let_def if_not_P [OF False] s1_def [symmetric] opts_def [symmetric] icon_def [symmetric]
    using c(1) by (simp add: g_def t_def place_toast_def)
  moreover have "toastr_inv (if timeOut opts > 0 then set_timer (t_id t) ?p else ?p)"
    using set_timer_inv [OF c(2)] but_inv [OF c(2)] by (auto simp: place_toast_def start_fx_def t_def)
  ultimately show ?thesis by (simp add: publish_def other_fields_inv)
qed (simp add: notify_def assms)

text \<open>The other calls and events.\<close>

lemma clear_many_inv: "toastr_inv s \<Longrightarrow> toastr_inv (fold (\<lambda>i s. snd (clearToast i s)) is s)"
  by (induction "is" arbitrary: s) (auto simp: clearToast_def enqueue_inv)

lemma clear_inv: "toastr_inv s \<Longrightarrow> toastr_inv (clear el s)"
proof -
  assume "toastr_inv s"
  then have e: "toastr_inv (ensure_container s)" by (rule ensure_inv)
  have all: "toastr_inv (clearContainer v)" if "toastr_inv v" for v using that by (simp add: clearContainer_def clear_many_inv)
  show ?thesis
  proof (cases el)
    case None
    then show ?thesis using all [OF e] by (simp add: clear_def)
  next
    case (Some i)
    obtain d v where v: "clearToast i (ensure_container s) = (d, v)" by fastforce
    then have "toastr_inv v" using e by (auto simp: clearToast_def enqueue_inv split: if_splits)
    with all [OF this] show ?thesis by (simp add: clear_def Some v Let_def)
  qed
qed

lemma remove_inv: "toastr_inv s \<Longrightarrow> toastr_inv (remove el s)"
  using ensure_inv [of s] by (auto simp: remove_def Let_def remove_container_inv removeToast_inv split: option.split)

lemma hide_inv: "toastr_inv s \<Longrightarrow> toastr_inv (hideToast override i s)"
  by (simp add: hideToast_def enqueue_inv)

lemma enqueue_hiding: "f \<noteq> ShowFx \<Longrightarrow> hiding (enqueue f t)"
  by (auto simp: enqueue_def start_fx_def hiding_def)

lemma timer_inv:
  assumes "toastr_inv s" shows "toastr_inv (toastr_step s (TimerFires n))"
proof (cases "map_of (timers s) n")
  case (Some i)
  have focus: "ts_focus s = None" "distinct (map fst (timers s))" using assms by (simp_all add: toastr_inv_def timers_ok_def)
  let ?u = "upd_toast i (enqueue HideFx) s"
  have u: "toastr_inv ?u" using assms by (rule enqueue_inv)
  have "toastr_inv (?u\<lparr>timers := filter (\<lambda>(m, j). m \<noteq> n) (timers ?u)\<rparr>)"
  proof (rule timer_gone_inv [OF u])
    fix m j assume "(m, j) \<in> set (timers ?u)" "\<not> m \<noteq> n"
    then have "map_of (timers s) n = Some j" using focus(2) by simp
    then show "j = i" using Some by (metis option.inject)
  next
    fix t assume "toasts ?u i = Some t"
    then show "ts_mouse ?u = Some i \<or> hiding t" by (auto simp: toasts_upd enqueue_hiding)
  qed
  moreover have "hideToast False i (s\<lparr>timers := ts\<rparr>) = ?u\<lparr>timers := ts\<rparr>" for ts
    using focus by (simp add: hideToast_def upd_toast_def split: option.split)
  ultimately show ?thesis using Some by simp
qed (use assms in simp)

fun focuses :: "toast_action \<Rightarrow> bool" where
  "focuses (FocusIn i) = True"
| "focuses a = False"

lemma toastr_step_inv:
  assumes "toastr_inv s" "\<not> focuses a" shows "toastr_inv (toastr_step s a)"
proof (cases a)
  case (TimerFires n)
  then show ?thesis using timer_inv [OF assms(1)] by simp
next
  case (MouseEnter i)
  then show ?thesis using assms(1) stick_inv [OF toast_mouse_inv [OF assms(1)], of i] by auto
next
  case (MouseLeave i)
  then show ?thesis using assms(1) leave_inv [OF assms(1)] by simp
next
  case (ToastClick i)
  then show ?thesis using assms(1) by (auto simp: toast_click_def hide_inv other_fields_inv split: option.split)
next
  case (CloseClick i)
  then show ?thesis using assms(1) by (auto simp: close_click_def hide_inv split: option.split)
next
  case FocusOut
  moreover have "s\<lparr>ts_focus := None\<rparr> = s" using assms(1) by (simp add: toastr_inv_def)
  ultimately show ?thesis using assms(1) by simp
qed (use assms in \<open>simp_all add: notify_inv clear_inv remove_inv finish_fx_inv\<close>)

definition unfocused_step :: "toastr \<Rightarrow> toast_action \<Rightarrow> toastr" where
  "unfocused_step s a = (if focuses a then s else toastr_step s a)"

interpretation messages: step_invariant unfocused_step toastr_inv
  by unfold_locales (simp add: unfocused_step_def toastr_step_inv)

lemma run_unfocused: "\<forall>a\<in>set as. \<not> focuses a \<Longrightarrow> toastr_run as s = foldl unfocused_step s as"
  unfolding toastr_run_def by (rule foldl_cong) (auto simp: unfocused_step_def)

section \<open>Properties\<close>

text \<open>When all animations of a toast that is about to hide have ended, it is not in the page.\<close>

lemma out_of_page_stays:
  assumes "toastr_inv s" "\<not> in_page i s" shows "\<not> in_page i (finish_fx i k s)"
proof (cases "\<exists>t. toasts s i = Some t \<and> k < length (t_running t)")
  case True
  then obtain t where t: "toasts s i = Some t" "k < length (t_running t)" by blast
  let ?f = "t_running t ! k" and ?u = "upd_toast i (after_fx (t_running t ! k) k) s"
  have u: "cont_ok ?u" "ts_focus ?u = None" "\<not> is_visible i ?u" using assms by (simp_all add: toastr_inv_def is_visible_def)
  have "\<not> in_page i (fx_complete ?f i ?u)"
    using hide_complete_effect(2) [OF _ u] assms(2) by (cases "?f = ShowFx") (simp_all add: fx_complete_def)
  then show ?thesis by (simp add: finish_fx_eq [OF t])
qed (use assms(2) in \<open>auto simp: finish_fx_def split: option.split\<close>)

lemma finish_first:
  assumes "toastr_inv s" "toasts s i = Some t" "t_running t = f # fs"
  shows "f \<noteq> ShowFx \<Longrightarrow> \<not> in_page i (finish_fx i 0 s)"
    "f = ShowFx \<Longrightarrow> toasts (finish_fx i 0 s) i = Some (dequeue (after_fx ShowFx 0 t))"
proof -
  let ?u = "upd_toast i (after_fx f 0) s"
  have eq: "finish_fx i 0 s = upd_toast i dequeue (fx_complete f i ?u)" using finish_fx_eq [OF assms(2), of 0] assms(3) by simp
  show "\<not> in_page i (finish_fx i 0 s)" if f: "f \<noteq> ShowFx"
  proof -
    have "cont_ok ?u" "ts_focus ?u = None" "\<not> is_visible i ?u"
      using assms(1,2) f by (auto simp: toastr_inv_def is_visible_def toasts_upd after_fx_def)
    from hide_complete_effect(2) [OF f this] show ?thesis by (simp add: eq)
  qed
  show "f = ShowFx \<Longrightarrow> toasts (finish_fx i 0 s) i = Some (dequeue (after_fx ShowFx 0 t))"
    using assms(2) by (simp add: eq fx_complete_def toasts_upd)
qed

lemma drained:
  assumes "toastr_inv s" "toasts s i = Some t" "hiding t" "n = length (t_running t) + length (t_queue t)"
  shows "\<not> in_page i (((\<lambda>s. finish_fx i 0 s) ^^ n) s)"
  using assms
proof (induction n arbitrary: s t)
  case (Suc n)
  have "fx_ok t" using Suc.prems by (auto simp: toastr_inv_def toasts_ok_def)
  with Suc.prems(4) obtain f fs where f: "t_running t = f # fs" by (cases "t_running t") (auto simp: fx_ok_def)
  have inv: "toastr_inv (finish_fx i 0 s)" by (rule finish_fx_inv [OF Suc.prems(1)])
  have stays: "\<not> in_page i (((\<lambda>s. finish_fx i 0 s) ^^ k) v)" if "toastr_inv v" "\<not> in_page i v" for k v
  proof -
    have "toastr_inv (((\<lambda>s. finish_fx i 0 s) ^^ k) v) \<and> \<not> in_page i (((\<lambda>s. finish_fx i 0 s) ^^ k) v)"
      using that by (induction k) (auto simp: finish_fx_inv out_of_page_stays)
    then show ?thesis ..
  qed
  show ?case
  proof (cases "f = ShowFx")
    case True
    let ?t = "dequeue (after_fx ShowFx 0 t)"
    have "toasts (finish_fx i 0 s) i = Some ?t" using finish_first(2) [OF Suc.prems(1,2) f True] .
    moreover have "hiding ?t" unfolding dequeue_keeps using Suc.prems(3) f True by (auto simp: hiding_def after_fx_def)
    moreover have "n = length (t_running ?t) + length (t_queue ?t)" using Suc.prems(4) f
      by (auto simp: dequeue_def start_fx_def after_fx_def split: list.split)
    ultimately show ?thesis using Suc.IH [OF inv] by (simp add: funpow_Suc_right del: funpow.simps)
  next
    case False
    from finish_first(1) [OF Suc.prems(1,2) f False] stays [OF inv] show ?thesis by (simp add: funpow_Suc_right del: funpow.simps)
  qed
qed (simp add: hiding_def)

lemma run_fx: "toastr_run (replicate n (FxEnds i 0)) s = ((\<lambda>s. finish_fx i 0 s) ^^ n) s"
  by (induction n arbitrary: s) (simp_all add: toastr_run_def funpow_swap1)

lemma hiding_leaves:
  assumes "toastr_inv s" "toasts s i = Some t" "hiding t"
  shows "\<exists>n. \<not> in_page i (toastr_run (replicate n (FxEnds i 0)) s)"
  using drained [OF assms refl] by (auto simp: run_fx)

lemma limited_leaves:
  assumes "toastr_inv s" "in_page i s" "toasts s i = Some t" "0 < timeOut (t_opts t)" "ts_mouse s \<noteq> Some i"
  shows "\<exists>bs. (\<forall>b\<in>set bs. b = FxEnds i 0 \<or> (\<exists>n. b = TimerFires n \<and> (n, i) \<in> set (timers s))) \<and> \<not> in_page i (toastr_run bs s)"
proof -
  have "ways s i t" using assms(1-4) by (auto simp: toastr_inv_def toasts_ok_def)
  then consider "hiding t" | n where "(n, i) \<in> set (timers s)" using assms(5) by (auto simp: ways_def)
  then show ?thesis
  proof cases
    case 1
    then obtain n where "\<not> in_page i (toastr_run (replicate n (FxEnds i 0)) s)" using hiding_leaves [OF assms(1,3)] by blast
    then show ?thesis by (intro exI [of _ "replicate n (FxEnds i 0)"]) auto
  next
    case (2 n)
    let ?s = "toastr_step s (TimerFires n)"
    have "map_of (timers s) n = Some i" "ts_focus s = None" using assms(1) 2 by (auto simp: toastr_inv_def timers_ok_def)
    then have "toasts ?s i = Some (enqueue HideFx t)" using assms(3) by (simp add: hideToast_def toasts_upd)
    then obtain k where "\<not> in_page i (toastr_run (replicate k (FxEnds i 0)) ?s)"
      using hiding_leaves [OF timer_inv [OF assms(1)]] enqueue_hiding by blast
    then show ?thesis using 2 by (intro exI [of _ "TimerFires n # replicate k (FxEnds i 0)"]) (auto simp: toastr_run_def)
  qed
qed

text \<open>
  C28: As long as no toast gets the keyboard focus, after any calls and events: a container is in the
  page only while it holds toasts, and it is the one new toasts go to; and a toast with a time limit
  that is not under the mouse leaves by itself, for its timer, if one is still running, and the ends
  of its animations take it out of the page. When it was the last one, its container leaves with it,
  by the first part for the state then reached. With the focus a toast may stay for ever
  (\<open>focused_toast_stays\<close> below).
\<close>

theorem toast_leaves:
  assumes "\<forall>a\<in>set as. \<not> focuses a" "s = toastr_run as (new_toastr opts)"
  shows "(\<forall>c. page_container s = Some c \<longrightarrow> container s = Cont c \<and> kids s c \<noteq> []) \<and>
    (\<forall>i t. in_page i s \<and> toasts s i = Some t \<and> 0 < timeOut (t_opts t) \<and> ts_mouse s \<noteq> Some i \<longrightarrow>
      (\<exists>bs. (\<forall>b\<in>set bs. b = FxEnds i 0 \<or> (\<exists>n. b = TimerFires n \<and> (n, i) \<in> set (timers s))) \<and>
        \<not> in_page i (toastr_run bs s)))"
proof -
  have inv: "toastr_inv s" unfolding assms(2) run_unfocused [OF assms(1)] by (rule messages.run_keeps [OF new_toastr_inv])
  then show ?thesis using limited_leaves [OF inv] by (auto simp: toastr_inv_def cont_ok_def)
qed

definition sample_map :: "string \<Rightarrow> toast_map" where
  "sample_map m = \<lparr>m_type = Info, m_message = Some m, m_title = None, m_override = None\<rparr>"

text \<open>One toast: it is shown in a container, it leaves, and the container with it.\<close>

theorem toast_leaves_witness:
  "let s = toastr_run [Notify (sample_map ''saved'')] (new_toastr getDefaults)
   in page_container s = Some 0 \<and> kids s 0 \<noteq> [] \<and> (\<exists>bs. \<not> in_page 1 (toastr_run bs s)) \<and>
      page_container (toastr_run [Notify (sample_map ''saved''), FxEnds 1 0, TimerFires 0, FxEnds 1 0] (new_toastr getDefaults)) = None"
proof -
  let ?s = "toastr_run [Notify (sample_map ''saved'')] (new_toastr getDefaults)"
  have t: "page_container ?s = Some 0" "in_page 1 ?s" "ts_mouse ?s \<noteq> Some 1" "toasts ?s 1 \<noteq> None" "0 < timeOut (t_opts (the (toasts ?s 1)))"
    "page_container (toastr_run [Notify (sample_map ''saved''), FxEnds 1 0, TimerFires 0, FxEnds 1 0] (new_toastr getDefaults)) = None"
    by code_simp+
  then obtain u where u: "toasts ?s 1 = Some u" by blast
  have none: "\<forall>a\<in>set [Notify (sample_map ''saved'')]. \<not> focuses a" by simp
  note leaves = toast_leaves [OF none refl, of getDefaults]
  have "kids ?s 0 \<noteq> []" using leaves t(1) by blast
  moreover have "\<exists>bs. \<not> in_page 1 (toastr_run bs ?s)" using leaves [THEN conjunct2, THEN spec, of 1] t u by auto
  ultimately show ?thesis using t by simp
qed

text \<open>A toast with the focus when its timer fires stays for ever: nothing sets the timer again.\<close>

lemma focused_toast_stays:
  "let s = toastr_run [Notify (sample_map ''saved''), FxEnds 1 0, FocusIn 1, TimerFires 0, FocusOut] (new_toastr getDefaults)
   in in_page 1 s \<and> timers s = [] \<and> map_option t_running (toasts s 1) = Some []"
  by code_simp

text \<open>Clearing one toast while it has the focus clears all the others instead.\<close>

lemma clear_focused_clears_others:
  "let s = toastr_run [Notify (sample_map ''a''), Notify (sample_map ''b''), FxEnds 1 0, FxEnds 2 0, FocusIn 1, Clear (Some 1), FxEnds 2 0] (new_toastr getDefaults)
   in in_page 1 s \<and> \<not> in_page 2 s"
  by code_simp

text \<open>Removing a toast that is visible does nothing.\<close>

lemma remove_visible: "is_visible i s \<Longrightarrow> ts_focus s \<noteq> Some i \<Longrightarrow> remove (Some i) s = ensure_container s"
proof -
  assume v: "is_visible i s" "ts_focus s \<noteq> Some i"
  have "ensure_container (ensure_container s) = ensure_container s"
    by (cases "page_container s") (simp_all add: ensure_container_def getContainer_def)
  with v show ?thesis by (simp add: remove_def Let_def removeToast_def)
qed

text \<open>Moving the mouse over a toast that is fading, which is meant to keep it, takes it away at once.\<close>

lemma hover_takes_away:
  "\<not> in_page 1 (toastr_run [Notify (sample_map ''saved''), FxEnds 1 0, TimerFires 0, MouseEnter 1] (new_toastr getDefaults))"
  by code_simp

text \<open>A toast dismissed by a tap is reported hidden a second time when its timer fires.\<close>

lemma hidden_twice:
  "ts_log (toastr_run [Notify (sample_map ''saved''), FxEnds 1 0, ToastClick 1, FxEnds 1 0, TimerFires 0, FxEnds 1 0] (new_toastr getDefaults))
   = [Published 1 False, Published 1 True, Published 1 True]"
  by code_simp

end
