(* ===== verification/Pagination.thy ===== *)
theory Pagination
  imports Js_Prelude Complex_Main
begin

text \<open>
  The page links of \<open>uikit/js/addons/pagination.js\<close>. Pages count from 0; half the number of displayed
  pages is a fraction when that number is odd. A list item is the current page or a link, with its
  text, or the three dots.
\<close>

section \<open>State\<close>

record pg_options =
  items :: int
  itemsOnPage :: int
  opt_pages :: int
  displayedPages :: int
  edges :: int
  opt_currentPage :: int
  lblPrev :: "string option"
  lblNext :: "string option"

datatype pg_text = Num int | Lbl string

datatype pg_item = Active pg_text | Link int pg_text | Dots

record pagination =
  pg_options :: pg_options
  pages :: int
  currentPage :: int
  halfDisplayed :: rat
  pg_element :: "pg_item list"
  pg_selected :: "int list"

section \<open>Operations\<close>

text \<open>The interval, with its end not included.\<close>

definition getInterval :: "pagination \<Rightarrow> int \<times> int" where
  "getInterval p =
     (let c = rat_of_int (currentPage p); h = halfDisplayed p; d = displayedPages (pg_options p)
      in (\<lceil>if c > h then max (min (c - h) (rat_of_int (pages p - d))) 0 else 0\<rceil>,
          \<lceil>if c > h then min (c + h) (rat_of_int (pages p)) else rat_of_int (min d (pages p))\<rceil>))"

definition pg_append :: "int \<Rightarrow> string option \<Rightarrow> pagination \<Rightarrow> pagination" where
  "pg_append pageIndex text p =
     (let i = (if pageIndex < 0 then 0 else if pageIndex < pages p then pageIndex else pages p - 1);
          t = (case text of None \<Rightarrow> Num (i + 1) | Some l \<Rightarrow> Lbl l)
      in p\<lparr>pg_element := pg_element p @ [if i = currentPage p then Active t else Link i t]\<rparr>)"

definition pg_dots :: "pagination \<Rightarrow> pagination" where
  "pg_dots p = p\<lparr>pg_element := pg_element p @ [Dots]\<rparr>"

text \<open>\<open>for (i = a; i < b; i++) this._append(i)\<close>\<close>

definition append_pages :: "int \<Rightarrow> int \<Rightarrow> pagination \<Rightarrow> pagination" where
  "append_pages a b p = fold (\<lambda>i. pg_append i None) [a..b - 1] p"

definition start_edges :: "int \<Rightarrow> pagination \<Rightarrow> pagination" where
  "start_edges start p =
     (let e = edges (pg_options p)
      in if start > 0 \<and> e > 0
         then (let p = append_pages 0 (min e start) p
               in if e < start \<and> start - e \<noteq> 1 then pg_dots p
                  else if start - e = 1 then pg_append e None p else p)
         else p)"

definition end_edges :: "int \<Rightarrow> pagination \<Rightarrow> pagination" where
  "end_edges stop p =
     (let e = edges (pg_options p); n = pages p
      in if stop < n \<and> e > 0
         then (let (p, stop) = (if n - e > stop \<and> n - e - stop \<noteq> 1 then (pg_dots p, stop)
                                else if n - e - stop = 1 then (pg_append stop None p, stop + 1) else (p, stop))
               in append_pages (max (n - e) stop) n p)
         else p)"

definition pg_render :: "pagination \<Rightarrow> pagination" where
  "pg_render p =
     (let opt = pg_options p; (start, stop) = getInterval p;
          p = p\<lparr>pg_element := []\<rparr>;
          p = (if lblPrev opt = None then p else pg_append (opt_currentPage opt - 1) (lblPrev opt) p);
          p = start_edges start p;
          p = append_pages start stop p;
          p = end_edges stop p
      in if lblNext opt = None then p else pg_append (opt_currentPage opt + 1) (lblNext opt) p)"

definition render :: "int \<Rightarrow> pagination \<Rightarrow> pagination" where
  "render ps p = pg_render (p\<lparr>pages := if ps \<noteq> 0 then ps else pages p\<rparr>)"

definition selectPage :: "int \<Rightarrow> int \<Rightarrow> pagination \<Rightarrow> pagination" where
  "selectPage pageIndex ps p =
     (let p = render ps (p\<lparr>currentPage := pageIndex\<rparr>) in p\<lparr>pg_selected := pg_selected p @ [pageIndex]\<rparr>)"

text \<open>The number of pages; with no items on a page it is not a finite number.\<close>

definition init_pages :: "pg_options \<Rightarrow> int option" where
  "init_pages opt =
     (if opt_pages opt \<noteq> 0 then Some (opt_pages opt)
      else if itemsOnPage opt = 0 then (if items opt = 0 then Some 1 else None)
      else (let n = \<lceil>rat_of_int (items opt) / rat_of_int (itemsOnPage opt)\<rceil> in Some (if n \<noteq> 0 then n else 1)))"

definition pg_init :: "pg_options \<Rightarrow> pagination option" where
  "pg_init opt =
     (case init_pages opt of
        None \<Rightarrow> None
      | Some n \<Rightarrow> Some (pg_render \<lparr>pg_options = opt, pages = n, currentPage = opt_currentPage opt - 1,
          halfDisplayed = rat_of_int (displayedPages opt) / 2, pg_element = [], pg_selected = []\<rparr>))"

text \<open>A click on the link at a position of the list.\<close>

definition pg_click :: "nat \<Rightarrow> pagination \<Rightarrow> pagination" where
  "pg_click k p =
     (if k < length (pg_element p)
      then (case pg_element p ! k of Link i t \<Rightarrow> selectPage i 0 p | _ \<Rightarrow> p) else p)"

section \<open>What is rendered\<close>

definition page_item :: "pagination \<Rightarrow> int \<Rightarrow> pg_item" where
  "page_item p i = (if i = currentPage p then Active (Num (i + 1)) else Link i (Num (i + 1)))"

definition add_items :: "pg_item list \<Rightarrow> pagination \<Rightarrow> pagination" where
  "add_items xs p = p\<lparr>pg_element := pg_element p @ xs\<rparr>"

lemma add_items_simps [simp]: "pages (add_items xs p) = pages p" "currentPage (add_items xs p) = currentPage p"
  "pg_options (add_items xs p) = pg_options p" "pg_element (add_items xs p) = pg_element p @ xs"
  "page_item (add_items xs p) = page_item p" "add_items ys (add_items xs p) = add_items (xs @ ys) p"
  by (simp_all add: add_items_def page_item_def fun_eq_iff)

lemma append_item: "0 \<le> i \<Longrightarrow> i < pages p \<Longrightarrow> pg_append i None p = add_items [page_item p i] p"
  by (simp add: pg_append_def page_item_def add_items_def)

lemma fold_items: "\<forall>i\<in>set is. 0 \<le> i \<and> i < pages p \<Longrightarrow> fold (\<lambda>i. pg_append i None) is p = add_items (map (page_item p) is) p"
proof (induction "is" arbitrary: p)
  case Nil
  then show ?case by (simp add: add_items_def)
qed (simp add: append_item)

lemma append_pages_items:
  "0 \<le> a \<Longrightarrow> b \<le> pages p \<Longrightarrow> append_pages a b p = add_items (map (page_item p) [a..b - 1]) p"
  unfolding append_pages_def by (rule fold_items) auto

lemma interval_bounds:
  assumes "getInterval p = (start, stop)" "halfDisplayed p = rat_of_int (displayedPages (pg_options p)) / 2"
    and "1 \<le> displayedPages (pg_options p)" "0 \<le> currentPage p" "currentPage p < pages p"
  shows "0 \<le> start" "start \<le> currentPage p" "currentPage p < stop" "stop \<le> pages p"
proof -
  let ?c = "rat_of_int (currentPage p)" and ?h = "halfDisplayed p" and ?d = "displayedPages (pg_options p)"
  have h: "0 < ?h" "?h < rat_of_int ?d" using assms(2,3) by simp_all
  have I: "start = \<lceil>if ?c > ?h then max (min (?c - ?h) (rat_of_int (pages p - ?d))) 0 else 0\<rceil>"
    "stop = \<lceil>if ?c > ?h then min (?c + ?h) (rat_of_int (pages p)) else rat_of_int (min ?d (pages p))\<rceil>"
    using assms(1) by (simp_all add: getInterval_def Let_def)
  show "0 \<le> start" unfolding I by (simp add: less_max_iff_disj)
  show "start \<le> currentPage p" unfolding I using h assms(4) by (simp add: ceiling_le_iff min.coboundedI1)
  show "currentPage p < stop" unfolding I using h assms(5) by (auto simp: less_ceiling_iff)
  show "stop \<le> pages p" unfolding I by (simp add: ceiling_le_iff)
qed

text \<open>The numbers of the list: one after the other, or dots for at least two pages left out.\<close>

fun page_no :: "pg_item \<Rightarrow> int" where
  "page_no (Active (Num k)) = k - 1"
| "page_no (Active (Lbl t)) = -1"
| "page_no (Link i t) = i"
| "page_no Dots = -1"

fun spaced :: "int \<Rightarrow> pg_item list \<Rightarrow> bool" where
  "spaced i [] \<longleftrightarrow> True"
| "spaced i [Dots] \<longleftrightarrow> False"
| "spaced i (Dots # x # xs) \<longleftrightarrow> x \<noteq> Dots \<and> i + 3 \<le> page_no x \<and> spaced (page_no x) xs"
| "spaced i (x # xs) \<longleftrightarrow> page_no x = i + 1 \<and> spaced (page_no x) xs"

lemma page_no_item [simp]: "page_no (page_item p i) = i" "page_item p i \<noteq> Dots"
  by (simp_all add: page_item_def)

lemma spaced_item [simp]: "spaced i (page_item p j # xs) \<longleftrightarrow> j = i + 1 \<and> spaced j xs"
  by (simp add: page_item_def)

lemma spaced_run: "i \<le> k \<Longrightarrow> spaced i (map (page_item p) [i + 1..k] @ ys) = spaced k ys"
proof (induction "nat (k - i)" arbitrary: i)
  case (Suc n)
  then have "[i + 1..k] = (i + 1) # [i + 1 + 1..k]" by (simp add: upto_rec1)
  with Suc show ?case using Suc.hyps(1) [of "i + 1"] by simp
qed simp

lemma spaced_dots_run: "i + 3 \<le> a \<Longrightarrow> a \<le> k \<Longrightarrow> spaced i (Dots # map (page_item p) [a..k] @ ys) = spaced k ys"
  using spaced_run [of a k p ys] by (simp add: upto_rec1)

definition first_part :: "pagination \<Rightarrow> int \<Rightarrow> pg_item list" where
  "first_part p start =
     (let e = edges (pg_options p)
      in if start - e > 1 then map (page_item p) [0..e - 1] @ [Dots] else map (page_item p) [0..start - 1])"

definition last_part :: "pagination \<Rightarrow> int \<Rightarrow> pg_item list" where
  "last_part p stop =
     (let e = edges (pg_options p); n = pages p
      in if n - e - stop > 1 then Dots # map (page_item p) [n - e..n - 1] else map (page_item p) [stop..n - 1])"

lemma start_edges_items:
  assumes "0 < edges (pg_options p)" "start < pages p" "0 \<le> start"
  shows "start_edges start p = add_items (first_part p start) p"
proof -
  let ?e = "edges (pg_options p)"
  have one: "append_pages 0 (min ?e start) p = add_items (map (page_item p) [0..min ?e start - 1]) p"
    by (rule append_pages_items) (use assms in auto)
  consider "start = 0" | "start > 0" "start - ?e > 1" | "start > 0" "start - ?e = 1" | "start > 0" "start \<le> ?e" using assms(3) by linarith
  then show ?thesis
  proof cases
    case 1
    then show ?thesis using assms by (simp add: start_edges_def first_part_def add_items_def)
  next
    case 2
    then show ?thesis using assms one by (simp add: start_edges_def first_part_def Let_def pg_dots_def min_def) (simp add: add_items_def)
  next
    case 3
    then have "start = ?e + 1" by simp
    then have "[0..start - 1] = [0..?e - 1] @ [?e]" using assms(1) upto_rec2 [of 0 ?e] by simp
    with 3 show ?thesis using assms one by (simp add: start_edges_def first_part_def Let_def append_item min_def)
  next
    case 4
    then show ?thesis using assms one by (simp add: start_edges_def first_part_def Let_def min_def)
  qed
qed

lemma end_edges_items:
  assumes "0 < edges (pg_options p)" "0 < stop" "stop \<le> pages p"
  shows "end_edges stop p = add_items (last_part p stop) p"
proof -
  let ?e = "edges (pg_options p)" and ?n = "pages p"
  have items: "append_pages a ?n q = add_items (map (page_item q) [a..?n - 1]) q" if "0 \<le> a" "pages q = ?n" for a q
    by (rule append_pages_items) (use that in auto)
  consider "stop = ?n" | "stop < ?n" "?n - ?e - stop > 1" | "stop < ?n" "?n - ?e - stop = 1" | "stop < ?n" "?n - ?e \<le> stop"
    using assms(3) by linarith
  then show ?thesis
  proof cases
    case 1
    then show ?thesis using assms by (simp add: end_edges_def last_part_def add_items_def)
  next
    case 2
    then have "end_edges stop p = append_pages (?n - ?e) ?n (pg_dots p)" using assms(1) by (simp add: end_edges_def Let_def max_def)
    also have "pg_dots p = add_items [Dots] p" by (simp add: pg_dots_def add_items_def)
    finally show ?thesis using 2 assms items [of "?n - ?e" "add_items [Dots] p"] by (simp add: last_part_def Let_def)
  next
    case 3
    then have "end_edges stop p = append_pages (stop + 1) ?n (pg_append stop None p)" using assms(1) by (simp add: end_edges_def Let_def max_def)
    also have "pg_append stop None p = add_items [page_item p stop] p" using 3 assms by (simp add: append_item)
    finally show ?thesis using 3 assms items [of "stop + 1" "add_items [page_item p stop] p"] upto_rec1 [of stop "?n - 1"]
      by (simp add: last_part_def Let_def)
  next
    case 4
    then have "end_edges stop p = append_pages stop ?n p" using assms(1) by (simp add: end_edges_def Let_def max_def)
    then show ?thesis using 4 assms items [of stop p] by (simp add: last_part_def Let_def)
  qed
qed

lemma render_items:
  assumes "getInterval p = (start, stop)" "halfDisplayed p = rat_of_int (displayedPages (pg_options p)) / 2"
    and "1 \<le> displayedPages (pg_options p)" "0 \<le> currentPage p" "currentPage p < pages p" "0 < edges (pg_options p)"
    and "lblPrev (pg_options p) = None" "lblNext (pg_options p) = None"
  shows "pg_element (pg_render p) = first_part p start @ map (page_item p) [start..stop - 1] @ last_part p stop"
proof -
  let ?q = "p\<lparr>pg_element := []\<rparr>"
  note I = interval_bounds [OF assms(1-5)]
  have same: "page_item ?q = page_item p" "first_part ?q = first_part p" "last_part ?q = last_part p" "pages ?q = pages p"
    by (simp_all add: page_item_def first_part_def last_part_def fun_eq_iff Let_def)
  have "start_edges start ?q = add_items (first_part p start) ?q"
    using start_edges_items [of ?q start] I assms same by simp
  moreover have "append_pages start stop (add_items xs ?q) = add_items (map (page_item p) [start..stop - 1]) (add_items xs ?q)" for xs
    using append_pages_items [of start stop "add_items xs ?q"] I same by simp
  moreover have "last_part (add_items xs ?q) = last_part p" for xs by (simp add: last_part_def fun_eq_iff Let_def same)
  then have "end_edges stop (add_items xs ?q) = add_items (last_part p stop) (add_items xs ?q)" for xs
    using end_edges_items [of "add_items xs ?q" stop] I assms same by simp
  ultimately show ?thesis using assms(1,7,8) by (simp add: pg_render_def Let_def)
qed

lemma links_spaced:
  assumes "halfDisplayed p = rat_of_int (displayedPages (pg_options p)) / 2"
    and "1 \<le> displayedPages (pg_options p)" "0 \<le> currentPage p" "currentPage p < pages p" "0 < edges (pg_options p)"
    and "lblPrev (pg_options p) = None" "lblNext (pg_options p) = None"
    and "xs = pg_element (pg_render p)"
  shows "spaced (-1) xs \<and> page_no (last xs) = pages p - 1 \<and> Active (Num (currentPage p + 1)) \<in> set xs"
proof -
  obtain start stop where I: "getInterval p = (start, stop)" by fastforce
  note b = interval_bounds [OF I assms(1-4)]
  let ?e = "edges (pg_options p)" and ?n = "pages p"
  have xs: "xs = first_part p start @ map (page_item p) [start..stop - 1] @ last_part p stop"
    unfolding assms(8) by (rule render_items [OF I assms(1-7)])
  have mid: "spaced (-1) xs = spaced (stop - 1) (last_part p stop)"
  proof (cases "start - ?e > 1")
    case True
    then show ?thesis using b assms(5) spaced_run [of "-1" "?e - 1" p] spaced_dots_run [of "?e - 1" start "stop - 1" p "last_part p stop"]
      by (simp add: xs first_part_def Let_def)
  next
    case False
    then show ?thesis using b spaced_run [of "-1" "start - 1" p] spaced_run [of "start - 1" "stop - 1" p "last_part p stop"]
      by (simp add: xs first_part_def Let_def)
  qed
  have "spaced (stop - 1) (last_part p stop)"
    using b assms(5) spaced_dots_run [of "stop - 1" "?n - ?e" "?n - 1" p "[]"] spaced_run [of "stop - 1" "?n - 1" p "[]"]
    by (auto simp: last_part_def Let_def)
  moreover have "last xs = page_item p (?n - 1)"
    using b assms(5) upto_rec2 [of "?n - ?e" "?n - 1"] upto_rec2 [of stop "?n - 1"] upto_rec2 [of start "stop - 1"]
    by (cases "stop = ?n") (auto simp: xs last_part_def Let_def)
  moreover have "page_item p (currentPage p) \<in> set xs" using b by (simp add: xs)
  ultimately show ?thesis using mid by (simp add: page_item_def)
qed

section \<open>Clicking\<close>

definition link_ok :: "pagination \<Rightarrow> pg_item \<Rightarrow> bool" where
  "link_ok p x \<longleftrightarrow> (case x of Link i t \<Rightarrow> 0 \<le> i \<and> i < pages p | _ \<Rightarrow> True)"

definition settings_ok :: "pagination \<Rightarrow> bool" where
  "settings_ok p \<longleftrightarrow> halfDisplayed p = rat_of_int (displayedPages (pg_options p)) / 2 \<and> 1 \<le> displayedPages (pg_options p) \<and>
     0 < edges (pg_options p) \<and> lblPrev (pg_options p) = None \<and> lblNext (pg_options p) = None \<and>
     0 \<le> currentPage p \<and> currentPage p < pages p"

definition pg_inv :: "pagination \<Rightarrow> bool" where
  "pg_inv p \<longleftrightarrow> settings_ok p \<and> pg_element p = pg_element (pg_render p) \<and> (\<forall>x\<in>set (pg_element p). link_ok p x)"

text \<open>What is rendered depends on the settings, not on what was rendered before.\<close>

definition same_view :: "pagination \<Rightarrow> pagination \<Rightarrow> bool" where
  "same_view p q \<longleftrightarrow> pg_options q = pg_options p \<and> pages q = pages p \<and> currentPage q = currentPage p \<and> halfDisplayed q = halfDisplayed p"

lemma same_append: "same_view p (pg_append i t p)" "same_view p (pg_dots p)" "same_view p p"
  by (simp_all add: same_view_def pg_append_def pg_dots_def Let_def)

lemma same_trans: "same_view p q \<Longrightarrow> same_view q r \<Longrightarrow> same_view p r"
  by (simp add: same_view_def)

lemma same_pages: "same_view p (append_pages a b p)"
proof -
  have "same_view p (fold (\<lambda>i. pg_append i None) is p)" for "is"
  proof (induction "is" arbitrary: p)
    case (Cons a "is")
    show ?case using same_trans [OF same_append(1) Cons.IH] by simp
  qed (simp add: same_append)
  then show ?thesis by (simp add: append_pages_def)
qed

lemma same_edges: "same_view q (start_edges i q)" "same_view q (end_edges i q)"
  using same_trans [OF same_pages same_append(2)] same_trans [OF same_pages same_append(1)]
    same_trans [OF same_append(1) same_pages] same_trans [OF same_append(2) same_pages]
  by (simp_all add: start_edges_def end_edges_def Let_def same_append same_pages)

lemma same_render: "same_view p (pg_render p)"
proof -
  obtain i j where I: "getInterval p = (i, j)" by fastforce
  define q where "q = (let p = p\<lparr>pg_element := []\<rparr> in
    if lblPrev (pg_options p) = None then p else pg_append (opt_currentPage (pg_options p) - 1) (lblPrev (pg_options p)) p)"
  define r where "r = end_edges j (append_pages i j (start_edges i q))"
  have "same_view p q" by (simp add: q_def Let_def same_view_def pg_append_def)
  moreover have "same_view q r" unfolding r_def by (rule same_trans [OF same_trans [OF same_edges(1) same_pages] same_edges(2)])
  moreover have "pg_render p = (if lblNext (pg_options p) = None then r
      else pg_append (opt_currentPage (pg_options p) + 1) (lblNext (pg_options p)) r)"
    by (simp add: pg_render_def I r_def q_def Let_def)
  ultimately show ?thesis using same_append(1,3) same_trans by metis
qed

lemma pages_render: "pages (pg_render p) = pages p"
  using same_render [of p] by (simp add: same_view_def)

lemma rendered_links:
  assumes "settings_ok p" "x \<in> set (pg_element (pg_render p))" shows "link_ok p x"
proof -
  obtain start stop where I: "getInterval p = (start, stop)" by fastforce
  have s: "halfDisplayed p = rat_of_int (displayedPages (pg_options p)) / 2" "1 \<le> displayedPages (pg_options p)"
    "0 \<le> currentPage p" "currentPage p < pages p" "0 < edges (pg_options p)" "lblPrev (pg_options p) = None" "lblNext (pg_options p) = None"
    using assms(1) by (simp_all add: settings_ok_def)
  have "link_ok p (page_item p i)" if "0 \<le> i" "i < pages p" for i using that by (simp add: link_ok_def page_item_def)
  moreover have "link_ok p Dots" by (simp add: link_ok_def)
  ultimately show ?thesis using assms(2) interval_bounds [OF I s(1-4)] s(5)
    unfolding render_items [OF I s] by (auto simp: first_part_def last_part_def Let_def split: if_splits)
qed

lemma render_again:
  assumes "settings_ok p" "same_view p q" shows "pg_element (pg_render q) = pg_element (pg_render p)"
proof -
  have "settings_ok q" using assms by (simp add: settings_ok_def same_view_def)
  obtain start stop where I: "getInterval p = (start, stop)" by fastforce
  moreover have "getInterval q = getInterval p" using assms(2) by (simp add: getInterval_def same_view_def Let_def)
  moreover have item: "page_item q = page_item p" using assms(2) by (simp add: page_item_def same_view_def fun_eq_iff)
  then have "first_part q = first_part p" "last_part q = last_part p"
    using assms(2) by (simp_all add: first_part_def last_part_def same_view_def fun_eq_iff Let_def)
  ultimately show ?thesis using assms(1) \<open>settings_ok q\<close> item render_items [of p start stop] render_items [of q start stop]
    by (simp add: settings_ok_def)
qed

lemma rendered_inv:
  assumes "settings_ok p" "q = (pg_render p)\<lparr>pg_selected := sel\<rparr>" shows "pg_inv q"
proof -
  have same: "same_view p q" using same_render [of p] by (simp add: same_view_def assms(2))
  then have "settings_ok q" using assms(1) by (simp add: settings_ok_def same_view_def)
  moreover have "pg_element q = pg_element (pg_render p)" by (simp add: assms(2))
  moreover have "link_ok q = link_ok p" using same by (simp add: link_ok_def same_view_def fun_eq_iff split: pg_item.split)
  ultimately show ?thesis using rendered_links [OF assms(1)] render_again [OF assms(1) same] by (simp add: pg_inv_def)
qed

lemma page_click_inv:
  assumes "pg_inv p" shows "pg_inv (pg_click k p)"
proof (cases "k < length (pg_element p)")
  case True
  then have "link_ok p (pg_element p ! k)" using assms by (simp add: pg_inv_def)
  moreover have "pg_inv (selectPage i 0 p)" if "0 \<le> i" "i < pages p" for i
  proof -
    have "settings_ok (p\<lparr>currentPage := i, pages := pages p\<rparr>)" using assms that by (simp add: pg_inv_def settings_ok_def)
    from rendered_inv [OF this] show ?thesis by (simp add: selectPage_def render_def Let_def)
  qed
  ultimately show ?thesis using True assms by (auto simp: pg_click_def link_ok_def split: pg_item.splits)
qed (simp add: pg_click_def assms)

interpretation clicks: step_invariant "\<lambda>p k. pg_click k p" pg_inv
  by unfold_locales (rule page_click_inv)

lemma init_inv:
  assumes "pg_init opt = Some p" "1 \<le> displayedPages opt" "1 \<le> edges opt" "lblPrev opt = None" "lblNext opt = None"
    and "1 \<le> opt_currentPage opt" "\<And>n. init_pages opt = Some n \<Longrightarrow> opt_currentPage opt \<le> n"
  shows "pg_inv p"
proof -
  obtain n where n: "init_pages opt = Some n" using assms(1) by (auto simp: pg_init_def split: option.splits)
  define q where "q = \<lparr>pg_options = opt, pages = n, currentPage = opt_currentPage opt - 1,
    halfDisplayed = rat_of_int (displayedPages opt) / 2, pg_element = [], pg_selected = []\<rparr>"
  have "p = pg_render q" using assms(1) n by (simp add: pg_init_def q_def)
  moreover have "settings_ok q" using assms(2-7) n by (simp add: settings_ok_def q_def)
  ultimately show ?thesis using rendered_inv [of q p "pg_selected (pg_render q)"] by simp
qed

section \<open>Properties\<close>

text \<open>
  C29: With at least one displayed page and one edge page and a current page that exists, after any
  clicks the links are in order, start with the first page and end with the last, contain the
  current page, marked, and dots stand for at least two pages left out: never for one, and never
  for none.
\<close>

theorem links_after_clicks:
  assumes "pg_init opt = Some p0" "1 \<le> displayedPages opt" "1 \<le> edges opt" "lblPrev opt = None" "lblNext opt = None"
    and "1 \<le> opt_currentPage opt" "opt_currentPage opt \<le> pages p0"
    and "p = foldl (\<lambda>p k. pg_click k p) p0 ks"
  shows "spaced (-1) (pg_element p) \<and> page_no (last (pg_element p)) = pages p - 1 \<and>
    Active (Num (currentPage p + 1)) \<in> set (pg_element p)"
proof -
  have "opt_currentPage opt \<le> n" if n: "init_pages opt = Some n" for n
  proof -
    define q where "q = \<lparr>pg_options = opt, pages = n, currentPage = opt_currentPage opt - 1,
      halfDisplayed = rat_of_int (displayedPages opt) / 2, pg_element = [], pg_selected = []\<rparr>"
    have "pages p0 = n" using assms(1) n pages_render [of q] by (simp add: pg_init_def q_def)
    then show ?thesis using assms(7) by simp
  qed
  then have "pg_inv p0" by (rule init_inv [OF assms(1-6)])
  then have "pg_inv p" unfolding assms(8) by (rule clicks.run_keeps)
  then show ?thesis using links_spaced [of p] by (simp add: pg_inv_def settings_ok_def)
qed

definition sample_options :: pg_options where
  "sample_options = \<lparr>items = 95, itemsOnPage = 10, opt_pages = 0, displayedPages = 3, edges = 1, opt_currentPage = 1,
     lblPrev = None, lblNext = None\<rparr>"

theorem links_after_clicks_witness:
  "page_no (last (pg_element (foldl (\<lambda>p k. pg_click k p) (the (pg_init sample_options)) [4, 2]))) = 9"
proof -
  have "pg_init sample_options = Some (the (pg_init sample_options))" "opt_currentPage sample_options \<le> pages (the (pg_init sample_options))"
    "pages (foldl (\<lambda>p k. pg_click k p) (the (pg_init sample_options)) [4, 2]) = 10"
    by code_simp+
  then show ?thesis using links_after_clicks [OF _ _ _ _ _ _ _ refl, of sample_options "the (pg_init sample_options)" "[4, 2]"]
    by (simp add: sample_options_def)
qed

text \<open>
  The links before and after lead to fixed pages: they are computed from the option, which counts
  from 1 and does not change, and not from the current page.
\<close>

lemma previous_is_fixed:
  "let opt = sample_options\<lparr>lblPrev := Some ''prev'', lblNext := Some ''next''\<rparr>; p = selectPage 5 0 (the (pg_init opt))
   in hd (pg_element p) = Link 0 (Lbl ''prev'') \<and> last (pg_element p) = Link 2 (Lbl ''next'')"
  by code_simp

end
