(* ===== verification/Data_Table.thy ===== *)
theory Data_Table
  imports Js_Regex Js_Number
begin

text \<open>
  The data model and the search of \<open>jquery.dataTables.js\<close>: the settings object with its
  columns, rows and display arrays, adding and deleting rows, building the search expression
  from what the user types, and filtering the display array. Cell data comes from the
  column's accessor; the browser's decoding of HTML entities and the engine that runs a
  regular expression typed by the user are arguments.
\<close>

section \<open>Helpers\<close>

definition dt_range :: "int \<Rightarrow> int option \<Rightarrow> int list" where
  "dt_range len start =
     (case start of None \<Rightarrow> [0..len - 1] | Some s \<Rightarrow> [len..s - 1])"

fun dt_unique_loop :: "'a list \<Rightarrow> 'a list \<Rightarrow> 'a list" where
  "dt_unique_loop out [] = out"
| "dt_unique_loop out (x # xs) = dt_unique_loop (if x \<in> set out then out else out @ [x]) xs"

definition dt_unique :: "'a list \<Rightarrow> 'a list" where
  "dt_unique src = dt_unique_loop [] src"

section \<open>Settings\<close>

record ('r, 'k) column =
  sName :: string
  mDataProp :: string
  bVisible :: bool
  bSearchable :: bool
  bSortable :: bool
  asSorting :: "string list"
  aDataSort :: "nat list"
  sType :: "string option"
  sManualType :: "string option"
  fnFilterCell :: "'r \<Rightarrow> string option"
  fnTypeCell :: "'r \<Rightarrow> string"
  fnSortCell :: "'r \<Rightarrow> 'k"
  customSort :: "('r list \<Rightarrow> nat \<Rightarrow> 'k) option"

text \<open>
  \<open>fnFilterCell\<close>, \<open>fnTypeCell\<close> and \<open>fnSortCell\<close> are \<open>_fnGetCellData\<close> for the request
  types \<open>'filter'\<close> (with the search formatter, taken to be the same for every type the column
  may have; \<open>None\<close> is \<open>null\<close>), \<open>'type'\<close> and \<open>'sort'\<close>; \<open>customSort\<close> is the sort data source a plug-in registers for the column's
  \<open>sSortDataType\<close>; \<open>mDataProp\<close> is the data property as a request names it. \<open>nTr\<close> tells whether the row's node has been created.
\<close>

record ('r, 'k) row =
  aData :: 'r
  aFilterData :: "string list option"
  sFilterRow :: string
  aSortData :: "nat \<rightharpoonup> 'k"
  nTr :: bool
  sRowStripe :: string

record search =
  sSearch :: string
  bRegex :: bool
  bSmart :: bool
  bCaseInsensitive :: bool

record sort_entry =
  so_col :: nat
  so_dir :: string
  so_idx :: "nat option"

datatype drawn = DrawnRow nat | DrawnMessage string

record language =
  sZeroRecords :: string
  sLoadingRecords :: string
  sEmptyTable :: string

record ('r, 'k) settings =
  aoColumns :: "('r, 'k) column list"
  aoData :: "('r, 'k) row list"
  aiDisplayMaster :: "nat list"
  aiDisplay :: "nat list"
  oPreviousSearch :: search
  aoPreSearchCols :: "search list"
  bSorted :: bool
  bFiltered :: bool
  bServerSide :: bool
  bSort :: bool
  bFilter :: bool
  bPaginate :: bool
  bSortMulti :: bool
  aaSorting :: "sort_entry list"
  iDisplayStart :: int
  iDisplayLength :: int
  iInitDisplayStart :: int
  iRecordsTotal :: int
  iRecordsDisplay :: int
  iDraw :: int
  bDeferRender :: bool
  bDeferLoading :: bool
  bDestroying :: bool
  bAjaxDataGet :: bool
  hasAjax :: bool
  asStripeClasses :: "string list"
  oLanguage :: language
  tbody :: "drawn list"

text \<open>
  \<open>tbody\<close> is what \<open>_fnDraw\<close> put into the table body last, rows given by their index in
  \<open>aoData\<close>. \<open>hasAjax\<close> tells whether an Ajax source is configured.
\<close>

datatype data_source = Ssp | Ajax | Dom

definition fnDataSource :: "('r, 'k) settings \<Rightarrow> data_source" where
  "fnDataSource s = (if bServerSide s then Ssp else if hasAjax s then Ajax else Dom)"

definition fnGetColumns :: "(('r, 'k) column \<Rightarrow> bool) \<Rightarrow> ('r, 'k) settings \<Rightarrow> nat list" where
  "fnGetColumns sParam s = filter (\<lambda>i. sParam (aoColumns s ! i)) [0..<length (aoColumns s)]"

definition fnVisibleToColumnIndex :: "('r, 'k) settings \<Rightarrow> nat \<Rightarrow> nat option" where
  "fnVisibleToColumnIndex s iMatch =
     (let aiVis = fnGetColumns bVisible s in if iMatch < length aiVis then Some (aiVis ! iMatch) else None)"

definition fnColumnIndexToVisible :: "('r, 'k) settings \<Rightarrow> nat \<Rightarrow> nat option" where
  "fnColumnIndexToVisible s iMatch =
     (let iPos = js_indexOf iMatch (fnGetColumns bVisible s)
      in if iPos \<noteq> -1 then Some (nat iPos) else None)"

definition fnVisbleColumns :: "('r, 'k) settings \<Rightarrow> nat" where
  "fnVisbleColumns s = length (fnGetColumns bVisible s)"

text \<open>
  \<open>_fnColumnTypes\<close>: the first detector that accepts every cell of the column; a detector
  that answers \<open>'html'\<close> once is accepted at once. The variable \<open>detectedType\<close> keeps the
  answer for the last cell looked at, and its old value when there are no rows.
\<close>

fun detect_cells :: "(string \<Rightarrow> string option) \<Rightarrow> string option \<Rightarrow> string list \<Rightarrow> string option" where
  "detect_cells ty old [] = old"
| "detect_cells ty old (c # cs) =
     (case ty c of
        None \<Rightarrow> None
      | Some t \<Rightarrow> if t = ''html'' then Some t else detect_cells ty (Some t) cs)"

fun detect_types :: "(string \<Rightarrow> string option) list \<Rightarrow> string option \<Rightarrow> string list \<Rightarrow> string option \<times> string option" where
  "detect_types [] old cells = (None, old)"
| "detect_types (ty # tys) old cells =
     (case detect_cells ty old cells of
        Some t \<Rightarrow> (Some t, Some t)
      | None \<Rightarrow> detect_types tys None cells)"

fun column_types ::
  "(string \<Rightarrow> string option) list \<Rightarrow> ('r, 'k) row list \<Rightarrow> string option \<Rightarrow> ('r, 'k) column list \<Rightarrow> ('r, 'k) column list" where
  "column_types types data old [] = []"
| "column_types types data old (col # cols) =
     (case sType col of
        Some t \<Rightarrow> col # column_types types data old cols
      | None \<Rightarrow>
          (case sManualType col of
             Some t \<Rightarrow> col\<lparr>sType := Some t\<rparr> # column_types types data old cols
           | None \<Rightarrow>
               (let (found, old2) = detect_types types old (map (\<lambda>r. fnTypeCell col (aData r)) data)
                in col\<lparr>sType := Some (case found of Some t \<Rightarrow> t | None \<Rightarrow> ''string'')\<rparr> #
                   column_types types data old2 cols)))"

definition fnColumnTypes :: "(string \<Rightarrow> string option) list \<Rightarrow> ('r, 'k) settings \<Rightarrow> ('r, 'k) settings" where
  "fnColumnTypes types s = s\<lparr>aoColumns := column_types types (aoData s) None (aoColumns s)\<rparr>"

section \<open>Rows\<close>

definition fnAddData :: "'r \<Rightarrow> ('r, 'k) settings \<Rightarrow> nat \<times> ('r, 'k) settings" where
  "fnAddData aDataIn s =
     (let iRow = length (aoData s);
          oData = \<lparr>aData = aDataIn, aFilterData = None, sFilterRow = [], aSortData = Map.empty,
                    nTr = \<not> bDeferRender s, sRowStripe = []\<rparr>
      in (iRow, s\<lparr>aoData := aoData s @ [oData],
                  aoColumns := map (\<lambda>c. c\<lparr>sType := None\<rparr>) (aoColumns s),
                  aiDisplayMaster := aiDisplayMaster s @ [iRow]\<rparr>))"

definition fnClearTable :: "('r, 'k) settings \<Rightarrow> ('r, 'k) settings" where
  "fnClearTable s = s\<lparr>aoData := [], aiDisplayMaster := [], aiDisplay := []\<rparr>"

text \<open>
  The loop of \<open>_fnDeleteIndex\<close>: the position of the last occurrence of the target, and the
  array with every greater entry lowered by one.
\<close>

fun delete_loop :: "nat \<Rightarrow> nat \<Rightarrow> int \<Rightarrow> nat list \<Rightarrow> int \<times> nat list" where
  "delete_loop t i found [] = (found, [])"
| "delete_loop t i found (x # xs) =
     (let (f, ys) = delete_loop t (Suc i) (if x = t then int i else found) xs
      in (f, (if x > t then x - 1 else x) # ys))"

definition fnDeleteIndex :: "nat list \<Rightarrow> nat \<Rightarrow> bool \<Rightarrow> nat list" where
  "fnDeleteIndex a iTarget noSplice =
     (let (f, ys) = delete_loop iTarget 0 (- 1) a
      in if f \<noteq> -1 \<and> \<not> noSplice then take (nat f) ys @ drop (Suc (nat f)) ys else ys)"

section \<open>Search expressions\<close>

definition fnEscapeRegex :: "string \<Rightarrow> string" where
  "fnEscapeRegex sVal = escape_literal sVal"

text \<open>The matches of \<open>/"[^"]+"|[^ ]+/g\<close>.\<close>

function smart_tokens :: "string \<Rightarrow> string list" where
  "smart_tokens s =
     (case s of
        [] \<Rightarrow> []
      | c # cs \<Rightarrow>
          if c = CHR '' '' then smart_tokens cs
          else (let body = takeWhile (\<lambda>d. d \<noteq> CHR 0x22) cs; rest = dropWhile (\<lambda>d. d \<noteq> CHR 0x22) cs
                in if c = CHR 0x22 \<and> body \<noteq> [] \<and> rest \<noteq> []
                   then (c # body @ [CHR 0x22]) # smart_tokens (tl rest)
                   else (c # takeWhile (\<lambda>d. d \<noteq> CHR '' '') cs) #
                          smart_tokens (dropWhile (\<lambda>d. d \<noteq> CHR '' '') cs)))"
  by pat_completeness auto
termination
proof (relation "measure length")
  fix c and s cs body rest :: string
  assume "s = c # cs" "rest = dropWhile (\<lambda>d. d \<noteq> CHR 0x22) cs"
  then show "(tl rest, s) \<in> measure length"
    using length_dropWhile_le [of "\<lambda>d. d \<noteq> CHR 0x22" cs] by simp
next
  fix c and s cs body rest :: string
  assume "s = c # cs"
  then show "(dropWhile (\<lambda>d. d \<noteq> CHR '' '') cs, s) \<in> measure length"
    using length_dropWhile_le [of "\<lambda>d. d \<noteq> CHR '' ''" cs] by simp
qed simp_all

declare smart_tokens.simps [simp del]

text \<open>
  \<open>word.match(/^"(.*)"$/)[1]\<close> for a word that starts with a quote: no match is \<open>null\<close>,
  whose entry 1 raises a \<open>TypeError\<close>.
\<close>

definition unquote :: "string \<Rightarrow> string js" where
  "unquote word =
     (if word \<noteq> [] \<and> hd word = CHR 0x22
      then (if 2 \<le> length word \<and> last word = CHR 0x22 \<and>
               list_all (\<lambda>c. char_code c \<noteq> 10 \<and> char_code c \<noteq> 13) (butlast (tl word))
            then Inr (butlast (tl word)) else Inl TypeError)
      else Inr word)"

fun js_mapM :: "('a \<Rightarrow> 'b js) \<Rightarrow> 'a list \<Rightarrow> 'b list js" where
  "js_mapM f [] = Inr []"
| "js_mapM f (x # xs) = js_bind (f x) (\<lambda>y. js_bind (js_mapM f xs) (\<lambda>ys. Inr (y # ys)))"

text \<open>
  The search expression: \<open>^(?=.*?w1)...(?=.*?wn).*$\<close> is the list of its patterns, a plain
  expression is one pattern. A pattern that is literal text is searched for as such; any
  other one, which only the regex option lets through, is the engine's. The expression of
  smart search fails on text with a line break; the texts searched have none (\<open>filter_cell\<close>).
\<close>

datatype search_re = SmartRe "string list" bool | PlainRe string bool

type_synonym engine = "string \<Rightarrow> bool \<Rightarrow> string \<Rightarrow> bool"

definition fnFilterCreateSearch :: "string \<Rightarrow> bool \<Rightarrow> bool \<Rightarrow> bool \<Rightarrow> search_re js" where
  "fnFilterCreateSearch str regex smart caseInsensitive =
     (let str = (if regex then str else fnEscapeRegex str)
      in if smart
         then js_bind (js_mapM unquote (smart_tokens str)) (\<lambda>ws. Inr (SmartRe ws caseInsensitive))
         else Inr (PlainRe str caseInsensitive))"

definition pattern_occurs :: "engine \<Rightarrow> bool \<Rightarrow> string \<Rightarrow> string \<Rightarrow> bool" where
  "pattern_occurs eng ci p data =
     (case regex_literal p of Some lit \<Rightarrow> contains_ci ci lit data | None \<Rightarrow> eng p ci data)"

fun re_test :: "engine \<Rightarrow> search_re \<Rightarrow> string \<Rightarrow> bool" where
  "re_test eng (SmartRe ws ci) data = list_all (\<lambda>w. pattern_occurs eng ci w data) ws"
| "re_test eng (PlainRe p ci) data = pattern_occurs eng ci p data"

section \<open>Filtering\<close>

definition filter_cell :: "(string \<Rightarrow> string) \<Rightarrow> ('r, 'k) column \<Rightarrow> 'r \<Rightarrow> string" where
  "filter_cell html_decode col d =
     (let c = (if bSearchable col then (case fnFilterCell col d of None \<Rightarrow> [] | Some t \<Rightarrow> t) else []);
          c = (if CHR ''&'' \<in> set c then html_decode c else c)
      in filter (\<lambda>x. char_code x \<noteq> 10 \<and> char_code x \<noteq> 13) c)"

definition filter_row :: "(string \<Rightarrow> string) \<Rightarrow> ('r, 'k) column list \<Rightarrow> ('r, 'k) row \<Rightarrow> ('r, 'k) row" where
  "filter_row html_decode cols r =
     (case aFilterData r of
        Some _ \<Rightarrow> r
      | None \<Rightarrow> (let fd = map (\<lambda>c. filter_cell html_decode c (aData r)) cols
                in r\<lparr>aFilterData := Some fd, sFilterRow := join ''  '' fd\<rparr>))"

definition fnFilterData :: "(string \<Rightarrow> string) \<Rightarrow> ('r, 'k) settings \<Rightarrow> bool \<times> ('r, 'k) settings" where
  "fnFilterData html_decode s =
     (list_ex (\<lambda>r. aFilterData r = None) (aoData s),
      s\<lparr>aoData := map (filter_row html_decode (aoColumns s)) (aoData s)\<rparr>)"

text \<open>The loop that runs down the display array and splices out the rows that fail the test.\<close>

fun splice_loop :: "('a \<Rightarrow> bool) \<Rightarrow> nat \<Rightarrow> 'a list \<Rightarrow> 'a list" where
  "splice_loop test 0 xs = xs"
| "splice_loop test (Suc i) xs =
     splice_loop test i (if \<not> test (xs ! i) then take i xs @ drop (Suc i) xs else xs)"

definition fnFilter ::
  "engine \<Rightarrow> (string \<Rightarrow> string) \<Rightarrow> bool \<Rightarrow> string \<Rightarrow> bool \<Rightarrow> bool \<Rightarrow> bool \<Rightarrow> bool \<Rightarrow> ('r, 'k) settings \<Rightarrow>
   ('r, 'k) settings js" where
  "fnFilter eng html_decode customs input force regex smart caseInsensitive s =
     js_bind (fnFilterCreateSearch input regex smart caseInsensitive) (\<lambda>rpSearch.
       let prevSearch = sSearch (oPreviousSearch s);
           force = (force \<or> customs);
           (invalidated, s1) = fnFilterData html_decode s
       in if input = [] then Inr (s1\<lparr>aiDisplay := aiDisplayMaster s1\<rparr>)
          else (let display = (if invalidated \<or> force \<or> length prevSearch > length input \<or>
                                  \<not> prefix prevSearch input \<or> bSorted s1
                               then aiDisplayMaster s1 else aiDisplay s1)
                in Inr (s1\<lparr>aiDisplay :=
                     splice_loop (\<lambda>i. re_test eng rpSearch (sFilterRow (aoData s1 ! i))) (length display) display\<rparr>)))"

definition fnFilterColumn ::
  "engine \<Rightarrow> string \<Rightarrow> nat \<Rightarrow> bool \<Rightarrow> bool \<Rightarrow> bool \<Rightarrow> ('r, 'k) settings \<Rightarrow> ('r, 'k) settings js" where
  "fnFilterColumn eng searchStr colIdx regex smart caseInsensitive s =
     (if searchStr = [] then Inr s
      else js_bind (fnFilterCreateSearch searchStr regex smart caseInsensitive) (\<lambda>rpSearch.
             let display = aiDisplay s
             in Inr (s\<lparr>aiDisplay :=
                  splice_loop (\<lambda>i. re_test eng rpSearch (the (aFilterData (aoData s ! i)) ! colIdx))
                    (length display) display\<rparr>)))"

text \<open>A custom filter sees the row's filter data, its index, its data and its position.\<close>

type_synonym 'r custom = "string list \<Rightarrow> nat \<Rightarrow> 'r \<Rightarrow> nat \<Rightarrow> bool"

definition fnFilterCustom :: "'r custom list \<Rightarrow> ('r, 'k) settings \<Rightarrow> ('r, 'k) settings" where
  "fnFilterCustom filters s =
     foldl (\<lambda>s f. s\<lparr>aiDisplay :=
              map fst (filter (\<lambda>(rowIdx, j). f (the (aFilterData (aoData s ! rowIdx))) rowIdx
                                              (aData (aoData s ! rowIdx)) j)
                        (zip (aiDisplay s) [0..<length (aiDisplay s)]))\<rparr>) s filters"

definition fnFilterComplete ::
  "engine \<Rightarrow> (string \<Rightarrow> string) \<Rightarrow> (string \<Rightarrow> string option) list \<Rightarrow> 'r custom list \<Rightarrow> search \<Rightarrow> bool \<Rightarrow>
   ('r, 'k) settings \<Rightarrow> ('r, 'k) settings js" where
  "fnFilterComplete eng html_decode types customs oInput iForce s =
     (let s0 = fnColumnTypes types s
      in js_bind
           (if \<not> bServerSide s0
            then js_bind (fnFilter eng html_decode (customs \<noteq> []) (sSearch oInput) iForce (bRegex oInput)
                            (bSmart oInput) (bCaseInsensitive oInput) s0) (\<lambda>s1.
                   let s2 = s1\<lparr>oPreviousSearch := oInput\<rparr>
                   in js_bind
                        (foldl (\<lambda>m i. js_bind m (\<lambda>t. let p = aoPreSearchCols t ! i
                                 in fnFilterColumn eng (sSearch p) i (bRegex p) (bSmart p) (bCaseInsensitive p) t))
                           (Inr s2) [0..<length (aoPreSearchCols s2)])
                        (\<lambda>t. Inr (fnFilterCustom customs t)))
            else Inr (s0\<lparr>oPreviousSearch := oInput\<rparr>))
           (\<lambda>t. Inr (t\<lparr>bFiltered := True\<rparr>)))"

section \<open>Lemmas on search expressions\<close>

lemma splice_loop_filter:
  "n \<le> length xs \<Longrightarrow> splice_loop test n xs = filter test (take n xs) @ drop n xs"
proof (induction n arbitrary: xs)
  case (Suc n)
  have split: "take (Suc n) xs = take n xs @ [xs ! n]" "drop n xs = xs ! n # drop (Suc n) xs"
    using Suc.prems by (simp_all add: take_Suc_conv_app_nth Cons_nth_drop_Suc)
  show ?case
  proof (cases "test (xs ! n)")
    case True
    then show ?thesis using Suc split by simp
  next
    case False
    then show ?thesis using Suc.IH [of "take n xs @ drop (Suc n) xs"] Suc.prems split by simp
  qed
qed simp

lemma special_not: "regex_special c \<Longrightarrow> c \<noteq> CHR '' '' \<and> c \<noteq> CHR 0x22"
  by (auto simp: regex_special_def)

lemma escape_tl: "s = [] \<or> \<not> regex_special (hd s) \<Longrightarrow> tl (escape_literal s) = escape_literal (tl s)"
  by (cases s) auto

lemma quote_escape [simp]: "CHR 0x22 \<in> set (escape_literal s) \<longleftrightarrow> CHR 0x22 \<in> set s"
  by (induction s) auto

lemma smart_tokens_escape: "smart_tokens (escape_literal s) = map escape_literal (smart_tokens s)"
proof (induction s rule: smart_tokens.induct)
  case (1 s)
  let ?q = "\<lambda>d. d \<noteq> CHR 0x22" and ?b = "\<lambda>d. d \<noteq> CHR '' ''"
  have tw: "takeWhile ?q (escape_literal u) = escape_literal (takeWhile ?q u)"
    "dropWhile ?q (escape_literal u) = escape_literal (dropWhile ?q u)"
    "takeWhile ?b (escape_literal u) = escape_literal (takeWhile ?b u)"
    "dropWhile ?b (escape_literal u) = escape_literal (dropWhile ?b u)" for u
    using escape_takeWhile [of ?q u] escape_takeWhile [of ?b u] special_not by blast+
  show ?case
  proof (cases s)
    case Nil
    then show ?thesis by (simp add: smart_tokens.simps [of "[]"])
  next
    case (Cons c cs)
    let ?rest = "dropWhile ?q cs"
    consider "c = CHR '' ''" | "c = CHR 0x22 \<and> takeWhile ?q cs \<noteq> [] \<and> ?rest \<noteq> []"
      | "c \<noteq> CHR '' ''" "\<not> (c = CHR 0x22 \<and> takeWhile ?q cs \<noteq> [] \<and> ?rest \<noteq> [])" by blast
    then show ?thesis
    proof cases
      case a: 1
      then have "\<not> regex_special c" using special_not by blast
      then show ?thesis using 1(1) [OF Cons a] Cons a
        by (simp add: smart_tokens.simps [of "CHR '' '' # u" for u])
    next
      case b: 2
      then have ns: "\<not> regex_special c" using special_not by blast
      have hd: "hd ?rest = CHR 0x22" using b hd_dropWhile [of ?q cs] by auto
      then have "tl (escape_literal ?rest) = escape_literal (tl ?rest)"
        using special_not by (intro escape_tl) auto
      moreover have "smart_tokens (escape_literal (tl ?rest)) = map escape_literal (smart_tokens (tl ?rest))"
        using 1(2) [OF Cons] b by simp
      ultimately show ?thesis using Cons b ns special_not [of "CHR 0x22"]
        by (simp add: smart_tokens.simps [of "CHR 0x22 # u" for u] Let_def tw)
    next
      case d: 3
      have IH: "smart_tokens (escape_literal (dropWhile ?b cs)) = map escape_literal (smart_tokens (dropWhile ?b cs))"
        using 1(3) [OF Cons d(1) refl refl] d(2) by blast
      have "smart_tokens (c # cs) = (c # takeWhile ?b cs) # smart_tokens (dropWhile ?b cs)"
        using d by (auto simp: smart_tokens.simps [of "c # cs"] Let_def)
      moreover have "smart_tokens (escape_literal (c # cs)) =
          escape_literal (c # takeWhile ?b cs) # smart_tokens (escape_literal (dropWhile ?b cs))"
      proof (cases "regex_special c")
        case True
        then show ?thesis using d(1)
          by (simp add: smart_tokens.simps [of "CHR 0x5C # c # escape_literal cs"] Let_def tw)
      next
        case False
        then show ?thesis using d
          by (auto simp: smart_tokens.simps [of "c # escape_literal cs"] Let_def tw)
      qed
      ultimately show ?thesis using IH Cons by simp
    qed
  qed
qed

lemma last_escape: "w \<noteq> [] \<Longrightarrow> last (escape_literal w) = last w"
  by (induction w rule: rev_induct) auto

lemma newline_escape:
  "list_all (\<lambda>c. char_code c \<noteq> 10 \<and> char_code c \<noteq> 13) (escape_literal w) =
   list_all (\<lambda>c. char_code c \<noteq> 10 \<and> char_code c \<noteq> 13) w"
  by (induction w) (auto simp: char_code_def)

lemma unquote_escape:
  "unquote (escape_literal w) = (case unquote w of Inl e \<Rightarrow> Inl e | Inr v \<Rightarrow> Inr (escape_literal v))"
proof (cases "w \<noteq> [] \<and> hd w = CHR 0x22")
  case True
  then obtain v where w: "w = CHR 0x22 # v" by (cases w) auto
  have ns: "\<not> regex_special CHR 0x22" using special_not by blast
  show ?thesis
  proof (cases "v \<noteq> [] \<and> last v = CHR 0x22")
    case True
    then obtain u where v: "v = u @ [CHR 0x22]" by (metis append_butlast_last_id)
    then show ?thesis using ns w by (simp add: unquote_def butlast_append newline_escape)
  next
    case False
    then have "\<not> (escape_literal v \<noteq> [] \<and> last (escape_literal v) = CHR 0x22)" using last_escape [of v] by auto
    then have "unquote (escape_literal w) = Inl TypeError" "unquote w = Inl TypeError"
      using False w ns by (auto simp: unquote_def split: if_splits)
    then show ?thesis by simp
  qed
next
  case False
  then have "escape_literal w = [] \<or> hd (escape_literal w) \<noteq> CHR 0x22" by (cases w) auto
  with False show ?thesis by (auto simp: unquote_def)
qed

lemma js_mapM_escape:
  "js_mapM unquote (map escape_literal ts) =
     (case js_mapM unquote ts of Inl e \<Rightarrow> Inl e | Inr vs \<Rightarrow> Inr (map escape_literal vs))"
proof (induction ts)
  case (Cons t ts)
  then show ?case by (cases "unquote t"; cases "js_mapM unquote ts") (simp_all add: unquote_escape)
qed simp

lemma create_smart:
  "fnFilterCreateSearch str False True ci =
     (case js_mapM unquote (smart_tokens str) of
        Inl e \<Rightarrow> Inl e | Inr ws \<Rightarrow> Inr (SmartRe (map escape_literal ws) ci))"
  by (cases "js_mapM unquote (smart_tokens str)")
     (simp_all add: fnFilterCreateSearch_def fnEscapeRegex_def smart_tokens_escape js_mapM_escape)






















text \<open>
  C33: a search that starts with a double quote and has no other one raises a \<open>TypeError\<close>:
  the expression for words accepts the lone quote as part of a word, the expression that
  strips the quotes does not match it, and its missing result is read. So typing the first
  quote of a phrase breaks the search box.
\<close>

theorem unclosed_quote_raises:
  assumes "CHR 0x22 \<notin> set s"
  shows "fnFilterCreateSearch (CHR 0x22 # s) False True ci = Inl TypeError"
proof -
  let ?w = "CHR 0x22 # takeWhile (\<lambda>d. d \<noteq> CHR '' '') s"
  have "smart_tokens (CHR 0x22 # s) = ?w # smart_tokens (dropWhile (\<lambda>d. d \<noteq> CHR '' '') s)"
    using assms by (simp add: smart_tokens.simps [of "CHR 0x22 # s"] Let_def)
  moreover have "last ?w \<noteq> CHR 0x22 \<or> length ?w < 2"
  proof (cases "takeWhile (\<lambda>d. d \<noteq> CHR '' '') s = []")
    case False
    then have "last ?w \<in> set s" using set_takeWhileD [OF last_in_set [OF False]] by simp
    then have "last ?w \<noteq> CHR 0x22" using assms by metis
    then show ?thesis ..
  qed simp
  then have "\<not> (2 \<le> length ?w \<and> last ?w = CHR 0x22)" by linarith
  then have "unquote ?w = Inl TypeError" unfolding unquote_def by (simp del: last.simps) blast
  ultimately show ?thesis by (simp add: create_smart)
qed

theorem unclosed_quote_raises_witness: "fnFilterCreateSearch [CHR 0x22] False True True = Inl TypeError"
  by (rule unclosed_quote_raises) simp

section \<open>Filtering step by step\<close>

lemma smart_tokens_plain:
  "CHR 0x22 \<notin> set s \<Longrightarrow> smart_tokens s = match_runs (\<lambda>c. c \<noteq> CHR '' '') s"
proof (induction s rule: smart_tokens.induct)
  case (1 s)
  show ?case
  proof (cases s)
    case (Cons c cs)
    show ?thesis
    proof (cases "c = CHR '' ''")
      case True
      then show ?thesis using 1 Cons match_runs_skip [of "\<lambda>c. c \<noteq> CHR '' ''" "[CHR '' '']" cs]
        by (simp add: smart_tokens.simps [of "CHR '' '' # cs"])
    next
      case False
      have "CHR 0x22 \<notin> set (dropWhile (\<lambda>d. d \<noteq> CHR '' '') cs)"
        using 1(4) Cons by (auto dest: set_dropWhileD)
      then show ?thesis using 1 Cons False
        by (auto simp: smart_tokens.simps [of "c # cs"] match_runs.simps [of _ "c # cs"] Let_def)
    qed
  qed (simp add: smart_tokens.simps match_runs.simps)
qed

lemma match_runs_no_run: "dropWhile (\<lambda>c. \<not> P c) s = [] \<Longrightarrow> match_runs P s = []"
  by (subst match_runs.simps) (simp only: list.case)

lemma match_runs_nil: "match_runs P [] = []"
  by (rule match_runs_no_run) simp

lemma match_runs_prefix:
  "w \<in> set (match_runs P p) \<Longrightarrow> \<exists>w'\<in>set (match_runs P (p @ t)). prefix w w'"
proof (induction P p rule: match_runs.induct)
  case (1 P p)
  show ?case
  proof (cases "dropWhile (\<lambda>c. \<not> P c) p")
    case Nil
    then have "match_runs P p = []" by (rule match_runs_no_run)
    then show ?thesis using 1(2) by simp
  next
    case (Cons c cs)
    then have p: "match_runs P p = (c # takeWhile P cs) # match_runs P (dropWhile P cs)"
      by (simp add: match_runs.simps [of P p])
    have "dropWhile (\<lambda>c. \<not> P c) (p @ t) = c # cs @ t"
      using Cons by (induction p) auto
    then have pt: "match_runs P (p @ t) = (c # takeWhile P (cs @ t)) # match_runs P (dropWhile P (cs @ t))"
      by (simp add: match_runs.simps [of P "p @ t"])
    show ?thesis
    proof (cases "\<forall>x\<in>set cs. P x")
      case True
      then have "takeWhile P cs = cs" "dropWhile P cs = []" "takeWhile P (cs @ t) = cs @ takeWhile P t"
        by (simp_all add: takeWhile_append2)
      then have "w = c # cs" using 1(2) unfolding p by (simp only: match_runs_nil list.set) simp
      then show ?thesis unfolding pt using \<open>takeWhile P (cs @ t) = _\<close> by simp
    next
      case False
      then obtain x where "x \<in> set cs" "\<not> P x" by blast
      then have "takeWhile P (cs @ t) = takeWhile P cs" "dropWhile P (cs @ t) = dropWhile P cs @ t"
        by (simp_all add: takeWhile_append1 dropWhile_append1)
      then show ?thesis using 1(1) [OF Cons] 1(2) unfolding p pt by auto
    qed
  qed
qed

text \<open>What it means for a row to match what was typed, without quotes and regular expressions.\<close>

definition row_matches :: "bool \<Rightarrow> bool \<Rightarrow> string \<Rightarrow> string \<Rightarrow> bool" where
  "row_matches smart ci str data =
     (if smart then list_all (\<lambda>w. contains_ci ci w data) (match_runs (\<lambda>c. c \<noteq> CHR '' '') str)
      else contains_ci ci str data)"

lemma create_plain:
  assumes "CHR 0x22 \<notin> set str"
  shows "\<exists>re. fnFilterCreateSearch str False smart ci = Inr re \<and> re_test eng re = row_matches smart ci str"
proof (cases smart)
  case True
  have "js_mapM unquote ts = Inr ts" if "\<And>w. w \<in> set ts \<Longrightarrow> CHR 0x22 \<notin> set w" for ts
    using that
  proof (induction ts)
    case (Cons w ws)
    have "CHR 0x22 \<notin> set w" using Cons.prems by simp
    then have "unquote w = Inr w" by (cases w) (auto simp: unquote_def)
    with Cons show ?case by simp
  qed simp
  moreover have "CHR 0x22 \<notin> set w" if "w \<in> set (match_runs P str)" for w P
    using that assms
  proof (induction P str rule: match_runs.induct)
    case (1 P s)
    show ?case
    proof (cases "dropWhile (\<lambda>c. \<not> P c) s")
      case (Cons c cs)
      then have "set (c # cs) \<subseteq> set s" by (metis set_dropWhileD subsetI)
      then show ?thesis using 1 Cons
        by (auto simp: match_runs.simps [of P s] dest!: set_takeWhileD dest: set_dropWhileD)
    next
      case Nil
      then show ?thesis using 1(2) match_runs_no_run [OF Nil] by simp
    qed
  qed
  ultimately have "js_mapM unquote (smart_tokens str) = Inr (match_runs (\<lambda>c. c \<noteq> CHR '' '') str)"
    by (simp add: smart_tokens_plain [OF assms])
  then show ?thesis using True
    by (auto simp: create_smart row_matches_def list_all_iff pattern_occurs_def fun_eq_iff)
next
  case False
  then show ?thesis
    by (auto simp: fnFilterCreateSearch_def fnEscapeRegex_def row_matches_def pattern_occurs_def fun_eq_iff)
qed

lemma row_matches_mono:
  assumes "prefix p s" "row_matches smart ci s data"
  shows "row_matches smart ci p data"
proof (cases smart)
  case True
  obtain t where s: "s = p @ t" using assms(1) by (auto simp: prefix_def)
  have "contains_ci ci w data" if w: "w \<in> set (match_runs (\<lambda>c. c \<noteq> CHR '' '') p)" for w
  proof -
    obtain w' where "w' \<in> set (match_runs (\<lambda>c. c \<noteq> CHR '' '') s)" "prefix w w'"
      using match_runs_prefix [OF w, of t] s by blast
    then show ?thesis using True assms(2) contains_ci_mono [OF prefix_imp_sublist]
      by (auto simp: row_matches_def list_all_iff)
  qed
  then show ?thesis using True by (simp add: row_matches_def list_all_iff)
next
  case False
  then show ?thesis using assms contains_ci_mono [OF prefix_imp_sublist] by (auto simp: row_matches_def)
qed

text \<open>
  C34: filtering what is already filtered, for plain text. Let the search be without the regex
  option and the new text without double quotes, and let the display array hold what the previous
  text finds in the master array with the same settings for words and case. Extending the search
  then only looks through the rows still displayed; the result is nevertheless the one of searching
  all rows, in their order, for the new text, whichever way \<open>_fnFilter\<close> takes (new rows, forced,
  shorter or different text, after a sort). For regular expressions this is false
  (\<open>regex_search_loses_rows\<close> below).
\<close>

theorem fnFilter_incremental:
  assumes "CHR 0x22 \<notin> set input"
    "aiDisplay s = filter (\<lambda>i. row_matches smart ci (sSearch (oPreviousSearch s)) (sFilterRow (aoData s ! i)))
       (aiDisplayMaster s)"
  shows "\<exists>s'. fnFilter eng html_decode customs input force False smart ci s = Inr s' \<and>
    aiDisplayMaster s' = aiDisplayMaster s \<and>
    aiDisplay s' = (if input = [] then aiDisplayMaster s
      else filter (\<lambda>i. row_matches smart ci input (sFilterRow (aoData s' ! i))) (aiDisplayMaster s))"
proof -
  let ?M = "aiDisplayMaster s" and ?prev = "sSearch (oPreviousSearch s)"
  obtain re where re: "fnFilterCreateSearch input False smart ci = Inr re" "re_test eng re = row_matches smart ci input"
    using create_plain [OF assms(1)] by blast
  define rows where "rows = map (filter_row html_decode (aoColumns s)) (aoData s)"
  have keep: "filter (\<lambda>i. row_matches smart ci input (sFilterRow (rows ! i))) (aiDisplay s) =
      filter (\<lambda>i. row_matches smart ci input (sFilterRow (rows ! i))) ?M"
    if ok: "\<forall>r\<in>set (aoData s). aFilterData r \<noteq> None" "prefix ?prev input"
  proof -
    have "rows = aoData s" unfolding rows_def using ok(1) by (intro map_idI) (auto simp: filter_row_def)
    then show ?thesis unfolding assms(2)
      using row_matches_mono [OF ok(2)] by (auto intro!: filter_cong)
  qed
  define display where "display = (if list_ex (\<lambda>r. aFilterData r = None) (aoData s) \<or> force \<or> customs \<or>
      length ?prev > length input \<or> \<not> prefix ?prev input \<or> bSorted s then ?M else aiDisplay s)"
  have "filter (\<lambda>i. row_matches smart ci input (sFilterRow (rows ! i))) display =
      filter (\<lambda>i. row_matches smart ci input (sFilterRow (rows ! i))) ?M"
    using keep by (auto simp: display_def list_ex_iff)
  moreover have "fnFilter eng html_decode customs input force False smart ci s =
      Inr (s\<lparr>aoData := rows, aiDisplay := (if input = [] then ?M
        else filter (\<lambda>i. row_matches smart ci input (sFilterRow (rows ! i))) display)\<rparr>)"
    using re by (simp add: fnFilter_def fnFilterData_def Let_def splice_loop_filter rows_def [symmetric] display_def)
  ultimately show ?thesis by simp
qed

definition sample_column :: "(string, nat) column" where
  "sample_column = \<lparr>sName = [], mDataProp = ''0'', bVisible = True, bSearchable = True, bSortable = True, asSorting = [''asc'', ''desc''],
     aDataSort = [0], sType = Some ''string'', sManualType = None, fnFilterCell = Some, fnTypeCell = id,
     fnSortCell = length, customSort = None\<rparr>"

text \<open>A table of one column with the given texts, searched for a text.\<close>

definition sample_row :: "string \<Rightarrow> (string, nat) row" where
  "sample_row t = \<lparr>aData = t, aFilterData = Some [t], sFilterRow = t, aSortData = Map.empty,
     nTr = True, sRowStripe = []\<rparr>"

definition sample_settings :: "string list \<Rightarrow> string \<Rightarrow> nat list \<Rightarrow> (string, nat) settings" where
  "sample_settings ts prev display =
     \<lparr>aoColumns = [sample_column], aoData = map sample_row ts, aiDisplayMaster = [0..<length ts],
      aiDisplay = display,
      oPreviousSearch = \<lparr>sSearch = prev, bRegex = False, bSmart = True, bCaseInsensitive = True\<rparr>,
      aoPreSearchCols = [], bSorted = False, bFiltered = False, bServerSide = False, bSort = True,
      bFilter = True, bPaginate = True, bSortMulti = True,
      aaSorting = [\<lparr>so_col = 0, so_dir = ''asc'', so_idx = None\<rparr>],
      iDisplayStart = 0, iDisplayLength = 10, iInitDisplayStart = -1, iRecordsTotal = 0,
      iRecordsDisplay = 0, iDraw = 0, bDeferRender = False, bDeferLoading = False, bDestroying = False,
      bAjaxDataGet = True, hasAjax = False, asStripeClasses = [''odd'', ''even''],
      oLanguage = \<lparr>sZeroRecords = ''none'', sLoadingRecords = ''loading'', sEmptyTable = ''empty''\<rparr>,
      tbody = []\<rparr>"

theorem fnFilter_incremental_witness:
  "\<exists>s'. fnFilter (\<lambda>_ _ _. False) id False ''ab'' False False True True
      (sample_settings [''abc'', ''xyz'', ''acd''] ''a'' [0, 2]) = Inr s' \<and> aiDisplay s' = [0]"
proof -
  let ?s = "sample_settings [''abc'', ''xyz'', ''acd''] ''a'' [0, 2]"
  have "aiDisplay ?s = filter (\<lambda>i. row_matches True True (sSearch (oPreviousSearch ?s)) (sFilterRow (aoData ?s ! i)))
      (aiDisplayMaster ?s)" by code_simp
  from fnFilter_incremental [OF _ this, of "''ab''" "\<lambda>_ _ _. False" id False False]
  obtain s' where s': "fnFilter (\<lambda>_ _ _. False) id False ''ab'' False False True True ?s = Inr s'" by auto
  moreover have "case fnFilter (\<lambda>_ _ _. False) id False ''ab'' False False True True ?s of
      Inl _ \<Rightarrow> False | Inr s' \<Rightarrow> aiDisplay s' = [0]" by code_simp
  ultimately show ?thesis by simp
qed

text \<open>
  With the regex option, typing on can lose rows: after \<open>a\<close>, the expression \<open>a|b\<close> is only looked
  for in the rows that have an \<open>a\<close>, and the row \<open>b\<close>, which it matches, stays away, while the same
  search made from scratch finds both. The engine is one that knows this expression.
\<close>

definition either_engine :: engine where
  "either_engine p ci data = (p = ''a|b'' \<and> (contains_ci ci ''a'' data \<or> contains_ci ci ''b'' data))"

lemma regex_search_loses_rows:
  "case fnFilter either_engine id False ''a|b'' False True False True (sample_settings [''a'', ''b''] ''a'' [0]) of
     Inl _ \<Rightarrow> False | Inr s \<Rightarrow> aiDisplay s = [0]"
  "case fnFilter either_engine id False ''a|b'' True True False True (sample_settings [''a'', ''b''] ''a'' [0]) of
     Inl _ \<Rightarrow> False | Inr s \<Rightarrow> aiDisplay s = [0, 1]"
  by code_simp+

section \<open>Deleting rows\<close>

lemma delete_loop_absent:
  "t \<notin> set xs \<Longrightarrow> delete_loop t i f xs = (f, map (\<lambda>x. if x > t then x - 1 else x) xs)"
  by (induction xs arbitrary: i f) auto

lemma delete_loop_present:
  "t \<notin> set us \<Longrightarrow> t \<notin> set vs \<Longrightarrow>
   delete_loop t i f (us @ t # vs) =
     (int (i + length us), map (\<lambda>x. if x > t then x - 1 else x) (us @ t # vs))"
  by (induction us arbitrary: i f) (auto simp: delete_loop_absent)

lemma fnDeleteIndex_map:
  assumes "distinct a"
  shows "fnDeleteIndex a t False = map (\<lambda>x. if x > t then x - 1 else x) (filter (\<lambda>x. x \<noteq> t) a)"
proof (cases "t \<in> set a")
  case True
  then obtain us vs where a: "a = us @ t # vs" by (auto dest: split_list)
  then have n: "t \<notin> set us" "t \<notin> set vs" using assms by auto
  then have "filter (\<lambda>x. x \<noteq> t) us = us" "filter (\<lambda>x. x \<noteq> t) vs = vs" by (auto intro: filter_True)
  then show ?thesis unfolding fnDeleteIndex_def a delete_loop_present [OF n] by simp
next
  case False
  then have "filter (\<lambda>x. x \<noteq> t) a = a" by (auto intro: filter_True)
  then show ?thesis by (simp add: fnDeleteIndex_def delete_loop_absent [OF False])
qed

text \<open>
  When a row is spliced out of \<open>aoData\<close> and its index deleted from a display array, the
  array shows the rows it showed before, in the same order, without the deleted one.
\<close>

lemma delete_keeps_rows:
  assumes "distinct a" "set a \<subseteq> {..<length d}" "t < length d"
  shows "map ((!) (take t d @ drop (Suc t) d)) (fnDeleteIndex a t False) =
    map ((!) d) (filter (\<lambda>x. x \<noteq> t) a)"
proof -
  have "(take t d @ drop (Suc t) d) ! (if x > t then x - 1 else x) = d ! x" if "x < length d" "x \<noteq> t" for x
    using that assms(3) by (auto simp: nth_append min_def)
  moreover have "x < length d" "x \<noteq> t" if "x \<in> set (filter (\<lambda>x. x \<noteq> t) a)" for x
    using that assms(2) by auto
  ultimately show ?thesis unfolding fnDeleteIndex_map [OF assms(1)] map_map comp_def
    by (intro map_cong refl) blast
qed

end
