(* ===== verification/Table_Sort.thy ===== *)
theory Table_Sort
  imports Data_Table
begin

text \<open>
  Sorting in \<open>jquery.dataTables.js\<close>: the flattened sort request, the cache of sort keys, the
  comparison of two rows and \<open>_fnSort\<close>. \<open>Array.prototype.sort\<close> is known by its contract only
  (locale \<open>array_sort\<close>); the comparison \<open>_fnSort\<close> hands to it decides every pair of rows,
  so that the contract fixes the result. The sort keys of a column come from one linear
  order, as the formatter of its type computes them.
\<close>

section \<open>The contract of sorting\<close>

definition cmp_ok :: "'a set \<Rightarrow> ('a \<Rightarrow> 'a \<Rightarrow> int) \<Rightarrow> bool" where
  "cmp_ok A c \<longleftrightarrow> (\<forall>a\<in>A. c a a = 0) \<and> (\<forall>a\<in>A. \<forall>b\<in>A. c a b < 0 \<longleftrightarrow> 0 < c b a) \<and>
     (\<forall>a\<in>A. \<forall>b\<in>A. \<forall>d\<in>A. c a b \<le> 0 \<longrightarrow> c b d \<le> 0 \<longrightarrow> c a d \<le> 0)"

lemma cmp_ok_cong: "(\<And>a b. a \<in> A \<Longrightarrow> b \<in> A \<Longrightarrow> c a b = c' a b) \<Longrightarrow> cmp_ok A c \<longleftrightarrow> cmp_ok A c'"
  by (simp add: cmp_ok_def cong: ball_cong)

lemma cmp_ok_total: "cmp_ok A c \<Longrightarrow> x \<in> A \<Longrightarrow> y \<in> A \<Longrightarrow> \<not> c x y \<le> 0 \<Longrightarrow> c y x \<le> 0"
  unfolding cmp_ok_def by (metis linorder_not_le order_less_imp_le)

lemma cmp_ok_antisym: "cmp_ok A c \<Longrightarrow> x \<in> A \<Longrightarrow> y \<in> A \<Longrightarrow> c x y \<le> 0 \<Longrightarrow> c y x \<le> 0 \<Longrightarrow> c x y = 0"
  unfolding cmp_ok_def by (metis linorder_not_le order_antisym_conv)

lemma cmp_ok_trans: "cmp_ok A c \<Longrightarrow> {x, y, z} \<subseteq> A \<Longrightarrow> c x y \<le> 0 \<Longrightarrow> c y z \<le> 0 \<Longrightarrow> c x z \<le> 0"
  unfolding cmp_ok_def by blast

locale array_sort =
  fixes srt :: "('a \<Rightarrow> 'a \<Rightarrow> int) \<Rightarrow> 'a list \<Rightarrow> 'a list"
  assumes sort_mset: "mset (srt c xs) = mset xs"
    and sort_sorted: "cmp_ok (set xs) c \<Longrightarrow> sorted_wrt (\<lambda>a b. c a b \<le> 0) (srt c xs)"
begin

lemma sort_unique:
  assumes "cmp_ok (set xs) c" "\<And>a b. a \<in> set xs \<Longrightarrow> b \<in> set xs \<Longrightarrow> c a b = 0 \<Longrightarrow> a = b"
    "mset ys = mset xs" "sorted_wrt (\<lambda>a b. c a b \<le> 0) ys"
  shows "srt c xs = ys"
proof -
  have "us = vs" if "mset us = mset vs" "set us \<subseteq> set xs" "sorted_wrt (\<lambda>a b. c a b \<le> 0) us"
    "sorted_wrt (\<lambda>a b. c a b \<le> 0) vs" for us vs
    using that
  proof (induction us arbitrary: vs)
    case (Cons u us)
    then obtain v vs' where vs: "vs = v # vs'" by (cases vs) auto
    have sets: "set (u # us) = set (v # vs')" using Cons.prems(1) vs by (metis set_mset_mset)
    have mem: "u \<in> set xs" "v \<in> set xs" using Cons.prems(2) sets by auto
    have "c u u \<le> 0" "c v v \<le> 0" using assms(1) mem by (simp_all add: cmp_ok_def)
    moreover have "v \<in> set (u # us)" "u \<in> set (v # vs')" using sets by auto
    ultimately have "c u v \<le> 0" "c v u \<le> 0" using Cons.prems(3,4) vs by auto
    then have "u = v" using cmp_ok_antisym [OF assms(1) mem] assms(2) [OF mem] by blast
    then show ?case using Cons vs by simp
  qed simp
  then show ?thesis
    using sort_mset [of c xs] sort_sorted [OF assms(1)] assms(3,4)
    by (metis set_mset_mset subset_refl)
qed

end

text \<open>An implementation: insertion sort.\<close>

fun js_insert :: "('a \<Rightarrow> 'a \<Rightarrow> int) \<Rightarrow> 'a \<Rightarrow> 'a list \<Rightarrow> 'a list" where
  "js_insert c x [] = [x]"
| "js_insert c x (y # ys) = (if c x y \<le> 0 then x # y # ys else y # js_insert c x ys)"

definition js_insort :: "('a \<Rightarrow> 'a \<Rightarrow> int) \<Rightarrow> 'a list \<Rightarrow> 'a list" where
  "js_insort c xs = foldr (js_insert c) xs []"

lemma mset_js_insert [simp]: "mset (js_insert c x ys) = add_mset x (mset ys)"
  by (induction ys) auto

lemma set_js_insert [simp]: "set (js_insert c x ys) = insert x (set ys)"
  by (metis mset_js_insert set_mset_add_mset_insert set_mset_mset)

lemma js_insert_sorted:
  assumes "cmp_ok A c" "insert x (set ys) \<subseteq> A" "sorted_wrt (\<lambda>a b. c a b \<le> 0) ys"
  shows "sorted_wrt (\<lambda>a b. c a b \<le> 0) (js_insert c x ys)"
  using assms(2,3)
proof (induction ys)
  case (Cons y ys)
  have "\<not> c x y \<le> 0 \<Longrightarrow> c y x \<le> 0" using cmp_ok_total [OF assms(1), of x y] Cons.prems(1) by auto
  moreover have "c x z \<le> 0" if "c x y \<le> 0" "z \<in> set ys" for z
    using cmp_ok_trans [OF assms(1) _ that(1), of z] that(2) Cons.prems by auto
  ultimately show ?case using Cons by auto
qed simp

lemma js_insort_perm: "mset (js_insort c xs) = mset xs" by (induction xs) (auto simp: js_insort_def)

lemma js_insort_sorted:
  "cmp_ok A c \<Longrightarrow> set xs \<subseteq> A \<Longrightarrow> sorted_wrt (\<lambda>a b. c a b \<le> 0) (js_insort c xs)"
proof (induction xs)
  case (Cons x xs)
  have "set (js_insort c xs) = set xs" by (metis js_insort_perm set_mset_mset)
  then show ?case using Cons js_insert_sorted [OF Cons.prems(1), of x "js_insort c xs"] by (simp add: js_insort_def)
qed (simp add: js_insort_def)

interpretation insort: array_sort js_insort
  by unfold_locales (simp_all add: js_insort_perm js_insort_sorted [OF _ subset_refl])

section \<open>Sorting\<close>

datatype sort_fixed = FNone | FArray "sort_entry list" | FObj "sort_entry list" "sort_entry list"

record sort_spec =
  ss_src :: nat
  ss_col :: nat
  ss_dir :: string
  ss_type :: string
  ss_formatter :: bool

text \<open>
  \<open>fmt\<close> is the table \<open>DataTable.ext.type.order\<close> at the names that end in \<open>-pre\<close>, \<open>ext\<close> at
  the others. It holds \<open>string-asc\<close> and \<open>string-desc\<close>; any other direction would make the
  slow comparison call \<open>undefined\<close>, and compares as equal here.
\<close>

type_synonym 'k formatters = "string \<Rightarrow> ('k \<Rightarrow> 'k) option"
type_synonym 'k orders = "string \<Rightarrow> ('k \<Rightarrow> 'k \<Rightarrow> int) option"

definition fnSortFlatten :: "sort_fixed \<Rightarrow> 'k formatters \<Rightarrow> ('r, 'k) settings \<Rightarrow> sort_spec list" where
  "fnSortFlatten fixed fmt s =
     (let pre = (case fixed of FNone \<Rightarrow> [] | FArray a \<Rightarrow> a | FObj p q \<Rightarrow> p);
          post = (case fixed of FObj p q \<Rightarrow> q | _ \<Rightarrow> []);
          nestedSort = pre @ aaSorting s @ post
      in concat (map (\<lambda>e. map (\<lambda>iCol.
             let ty = (case sType (aoColumns s ! iCol) of Some t \<Rightarrow> if t = [] then ''string'' else t | None \<Rightarrow> ''string'')
             in \<lparr>ss_src = so_col e, ss_col = iCol, ss_dir = so_dir e, ss_type = ty,
                 ss_formatter = (fmt ty \<noteq> None)\<rparr>)
           (aDataSort (aoColumns s ! so_col e))) nestedSort))"

text \<open>
  \<open>_fnSortData\<close>: the sort key of a cell, and the loop that fills the cache of a column. A
  cached key that is falsy in JavaScript is computed again.
\<close>

definition sort_key :: "'k formatters \<Rightarrow> ('r, 'k) settings \<Rightarrow> nat \<Rightarrow> nat \<Rightarrow> 'k" where
  "sort_key fmt s idx i =
     (let column = aoColumns s ! idx;
          cellData = (case customSort column of
                        Some f \<Rightarrow> f (map aData (aoData s)) i
                      | None \<Rightarrow> fnSortCell column (aData (aoData s ! i)))
      in case Option.bind (sType column) fmt of Some f \<Rightarrow> f cellData | None \<Rightarrow> cellData)"

definition fnSortData ::
  "'k formatters \<Rightarrow> ('k \<Rightarrow> bool) \<Rightarrow> nat \<Rightarrow> ('r, 'k) settings \<Rightarrow> ('r, 'k) settings" where
  "fnSortData fmt falsy idx s =
     s\<lparr>aoData := map (\<lambda>i.
         let row = aoData s ! i
         in if (case aSortData row idx of None \<Rightarrow> True | Some k \<Rightarrow> falsy k) \<or> customSort (aoColumns s ! idx) \<noteq> None
            then row\<lparr>aSortData := (aSortData row)(idx \<mapsto> sort_key fmt s idx i)\<rparr>
            else row) [0..<length (aoData s)]\<rparr>"

definition js_cmp :: "'k::linorder \<Rightarrow> 'k \<Rightarrow> int" where
  "js_cmp x y = (if x < y then -1 else if x > y then 1 else 0)"

text \<open>
  The test of one column: with formatters for all columns the keys are compared and the
  direction applied, otherwise the type's own function for the direction is called. A
  missing key is \<open>undefined\<close>, which is neither less nor greater than anything.
\<close>

definition both :: "('k \<Rightarrow> 'k \<Rightarrow> int) \<Rightarrow> 'k option \<Rightarrow> 'k option \<Rightarrow> int" where
  "both f x y = (case (x, y) of (Some a, Some b) \<Rightarrow> f a b | _ \<Rightarrow> 0)"

definition sort_test :: "bool \<Rightarrow> 'k orders \<Rightarrow> sort_spec \<Rightarrow> 'k::linorder option \<Rightarrow> 'k option \<Rightarrow> int" where
  "sort_test fast ext sp x y =
     (if fast then (let t = both js_cmp x y in if ss_dir sp = ''asc'' then t else - t)
      else (case ext (ss_type sp @ ''-'' @ ss_dir sp) of
              Some f \<Rightarrow> both f x y
            | None \<Rightarrow> (case ext (''string-'' @ ss_dir sp) of Some f \<Rightarrow> both f x y | None \<Rightarrow> 0)))"

fun compare_cols ::
  "bool \<Rightarrow> 'k orders \<Rightarrow> ('r, 'k::linorder) row list \<Rightarrow> sort_spec list \<Rightarrow> nat \<Rightarrow> nat \<Rightarrow> int" where
  "compare_cols fast ext data [] a b = 0"
| "compare_cols fast ext data (sp # sps) a b =
     (let test = sort_test fast ext sp (aSortData (data ! a) (ss_col sp)) (aSortData (data ! b) (ss_col sp))
      in if test \<noteq> 0 then test else compare_cols fast ext data sps a b)"

definition compare_rows ::
  "bool \<Rightarrow> 'k orders \<Rightarrow> ('r, 'k::linorder) row list \<Rightarrow> sort_spec list \<Rightarrow> nat list \<Rightarrow> nat \<Rightarrow> nat \<Rightarrow> int" where
  "compare_rows fast ext data specs master a b =
     (let t = compare_cols fast ext data specs a b
      in if t \<noteq> 0 then t else js_cmp (js_indexOf a master) (js_indexOf b master))"

text \<open>What sorting takes from outside the table.\<close>

record 'k sort_env =
  se_sort :: "(nat \<Rightarrow> nat \<Rightarrow> int) \<Rightarrow> nat list \<Rightarrow> nat list"
  se_types :: "(string \<Rightarrow> string option) list"
  se_fixed :: sort_fixed
  se_fmt :: "'k formatters"
  se_falsy :: "'k \<Rightarrow> bool"
  se_ext :: "'k orders"

definition fnSort :: "'k sort_env \<Rightarrow> ('r, 'k::linorder) settings \<Rightarrow> ('r, 'k) settings" where
  "fnSort E s =
     (let s0 = fnColumnTypes (se_types E) s;
          aSort = fnSortFlatten (se_fixed E) (se_fmt E) s0;
          formatters = length (filter ss_formatter aSort);
          s1 = fold (\<lambda>sp. fnSortData (se_fmt E) (se_falsy E) (ss_col sp)) aSort s0;
          master = aiDisplayMaster s1
      in (if fnDataSource s1 \<noteq> Ssp \<and> aSort \<noteq> []
          then s1\<lparr>aiDisplayMaster :=
                   se_sort E (compare_rows (formatters = length aSort) (se_ext E) (aoData s1) aSort master) master\<rparr>
          else s1)\<lparr>bSorted := True\<rparr>)"

section \<open>The order of the rows\<close>

lemma cmp_ok_lex:
  assumes "cmp_ok UNIV c1" "cmp_ok UNIV c2"
  shows "cmp_ok UNIV (\<lambda>a b. if c1 a b \<noteq> 0 then c1 a b else c2 a b)"
proof -
  have r1: "c1 a a = 0" and s1: "c1 a b < 0 \<longleftrightarrow> 0 < c1 b a"
    and t1: "c1 a b \<le> 0 \<Longrightarrow> c1 b d \<le> 0 \<Longrightarrow> c1 a d \<le> 0" for a b d
    using assms(1) unfolding cmp_ok_def by blast+
  have r2: "c2 a a = 0" and s2: "c2 a b < 0 \<longleftrightarrow> 0 < c2 b a"
    and t2: "c2 a b \<le> 0 \<Longrightarrow> c2 b d \<le> 0 \<Longrightarrow> c2 a d \<le> 0" for a b d
    using assms(2) unfolding cmp_ok_def by blast+
  have z: "c1 a b = 0 \<longleftrightarrow> c1 b a = 0" for a b using s1 [of a b] s1 [of b a] by linarith
  have tr: "(if c1 a d \<noteq> 0 then c1 a d else c2 a d) \<le> 0"
    if "(if c1 a b \<noteq> 0 then c1 a b else c2 a b) \<le> 0" "(if c1 b d \<noteq> 0 then c1 b d else c2 b d) \<le> 0" for a b d
  proof -
    have ab: "c1 a b \<le> 0" and bd: "c1 b d \<le> 0" using that by (auto split: if_splits)
    show ?thesis
    proof (cases "c1 a d = 0")
      case True
      then have "c1 d a \<le> 0" using z [of a d] by simp
      then have "c1 b a \<le> 0" "c1 d b \<le> 0" using t1 [OF bd] t1 [OF _ ab] by auto
      then have "c1 a b = 0" "c1 b d = 0" using ab bd s1 [of a b] s1 [of b d] by linarith+
      then show ?thesis using that True t2 [of a b d] by simp
    qed (use t1 [OF ab bd] in simp)
  qed
  have sy: "((if c1 a b \<noteq> 0 then c1 a b else c2 a b) < 0) = (0 < (if c1 b a \<noteq> 0 then c1 b a else c2 b a))" for a b
    using s1 [of a b] s2 [of a b] z [of a b] by simp
  show ?thesis unfolding cmp_ok_def using tr sy r1 r2 by simp
qed

lemma cmp_ok_key: "cmp_ok UNIV (\<lambda>a b. js_cmp (f a) (f b))" "cmp_ok UNIV (\<lambda>a b. - js_cmp (f a) (f b))"
  by (auto simp: cmp_ok_def js_cmp_def split: if_splits)

lemma cmp_ok_subset: "cmp_ok A c \<Longrightarrow> B \<subseteq> A \<Longrightarrow> cmp_ok B c"
  unfolding cmp_ok_def by blast

lemma js_indexOf_inj: "a \<in> set xs \<Longrightarrow> b \<in> set xs \<Longrightarrow> js_indexOf a xs = js_indexOf b xs \<Longrightarrow> a = b"
  by (metis js_indexOf_present)

text \<open>
  The comparison by the keys of the cells, and when a row stands before another: the first
  column in which they differ decides, and rows that agree in all columns keep their order.
\<close>

fun compare_keys :: "(nat \<Rightarrow> nat \<Rightarrow> 'k::linorder) \<Rightarrow> sort_spec list \<Rightarrow> nat \<Rightarrow> nat \<Rightarrow> int" where
  "compare_keys key [] a b = 0"
| "compare_keys key (sp # sps) a b =
     (let t = js_cmp (key (ss_col sp) a) (key (ss_col sp) b); t' = (if ss_dir sp = ''asc'' then t else - t)
      in if t' \<noteq> 0 then t' else compare_keys key sps a b)"

definition row_before :: "(nat \<Rightarrow> nat \<Rightarrow> 'k::linorder) \<Rightarrow> sort_spec list \<Rightarrow> nat list \<Rightarrow> nat \<Rightarrow> nat \<Rightarrow> bool" where
  "row_before key specs master a b \<longleftrightarrow>
     (\<exists>i<length specs.
        (\<forall>j<i. key (ss_col (specs ! j)) a = key (ss_col (specs ! j)) b) \<and>
        (let x = key (ss_col (specs ! i)) a; y = key (ss_col (specs ! i)) b
         in if ss_dir (specs ! i) = ''asc'' then x < y else y < x)) \<or>
     (\<forall>sp\<in>set specs. key (ss_col sp) a = key (ss_col sp) b) \<and>
     js_indexOf a master \<le> js_indexOf b master"

lemma cmp_ok_cols: "cmp_ok UNIV (compare_keys key specs)"
proof (induction specs)
  case (Cons sp sps)
  let ?c = "\<lambda>a b. if ss_dir sp = ''asc'' then js_cmp (key (ss_col sp) a) (key (ss_col sp) b)
    else - js_cmp (key (ss_col sp) a) (key (ss_col sp) b)"
  have "cmp_ok UNIV ?c" using cmp_ok_key [of "key (ss_col sp)"] by (cases "ss_dir sp = ''asc''") simp_all
  from cmp_ok_lex [OF this Cons] show ?case by (simp add: Let_def)
qed (simp add: cmp_ok_def)

lemma compare_keys_zero:
  "compare_keys key specs a b = 0 \<Longrightarrow> \<forall>sp\<in>set specs. key (ss_col sp) a = key (ss_col sp) b"
  by (induction specs) (auto simp: js_cmp_def Let_def split: if_splits)

lemma compare_keys_neg:
  "compare_keys key specs a b < 0 \<Longrightarrow>
   \<exists>i<length specs.
     (\<forall>j<i. key (ss_col (specs ! j)) a = key (ss_col (specs ! j)) b) \<and>
     (let x = key (ss_col (specs ! i)) a; y = key (ss_col (specs ! i)) b
      in if ss_dir (specs ! i) = ''asc'' then x < y else y < x)"
proof (induction specs)
  case (Cons sp sps)
  let ?x = "key (ss_col sp) a" and ?y = "key (ss_col sp) b"
  show ?case
  proof (cases "?x = ?y")
    case True
    then have "compare_keys key sps a b < 0"
      using Cons.prems by (auto simp: js_cmp_def Let_def split: if_splits)
    from Cons.IH [OF this] obtain i where i: "i < length sps"
      "\<forall>j<i. key (ss_col (sps ! j)) a = key (ss_col (sps ! j)) b"
      "let x = key (ss_col (sps ! i)) a; y = key (ss_col (sps ! i)) b
       in if ss_dir (sps ! i) = ''asc'' then x < y else y < x" by blast
    then show ?thesis using True by (intro exI [of _ "Suc i"]) (auto simp: less_Suc_eq_0_disj)
  next
    case False
    then have "if ss_dir sp = ''asc'' then ?x < ?y else ?y < ?x"
      using Cons.prems by (auto simp: js_cmp_def Let_def split: if_splits)
    then show ?thesis by (intro exI [of _ 0]) (simp add: Let_def)
  qed
qed simp

definition full_compare :: "(nat \<Rightarrow> nat \<Rightarrow> 'k::linorder) \<Rightarrow> sort_spec list \<Rightarrow> nat list \<Rightarrow> nat \<Rightarrow> nat \<Rightarrow> int" where
  "full_compare key specs master =
     (\<lambda>a b. if compare_keys key specs a b \<noteq> 0 then compare_keys key specs a b
            else js_cmp (js_indexOf a master) (js_indexOf b master))"

lemma cmp_ok_full: "cmp_ok UNIV (full_compare key specs master)"
  unfolding full_compare_def by (rule cmp_ok_lex [OF cmp_ok_cols cmp_ok_key(1)])

lemma full_compare_before: "full_compare key specs master a b \<le> 0 \<Longrightarrow> row_before key specs master a b"
  using compare_keys_neg [of key specs a b] compare_keys_zero [of key specs a b]
  by (cases "compare_keys key specs a b = 0")
     (auto simp: full_compare_def row_before_def js_cmp_def split: if_splits)

lemma full_compare_zero:
  "full_compare key specs master a b = 0 \<Longrightarrow> a \<in> set master \<Longrightarrow> b \<in> set master \<Longrightarrow> a = b"
  using js_indexOf_inj [of a master b] by (auto simp: full_compare_def js_cmp_def split: if_splits)

subsection \<open>The cache of the sort keys\<close>

text \<open>
  The key a row is sorted by: the cached one, unless it is missing or falsy or the column has a
  plug-in source; otherwise the one computed by the formatter of the column's present type.
\<close>

definition used_key :: "'k formatters \<Rightarrow> ('k \<Rightarrow> bool) \<Rightarrow> ('r, 'k) settings \<Rightarrow> nat \<Rightarrow> nat \<Rightarrow> 'k" where
  "used_key fmt falsy s c i =
     (case aSortData (aoData s ! i) c of
        Some k \<Rightarrow> if falsy k \<or> customSort (aoColumns s ! c) \<noteq> None then sort_key fmt s c i else k
      | None \<Rightarrow> sort_key fmt s c i)"

definition keys_cached :: "(nat \<Rightarrow> nat \<Rightarrow> 'k) \<Rightarrow> nat set \<Rightarrow> ('r, 'k) settings \<Rightarrow> bool" where
  "keys_cached key C s \<longleftrightarrow> (\<forall>c\<in>C. \<forall>i<length (aoData s). aSortData (aoData s ! i) c = Some (key c i))"

text \<open>
  The cache is coherent when a cached key that would be used is the key computed now. It is so
  for new rows, and sorting keeps it so; changing the type of a column can break it.
\<close>

definition sort_cache_ok :: "'k formatters \<Rightarrow> ('k \<Rightarrow> bool) \<Rightarrow> ('r, 'k) settings \<Rightarrow> bool" where
  "sort_cache_ok fmt falsy s \<longleftrightarrow> (\<forall>i<length (aoData s). \<forall>c. used_key fmt falsy s c i = sort_key fmt s c i)"

lemma fnSortData_fields [simp]:
  "aoColumns (fnSortData fmt falsy idx s) = aoColumns s"
  "map aData (aoData (fnSortData fmt falsy idx s)) = map aData (aoData s)"
  "length (aoData (fnSortData fmt falsy idx s)) = length (aoData s)"
  "aiDisplayMaster (fnSortData fmt falsy idx s) = aiDisplayMaster s"
  "fnDataSource (fnSortData fmt falsy idx s) = fnDataSource s"
  by (auto simp: fnSortData_def fnDataSource_def Let_def intro: nth_equalityI)

lemma sort_key_fnSortData [simp]:
  assumes "i < length (aoData s)"
  shows "sort_key fmt (fnSortData fmt' falsy idx s) c i = sort_key fmt s c i"
proof -
  have "aData (aoData (fnSortData fmt' falsy idx s) ! i) = aData (aoData s ! i)"
    using assms by (simp add: fnSortData_def Let_def)
  then show ?thesis by (simp add: sort_key_def Let_def cong: option.case_cong)
qed

lemma fnSortData_row:
  "i < length (aoData s) \<Longrightarrow> aSortData (aoData (fnSortData fmt falsy idx s) ! i) c =
    (if c = idx then Some (used_key fmt falsy s idx i) else aSortData (aoData s ! i) c)"
  by (auto simp: fnSortData_def used_key_def Let_def split: option.splits)

lemma used_key_fnSortData [simp]:
  "i < length (aoData s) \<Longrightarrow> used_key fmt falsy (fnSortData fmt falsy idx s) c i = used_key fmt falsy s c i"
  by (auto simp: used_key_def [of _ _ "fnSortData fmt falsy idx s"] fnSortData_row) (auto simp: used_key_def split: option.splits if_splits)

lemma fnSortData_cached:
  assumes "keys_cached (used_key fmt falsy s) C s"
  shows "keys_cached (used_key fmt falsy s) (insert idx C) (fnSortData fmt falsy idx s)"
  using assms by (auto simp: keys_cached_def fnSortData_row)

lemma fold_fnSortData_fields:
  "aoColumns (fold (\<lambda>sp. fnSortData fmt falsy (ss_col sp)) specs s) = aoColumns s \<and>
   length (aoData (fold (\<lambda>sp. fnSortData fmt falsy (ss_col sp)) specs s)) = length (aoData s) \<and>
   aiDisplayMaster (fold (\<lambda>sp. fnSortData fmt falsy (ss_col sp)) specs s) = aiDisplayMaster s \<and>
   fnDataSource (fold (\<lambda>sp. fnSortData fmt falsy (ss_col sp)) specs s) = fnDataSource s \<and>
   (\<forall>i<length (aoData s). \<forall>c. sort_key fmt (fold (\<lambda>sp. fnSortData fmt falsy (ss_col sp)) specs s) c i = sort_key fmt s c i \<and>
     used_key fmt falsy (fold (\<lambda>sp. fnSortData fmt falsy (ss_col sp)) specs s) c i = used_key fmt falsy s c i)"
  by (induction specs arbitrary: s) auto

lemma keys_cached_cong: "(\<And>c i. i < length (aoData s) \<Longrightarrow> key c i = key' c i) \<Longrightarrow> keys_cached key C s = keys_cached key' C s"
  by (simp add: keys_cached_def)

lemma fold_fnSortData_cached:
  "keys_cached (used_key fmt falsy s) C s \<Longrightarrow>
   keys_cached (used_key fmt falsy s) (C \<union> ss_col ` set specs) (fold (\<lambda>sp. fnSortData fmt falsy (ss_col sp)) specs s)"
proof (induction specs arbitrary: s C)
  case (Cons sp sps)
  let ?s = "fnSortData fmt falsy (ss_col sp) s"
  have same: "keys_cached (used_key fmt falsy ?s) D t = keys_cached (used_key fmt falsy s) D t" if "length (aoData t) = length (aoData s)" for D t
    using that by (intro keys_cached_cong) simp
  have "keys_cached (used_key fmt falsy ?s) (insert (ss_col sp) C) ?s"
    unfolding same [OF fnSortData_fields(3)] by (rule fnSortData_cached [OF Cons.prems])
  note rest = Cons.IH [OF this]
  have "length (aoData (fold (\<lambda>sp. fnSortData fmt falsy (ss_col sp)) sps ?s)) = length (aoData s)"
    using fold_fnSortData_fields [of fmt falsy sps ?s] by simp
  from rest [unfolded same [OF this]] show ?case by simp
qed simp

text \<open>Rows without cached keys, as \<open>_fnAddData\<close> makes them, are coherent, and \<open>_fnSort\<close> keeps coherence.\<close>

lemma new_rows_coherent: "(\<And>r. r \<in> set (aoData s) \<Longrightarrow> aSortData r = Map.empty) \<Longrightarrow> sort_cache_ok fmt falsy s"
  by (simp add: sort_cache_ok_def used_key_def)

lemma fnSort_coherent:
  assumes "sort_cache_ok (se_fmt E) (se_falsy E) (fnColumnTypes (se_types E) s)"
  shows "sort_cache_ok (se_fmt E) (se_falsy E) (fnSort E s)"
proof -
  let ?specs = "fnSortFlatten (se_fixed E) (se_fmt E) (fnColumnTypes (se_types E) s)"
  define t where "t = fold (\<lambda>sp. fnSortData (se_fmt E) (se_falsy E) (ss_col sp)) ?specs (fnColumnTypes (se_types E) s)"
  have t: "aoData (fnSort E s) = aoData t" "aoColumns (fnSort E s) = aoColumns t" by (simp_all add: fnSort_def Let_def t_def)
  have "sort_cache_ok (se_fmt E) (se_falsy E) t"
    using assms fold_fnSortData_fields [of "se_fmt E" "se_falsy E" ?specs "fnColumnTypes (se_types E) s"] by (simp add: sort_cache_ok_def t_def)
  moreover have "sort_key (se_fmt E) (fnSort E s) = sort_key (se_fmt E) t" by (intro ext) (simp only: sort_key_def t)
  ultimately show ?thesis unfolding sort_cache_ok_def used_key_def t by (simp only:)
qed

lemma compare_cols_keys:
  "\<forall>c\<in>ss_col ` set specs. aSortData (data ! a) c = Some (key c a) \<and> aSortData (data ! b) c = Some (key c b) \<Longrightarrow>
   compare_cols True ext data specs a b = compare_keys key specs a b"
  by (induction specs) (simp_all add: sort_test_def both_def Let_def)


lemma fnSort_master:
  assumes "array_sort (se_sort E)" "fnDataSource s \<noteq> Ssp"
    "specs = fnSortFlatten (se_fixed E) (se_fmt E) (fnColumnTypes (se_types E) s)" "specs \<noteq> []"
    "list_all ss_formatter specs" "set (aiDisplayMaster s) \<subseteq> {..<length (aoData s)}"
  shows "\<exists>c. aiDisplayMaster (fnSort E s) = se_sort E c (aiDisplayMaster s) \<and>
    (\<forall>a\<in>set (aiDisplayMaster s). \<forall>b\<in>set (aiDisplayMaster s).
      c a b = full_compare (used_key (se_fmt E) (se_falsy E) (fnColumnTypes (se_types E) s)) specs (aiDisplayMaster s) a b)"
proof -
  let ?s0 = "fnColumnTypes (se_types E) s"
  let ?s1 = "fold (\<lambda>sp. fnSortData (se_fmt E) (se_falsy E) (ss_col sp)) specs ?s0"
  let ?key = "used_key (se_fmt E) (se_falsy E) ?s0"
  let ?c = "compare_rows True (se_ext E) (aoData ?s1) specs (aiDisplayMaster s)"
  note fields = fold_fnSortData_fields [of "se_fmt E" "se_falsy E" specs ?s0]
  have s0: "aoData ?s0 = aoData s" "aiDisplayMaster ?s0 = aiDisplayMaster s" "fnDataSource ?s0 = fnDataSource s"
    by (simp_all add: fnColumnTypes_def fnDataSource_def)
  have all: "length (filter ss_formatter specs) = length specs"
    using assms(5) by (simp add: list_all_iff filter_True)
  have "aiDisplayMaster (fnSort E s) = se_sort E ?c (aiDisplayMaster s)"
    using assms(2,4) fields s0 all unfolding fnSort_def assms(3) [symmetric] by (simp add: Let_def assms(3) [symmetric])
  moreover have "?c a b = full_compare ?key specs (aiDisplayMaster s) a b"
    if "a \<in> set (aiDisplayMaster s)" "b \<in> set (aiDisplayMaster s)" for a b
  proof -
    have "a < length (aoData ?s1)" "b < length (aoData ?s1)" using that assms(6) fields s0 by auto
    moreover have "keys_cached ?key (ss_col ` set specs) ?s1"
      using fold_fnSortData_cached [of "se_fmt E" "se_falsy E" ?s0 "{}" specs] by (simp add: keys_cached_def)
    ultimately have "\<forall>c\<in>ss_col ` set specs. aSortData (aoData ?s1 ! a) c = Some (?key c a) \<and>
        aSortData (aoData ?s1 ! b) c = Some (?key c b)" by (simp add: keys_cached_def)
    from compare_cols_keys [OF this] show ?thesis by (simp add: compare_rows_def full_compare_def Let_def)
  qed
  ultimately show ?thesis by blast
qed

text \<open>
  C36: sorting. In a table the client sorts, whose sort columns all have types with a formatter, as
  the built-in types do, and whatever algorithm the browser's \<open>sort\<close> uses, \<open>_fnSort\<close> rearranges the
  master array into the one order in which every row stands before the later ones by the
  first sort column in which their keys differ, in that column's direction, and in which
  rows that agree in all sort columns keep their previous order, even where the browser's
  sort is not stable. The key of a cell is the one in the row's cache, where there is one that is
  not falsy and the column has no plug-in source, and otherwise the one the formatter of the column's
  type computes. When the cache is coherent (\<open>new_rows_coherent\<close>, \<open>fnSort_coherent\<close>) all keys are
  those of the cells; after a new row has changed the type of a column it need not be, and old keys
  decide the order (\<open>stale_sort_keys\<close> below).
\<close>

theorem fnSort_spec:
  assumes "array_sort (se_sort E)" "fnDataSource s \<noteq> Ssp"
    "specs = fnSortFlatten (se_fixed E) (se_fmt E) (fnColumnTypes (se_types E) s)" "specs \<noteq> []"
    "list_all ss_formatter specs" "set (aiDisplayMaster s) \<subseteq> {..<length (aoData s)}"
    "key = used_key (se_fmt E) (se_falsy E) (fnColumnTypes (se_types E) s)"
  shows "let M = aiDisplayMaster (fnSort E s)
    in mset M = mset (aiDisplayMaster s) \<and>
       sorted_wrt (row_before key specs (aiDisplayMaster s)) M \<and>
       M = js_insort (full_compare key specs (aiDisplayMaster s)) (aiDisplayMaster s) \<and>
       (sort_cache_ok (se_fmt E) (se_falsy E) (fnColumnTypes (se_types E) s) \<longrightarrow>
         (\<forall>i\<in>set M. \<forall>c. key c i = sort_key (se_fmt E) (fnColumnTypes (se_types E) s) c i))"
proof -
  let ?M = "aiDisplayMaster s" and ?f = "full_compare key specs (aiDisplayMaster s)"
  from fnSort_master [OF assms(1-6)] obtain c where c: "aiDisplayMaster (fnSort E s) = se_sort E c ?M"
    "\<And>a b. a \<in> set ?M \<Longrightarrow> b \<in> set ?M \<Longrightarrow> c a b = ?f a b" unfolding assms(7) by blast
  have ok: "cmp_ok (set ?M) ?f" by (rule cmp_ok_subset [OF cmp_ok_full subset_UNIV])
  then have okc: "cmp_ok (set ?M) c" using cmp_ok_cong [of "set ?M" c ?f] c(2) by blast
  have mem: "set (js_insort ?f ?M) = set ?M" by (metis js_insort_perm set_mset_mset)
  have "sorted_wrt (\<lambda>a b. ?f a b \<le> 0) (js_insort ?f ?M)" by (rule js_insort_sorted [OF ok subset_refl])
  then have srt: "sorted_wrt (\<lambda>a b. c a b \<le> 0) (js_insort ?f ?M)" "sorted_wrt (row_before key specs ?M) (js_insort ?f ?M)"
    by (auto elim!: sorted_wrt_mono_rel [rotated] simp: mem c(2) full_compare_before)
  have "se_sort E c ?M = js_insort ?f ?M"
    by (rule array_sort.sort_unique [OF assms(1) okc _ js_insort_perm srt(1)]) (metis c(2) full_compare_zero)
  moreover have "key d i = sort_key (se_fmt E) (fnColumnTypes (se_types E) s) d i"
    if "sort_cache_ok (se_fmt E) (se_falsy E) (fnColumnTypes (se_types E) s)" "i \<in> set ?M" for d i
    using that assms(6) by (auto simp: assms(7) sort_cache_ok_def fnColumnTypes_def)
  ultimately show ?thesis using c(1) srt(2) js_insort_perm mem by (simp add: Let_def)
qed

text \<open>A sorting environment with the identity as the formatter of strings.\<close>

definition sample_env :: "nat sort_env" where
  "sample_env = \<lparr>se_sort = js_insort, se_types = [], se_fixed = FNone, se_fmt = (\<lambda>_. Some id),
     se_falsy = (\<lambda>k. k = 0), se_ext = (\<lambda>_. None)\<rparr>"

theorem fnSort_spec_witness:
  "aiDisplayMaster (fnSort sample_env (sample_settings [''ccc'', ''b'', ''aa'', ''d''] [] [])) = [1, 3, 2, 0] \<and>
   mset (aiDisplayMaster (fnSort sample_env (sample_settings [''ccc'', ''b'', ''aa'', ''d''] [] []))) = mset [0, 1, 2, 3]"
proof -
  let ?s = "sample_settings [''ccc'', ''b'', ''aa'', ''d''] [] []"
  let ?sp = "[\<lparr>ss_src = 0, ss_col = 0, ss_dir = ''asc'', ss_type = ''string'', ss_formatter = True\<rparr>]"
  have sp: "?sp = fnSortFlatten (se_fixed sample_env) (se_fmt sample_env) (fnColumnTypes (se_types sample_env) ?s)"
    "fnDataSource ?s \<noteq> Ssp" "aiDisplayMaster ?s = [0, 1, 2, 3]" "length (aoData ?s) = 4" by code_simp+
  have "array_sort (se_sort sample_env)" by (simp add: sample_env_def insort.array_sort_axioms)
  then have "mset (aiDisplayMaster (fnSort sample_env ?s)) = mset (aiDisplayMaster ?s)"
    using fnSort_spec [OF _ sp(2,1) _ _ _ refl] sp(3,4) unfolding Let_def by auto
  moreover have "aiDisplayMaster (fnSort sample_env ?s) = [1, 3, 2, 0]" by code_simp
  ultimately show ?thesis using sp(3) by simp
qed

text \<open>
  Old keys decide. The texts \<open>1\<close> and \<open>22\<close> make a column of numbers, sorted by its numeric keys; a
  third row \<open>abc\<close> turns it into a column of another type, whose formatter here reverses the order.
  The two old rows keep the keys of the old type, and the table is sorted as 1, 22, abc, where the
  keys of the present type would give the opposite order.
\<close>

definition retyping_env :: "nat sort_env" where
  "retyping_env = sample_env\<lparr>se_types := [\<lambda>t. if list_all is_digit_char t then Some ''num'' else None],
     se_fmt := (\<lambda>t. if t = ''num'' then Some id else if t = ''string'' then Some (\<lambda>k. 100 - k) else None)\<rparr>"

definition retyped_settings :: "(string, nat) settings" where
  "retyped_settings = snd (fnAddData ''abc'' (fnSort retyping_env
     (snd (fnAddData ''22'' (snd (fnAddData ''1'' (sample_settings [] [] [])))))))"

lemma stale_sort_keys:
  "aiDisplayMaster (fnSort retyping_env retyped_settings) = [0, 1, 2]"
  "map (sort_key (se_fmt retyping_env) (fnColumnTypes (se_types retyping_env) retyped_settings) 0) [0, 1, 2] = [99, 98, 97]"
  "\<not> sort_cache_ok (se_fmt retyping_env) (se_falsy retyping_env) (fnColumnTypes (se_types retyping_env) retyped_settings)"
proof -
  show "aiDisplayMaster (fnSort retyping_env retyped_settings) = [0, 1, 2]"
    "map (sort_key (se_fmt retyping_env) (fnColumnTypes (se_types retyping_env) retyped_settings) 0) [0, 1, 2] = [99, 98, 97]"
    by code_simp+
  have "0 < length (aoData (fnColumnTypes (se_types retyping_env) retyped_settings))"
    "used_key (se_fmt retyping_env) (se_falsy retyping_env) (fnColumnTypes (se_types retyping_env) retyped_settings) 0 0 \<noteq>
     sort_key (se_fmt retyping_env) (fnColumnTypes (se_types retyping_env) retyped_settings) 0 0" by code_simp+
  then show "\<not> sort_cache_ok (se_fmt retyping_env) (se_falsy retyping_env) (fnColumnTypes (se_types retyping_env) retyped_settings)"
    unfolding sort_cache_ok_def by blast
qed

end
