(* ===== verification/Table_View.thy ===== *)
theory Table_View
  imports Table_Sort
begin

text \<open>
  What \<open>jquery.dataTables.js\<close> shows of a table: paging, drawing, the page buttons, redrawing
  after a sort request, the answers of a server, and saving and loading the view.
\<close>

section \<open>Paging\<close>

definition fnRecordsTotal :: "('r, 'k) settings \<Rightarrow> int" where
  "fnRecordsTotal s = (if fnDataSource s = Ssp then iRecordsTotal s else int (length (aiDisplayMaster s)))"

definition fnRecordsDisplay :: "('r, 'k) settings \<Rightarrow> int" where
  "fnRecordsDisplay s = (if fnDataSource s = Ssp then iRecordsDisplay s else int (length (aiDisplay s)))"

definition fnDisplayEnd :: "('r, 'k) settings \<Rightarrow> int" where
  "fnDisplayEnd s =
     (let len = iDisplayLength s; start = iDisplayStart s; calc = start + len;
          records = int (length (aiDisplay s))
      in if bServerSide s
         then (if \<not> bPaginate s \<or> len = -1 then start + records else min (start + len) (iRecordsDisplay s))
         else (if \<not> bPaginate s \<or> calc > records \<or> len = -1 then records else calc))"

definition fnLengthOverflow :: "('r, 'k) settings \<Rightarrow> ('r, 'k) settings" where
  "fnLengthOverflow s =
     (let len = iDisplayLength s;
          start = (if fnDisplayEnd s = fnRecordsDisplay s then fnDisplayEnd s - len else iDisplayStart s)
      in s\<lparr>iDisplayStart := (if len = -1 \<or> start < 0 then 0 else start)\<rparr>)"

definition fnLengthChange :: "int \<Rightarrow> ('r, 'k) settings \<Rightarrow> ('r, 'k) settings" where
  "fnLengthChange len s = fnLengthOverflow (s\<lparr>iDisplayLength := len\<rparr>)"

text \<open>
  \<open>_fnDraw\<close>. The loop creates the missing nodes, gives each row its stripe class and
  collects the rows; an index outside \<open>aiDisplay\<close> raises, since \<open>aoData[undefined]\<close> has no
  \<open>nTr\<close>. The callbacks that plug-ins register are not part of the model, and \<open>veto\<close> tells
  whether one of the \<open>preDraw\<close> callbacks returned \<open>false\<close>.
\<close>

fun draw_rows :: "nat list \<Rightarrow> string list \<Rightarrow> nat \<Rightarrow> int list \<Rightarrow> ('r, 'k) row list \<Rightarrow> (('r, 'k) row list \<times> drawn list) js" where
  "draw_rows display stripes iRowCount [] data = Inr (data, [])"
| "draw_rows display stripes iRowCount (j # js) data =
     (if j < 0 \<or> j \<ge> int (length display) \<or> display ! nat j \<ge> length data then Inl TypeError
      else (let iDataIndex = display ! nat j;
                row = (data ! iDataIndex)\<lparr>nTr := True\<rparr>;
                row1 = (if stripes \<noteq> [] then row\<lparr>sRowStripe := stripes ! (iRowCount mod length stripes)\<rparr> else row)
            in js_bind (draw_rows display stripes (Suc iRowCount) js (data[iDataIndex := row1]))
                 (\<lambda>(d, rs). Inr (d, DrawnRow iDataIndex # rs))))"

definition init_start :: "('r, 'k) settings \<Rightarrow> ('r, 'k) settings" where
  "init_start s =
     (if iInitDisplayStart s \<noteq> -1
      then s\<lparr>iDisplayStart := (if fnDataSource s = Ssp then iInitDisplayStart s
                               else if iInitDisplayStart s \<ge> fnRecordsDisplay s then 0
                               else iInitDisplayStart s),
             iInitDisplayStart := -1\<rparr>
      else s)"

definition empty_message :: "('r, 'k) settings \<Rightarrow> string" where
  "empty_message s =
     (if iDraw s = 1 \<and> fnDataSource s = Ajax then sLoadingRecords (oLanguage s)
      else if sEmptyTable (oLanguage s) \<noteq> [] \<and> fnRecordsTotal s = 0 then sEmptyTable (oLanguage s)
      else sZeroRecords (oLanguage s))"

definition fnDraw :: "bool \<Rightarrow> ('r, 'k) settings \<Rightarrow> ('r, 'k) settings js" where
  "fnDraw veto s =
     (if veto then Inr s
      else
      (let s1 = init_start s;
           ssp = (fnDataSource s1 = Ssp);
           iEnd = (if ssp then int (length (aoData s1)) else fnDisplayEnd s1);
           iStart = (if ssp then 0 else iDisplayStart s1)
       in if ssp \<and> \<not> bDeferLoading s1 \<and> \<not> bDestroying s1 \<and> bAjaxDataGet s1
          then Inr (s1\<lparr>iDraw := iDraw s1 + 1\<rparr>)
          else
          (let s2 = (if bDeferLoading s1 then s1\<lparr>bDeferLoading := False, iDraw := iDraw s1 + 1\<rparr>
                     else if \<not> ssp then s1\<lparr>iDraw := iDraw s1 + 1\<rparr> else s1)
           in js_bind
                (if aiDisplay s2 \<noteq> []
                 then draw_rows (aiDisplay s2) (asStripeClasses s2) 0 [iStart..iEnd - 1] (aoData s2)
                 else Inr (aoData s2, [DrawnMessage (empty_message s2)]))
                (\<lambda>(data, body). Inr (s2\<lparr>aoData := data, tbody := body, bSorted := False, bFiltered := False\<rparr>)))))"

text \<open>
  The first of the two early results is the server-side request: \<open>_fnAjaxUpdate\<close> counts
  the draw and sends it, and the draw itself happens when the answer is there.
\<close>

datatype page_action = PNum int | PFirst | PPrevious | PNext | PLast | PUnknown

definition page_start :: "page_action \<Rightarrow> ('r, 'k) settings \<Rightarrow> int" where
  "page_start action s =
     (let start = iDisplayStart s; len = iDisplayLength s; records = fnRecordsDisplay s
      in if records = 0 \<or> len = -1 then 0
         else (case action of
                 PNum n \<Rightarrow> (if n * len > records then 0 else n * len)
               | PFirst \<Rightarrow> 0
               | PPrevious \<Rightarrow> (let st = (if len \<ge> 0 then start - len else 0) in if st < 0 then 0 else st)
               | PNext \<Rightarrow> (if start + len < records then start + len else start)
               | PLast \<Rightarrow> ((records - 1) div len) * len
               | PUnknown \<Rightarrow> start))"

definition fnPageChange :: "bool \<Rightarrow> page_action \<Rightarrow> bool \<Rightarrow> ('r, 'k) settings \<Rightarrow> (bool \<times> ('r, 'k) settings) js" where
  "fnPageChange veto action redraw s =
     (let start = page_start action s;
          changed = (iDisplayStart s \<noteq> start);
          s1 = s\<lparr>iDisplayStart := start\<rparr>
      in if changed \<and> redraw then js_bind (fnDraw veto s1) (\<lambda>s2. Inr (changed, s2)) else Inr (changed, s1))"

text \<open>The page buttons; the constant 7 is \<open>numbers_length\<close>.\<close>

datatype page_button = PgNum int | PgEllipsis

definition numbers :: "int \<Rightarrow> int \<Rightarrow> page_button list" where
  "numbers page pages =
     (let buttons = 7; half = buttons div 2; nums = (\<lambda>a b. map PgNum (dt_range a (Some b)))
      in if pages \<le> buttons then nums 0 pages
         else if page \<le> half then nums 0 (buttons - 2) @ [PgEllipsis, PgNum (pages - 1)]
         else if page \<ge> pages - 1 - half then [PgNum 0, PgEllipsis] @ nums (pages - (buttons - 2)) pages
         else [PgNum 0, PgEllipsis] @ nums (page - 1) (page + 2) @ [PgEllipsis, PgNum (pages - 1)])"

section \<open>Redrawing and sorting on request\<close>

record 'r filter_env =
  fe_regex :: engine
  fe_decode :: "string \<Rightarrow> string"
  fe_customs :: "'r custom list"
  fe_veto :: bool

definition fnReDraw ::
  "'r filter_env \<Rightarrow> 'k sort_env \<Rightarrow> bool \<Rightarrow> ('r, 'k::linorder) settings \<Rightarrow> ('r, 'k) settings js" where
  "fnReDraw F E holdPosition s =
     (let s1 = (if bSort s then fnSort E s else s)
      in js_bind
           (if bFilter s1
            then fnFilterComplete (fe_regex F) (fe_decode F) (se_types E) (fe_customs F) (oPreviousSearch s1) False s1
            else Inr (s1\<lparr>aiDisplay := aiDisplayMaster s1\<rparr>))
           (\<lambda>s2. fnDraw (fe_veto F) (if holdPosition then s2 else s2\<lparr>iDisplayStart := 0\<rparr>)))"

definition next_sort :: "string list \<Rightarrow> sort_entry \<Rightarrow> nat" where
  "next_sort asSort e =
     (let idx = (case so_idx e of Some i \<Rightarrow> int i | None \<Rightarrow> js_indexOf (so_dir e) asSort)
      in if idx + 1 \<ge> int (length asSort) then 0 else nat (idx + 1))"

definition sort_request :: "nat \<Rightarrow> bool \<Rightarrow> ('r, 'k) settings \<Rightarrow> ('r, 'k) settings" where
  "sort_request colIdx shift s =
     (let sorting = aaSorting s;
          dirs = asSorting (aoColumns s ! colIdx);
          first = \<lparr>so_col = colIdx, so_dir = dirs ! 0, so_idx = Some 0\<rparr>
      in if shift \<and> bSortMulti s
         then (let sortIdx = js_indexOf colIdx (map so_col sorting)
               in if sortIdx \<noteq> -1
                  then (let e = sorting ! nat sortIdx; n = next_sort dirs e
                        in s\<lparr>aaSorting := sorting[nat sortIdx := e\<lparr>so_dir := dirs ! n, so_idx := Some n\<rparr>]\<rparr>)
                  else s\<lparr>aaSorting := sorting @ [first]\<rparr>)
         else if sorting \<noteq> [] \<and> so_col (hd sorting) = colIdx
         then (let e = hd sorting; n = next_sort dirs e
               in s\<lparr>aaSorting := [e\<lparr>so_dir := dirs ! n, so_idx := Some n\<rparr>]\<rparr>)
         else s\<lparr>aaSorting := [first]\<rparr>)"

definition fnSortListener ::
  "'r filter_env \<Rightarrow> 'k sort_env \<Rightarrow> nat \<Rightarrow> bool \<Rightarrow> ('r, 'k::linorder) settings \<Rightarrow> ('r, 'k) settings js" where
  "fnSortListener F E colIdx shift s = fnReDraw F E False (sort_request colIdx shift s)"

section \<open>Server-side processing\<close>

text \<open>
  The parameters of a request, as the list of names and values of version 1.9 or as the
  object of version 1.10; \<open>legacy\<close> is \<open>DataTable.ext.legacy.ajax\<close>, \<open>None\<close> for \<open>null\<close>, and
  \<open>source\<close> tells whether \<open>sAjaxSource\<close> is set.
\<close>

datatype param_value = PInt int | PStr string | PBool bool

record column_param =
  cp_data :: string
  cp_name :: string
  cp_searchable :: bool
  cp_orderable :: bool
  cp_search :: "string \<times> bool"

record ajax_object =
  ap_draw :: int
  ap_columns :: "column_param list"
  ap_order :: "(nat \<times> string) list"
  ap_start :: int
  ap_length :: int
  ap_search :: "string \<times> bool"

datatype ajax_params = LegacyParams "(string \<times> param_value) list" | ObjectParams ajax_object

definition numbered :: "string \<Rightarrow> nat \<Rightarrow> string" where
  "numbered name i = name @ ''_'' @ nat_str i"

definition column_params :: "('r, 'k) settings \<Rightarrow> nat \<Rightarrow> (string \<times> param_value) list" where
  "column_params s i =
     (let column = aoColumns s ! i; columnSearch = aoPreSearchCols s ! i
      in [(numbered ''mDataProp'' i, PStr (mDataProp column))] @
         (if bFilter s then [(numbered ''sSearch'' i, PStr (sSearch columnSearch)),
                             (numbered ''bRegex'' i, PBool (bRegex columnSearch)),
                             (numbered ''bSearchable'' i, PBool (bSearchable column))] else []) @
         (if bSort s then [(numbered ''bSortable'' i, PBool (bSortable column))] else []))"

definition legacy_params :: "sort_spec list \<Rightarrow> int \<Rightarrow> ('r, 'k) settings \<Rightarrow> (string \<times> param_value) list" where
  "legacy_params specs displayLength s =
     [(''sEcho'', PInt (iDraw s)), (''iColumns'', PInt (int (length (aoColumns s)))),
      (''sColumns'', PStr (join '','' (map sName (aoColumns s)))),
      (''iDisplayStart'', PInt (iDisplayStart s)), (''iDisplayLength'', PInt displayLength)] @
     concat (map (column_params s) [0..<length (aoColumns s)]) @
     (if bFilter s then [(''sSearch'', PStr (sSearch (oPreviousSearch s))), (''bRegex'', PBool (bRegex (oPreviousSearch s)))] else []) @
     (if bSort s
      then concat (map (\<lambda>i. [(numbered ''iSortCol'' i, PInt (int (ss_col (specs ! i)))), (numbered ''sSortDir'' i, PStr (ss_dir (specs ! i)))])
                     [0..<length specs]) @ [(''iSortingCols'', PInt (int (length specs)))]
      else [])"

definition object_params :: "sort_spec list \<Rightarrow> int \<Rightarrow> ('r, 'k) settings \<Rightarrow> ajax_object" where
  "object_params specs displayLength s =
     \<lparr>ap_draw = iDraw s,
      ap_columns = map (\<lambda>i. let column = aoColumns s ! i; columnSearch = aoPreSearchCols s ! i
                            in \<lparr>cp_data = mDataProp column, cp_name = sName column,
                                cp_searchable = bSearchable column, cp_orderable = bSortable column,
                                cp_search = (sSearch columnSearch, bRegex columnSearch)\<rparr>)
                     [0..<length (aoColumns s)],
      ap_order = (if bSort s then map (\<lambda>v. (ss_col v, ss_dir v)) specs else []),
      ap_start = iDisplayStart s, ap_length = displayLength,
      ap_search = (sSearch (oPreviousSearch s), bRegex (oPreviousSearch s))\<rparr>"

definition fnAjaxParameters :: "'k sort_env \<Rightarrow> bool option \<Rightarrow> bool \<Rightarrow> ('r, 'k) settings \<Rightarrow> ajax_params" where
  "fnAjaxParameters E legacy source s =
     (let specs = fnSortFlatten (se_fixed E) (se_fmt E) s;
          displayLength = (if bPaginate s then iDisplayLength s else -1);
          data = LegacyParams (legacy_params specs displayLength s);
          d = ObjectParams (object_params specs displayLength s)
      in case legacy of None \<Rightarrow> if source then data else d | Some l \<Rightarrow> if l then data else d)"

text \<open>
  An answer; one without a draw counter has \<open>None\<close>, and its two totals are numbers, as the
  protocol asks.
\<close>

record 'r answer =
  an_draw :: "int option"
  an_total :: int
  an_filtered :: int
  an_data :: "'r list"

definition fnAjaxUpdateDraw :: "bool \<Rightarrow> 'r answer \<Rightarrow> ('r, 'k) settings \<Rightarrow> ('r, 'k) settings js" where
  "fnAjaxUpdateDraw veto json s =
     (let draw = (case an_draw json of Some d \<Rightarrow> d | None \<Rightarrow> 0)
      in if draw \<noteq> 0 \<and> draw < iDraw s then Inr s
         else
         (let s1 = (if draw \<noteq> 0 then s\<lparr>iDraw := draw\<rparr> else s);
              s2 = (fnClearTable s1)\<lparr>iRecordsTotal := an_total json, iRecordsDisplay := an_filtered json\<rparr>;
              s3 = fold (\<lambda>d st. snd (fnAddData d st)) (an_data json) s2;
              s4 = s3\<lparr>aiDisplay := aiDisplayMaster s3, bAjaxDataGet := False\<rparr>
          in js_bind (fnDraw veto s4) (\<lambda>s5. Inr (s5\<lparr>bAjaxDataGet := True\<rparr>))))"

section \<open>Row indexes and the information line\<close>

datatype sel_search = SNone | SApplied | SRemoved
datatype sel_order = OCurrent | OIndex

text \<open>\<open>OCurrent\<close> is \<open>'current'\<close> or \<open>'applied'\<close>, \<open>OIndex\<close> is \<open>'index'\<close> or \<open>'original'\<close>.\<close>

definition selector_row_indexes :: "sel_search \<Rightarrow> sel_order \<Rightarrow> bool \<Rightarrow> ('r, 'k) settings \<Rightarrow> nat list" where
  "selector_row_indexes search order current s =
     (if fnDataSource s = Ssp
      then (if search = SRemoved then [] else [0..<length (aiDisplayMaster s)])
      else if current then map (\<lambda>i. aiDisplay s ! nat i) [iDisplayStart s..fnDisplayEnd s - 1]
      else (case order of
              OCurrent \<Rightarrow>
                (case search of
                   SNone \<Rightarrow> aiDisplayMaster s
                 | SApplied \<Rightarrow> aiDisplay s
                 | SRemoved \<Rightarrow> filter (\<lambda>el. js_indexOf el (aiDisplay s) = -1) (aiDisplayMaster s))
            | OIndex \<Rightarrow>
                filter (\<lambda>i. case search of
                              SNone \<Rightarrow> True
                            | SApplied \<Rightarrow> js_indexOf i (aiDisplay s) \<ge> 0
                            | SRemoved \<Rightarrow> js_indexOf i (aiDisplay s) = -1)
                  [0..<length (aoData s)]))"

text \<open>The numbers that \<open>_fnInfoMacros\<close> puts for its six macros.\<close>

record info_values =
  iv_start :: int
  iv_end :: int
  iv_max :: int
  iv_total :: int
  iv_page :: int
  iv_pages :: int

definition ceil_div :: "int \<Rightarrow> int \<Rightarrow> int" where
  "ceil_div a b = - ((- a) div b)"

definition fnInfoMacros :: "('r, 'k) settings \<Rightarrow> info_values" where
  "fnInfoMacros s =
     (let start = iDisplayStart s + 1; len = iDisplayLength s; vis = fnRecordsDisplay s; all = (len = -1)
      in \<lparr>iv_start = start, iv_end = fnDisplayEnd s, iv_max = fnRecordsTotal s, iv_total = vis,
          iv_page = (if all then 1 else ceil_div start len),
          iv_pages = (if all then 1 else ceil_div vis len)\<rparr>)"

section \<open>Saved state\<close>

record camel_search =
  cs_search :: string
  cs_smart :: bool
  cs_regex :: bool
  cs_caseInsensitive :: bool

definition fnSearchToCamel :: "search \<Rightarrow> camel_search" where
  "fnSearchToCamel obj =
     \<lparr>cs_search = sSearch obj, cs_smart = bSmart obj, cs_regex = bRegex obj, cs_caseInsensitive = bCaseInsensitive obj\<rparr>"

definition fnSearchToHung :: "camel_search \<Rightarrow> search" where
  "fnSearchToHung obj =
     \<lparr>sSearch = cs_search obj, bRegex = cs_regex obj, bSmart = cs_smart obj, bCaseInsensitive = cs_caseInsensitive obj\<rparr>"

record saved_state =
  st_time :: int
  st_start :: int
  st_length :: int
  st_order :: "sort_entry list"
  st_search :: camel_search
  st_columns :: "(bool \<times> camel_search) list"

text \<open>
  \<open>bStateSave\<close> is an argument of both operations; the stored copy of the sort order is made
  by \<open>$.extend\<close> into a fresh array and, through JSON, keeps the elements of an entry only:
  the property \<open>_idx\<close> is lost, here in \<open>fnSaveState\<close>.
\<close>

definition fnSaveState :: "bool \<Rightarrow> int \<Rightarrow> ('r, 'k) settings \<Rightarrow> saved_state option" where
  "fnSaveState bStateSave now s =
     (if \<not> bStateSave \<or> bDestroying s then None
      else Some \<lparr>st_time = now, st_start = iDisplayStart s, st_length = iDisplayLength s,
                 st_order = map (\<lambda>e. e\<lparr>so_idx := None\<rparr>) (aaSorting s),
                 st_search = fnSearchToCamel (oPreviousSearch s),
                 st_columns = map (\<lambda>i. (bVisible (aoColumns s ! i), fnSearchToCamel (aoPreSearchCols s ! i)))
                                [0..<length (aoColumns s)]\<rparr>)"

definition fnLoadState :: "bool \<Rightarrow> int \<Rightarrow> int \<Rightarrow> saved_state option \<Rightarrow> ('r, 'k) settings \<Rightarrow> ('r, 'k) settings" where
  "fnLoadState bStateSave now duration state s =
     (case (bStateSave, state) of
        (True, Some st) \<Rightarrow>
          if st_time st = 0 \<or> duration > 0 \<and> st_time st < now - duration * 1000 \<or>
             length (aoColumns s) \<noteq> length (st_columns st)
          then s
          else s\<lparr>iDisplayStart := st_start st, iInitDisplayStart := st_start st,
                 iDisplayLength := st_length st,
                 aaSorting := map (\<lambda>e. if so_col e \<ge> length (aoColumns s)
                                       then \<lparr>so_col = 0, so_dir = so_dir e, so_idx = None\<rparr> else e) (st_order st),
                 oPreviousSearch := fnSearchToHung (st_search st),
                 aoColumns := map2 (\<lambda>c p. c\<lparr>bVisible := fst p\<rparr>) (aoColumns s) (st_columns st),
                 aoPreSearchCols := map (\<lambda>p. fnSearchToHung (snd p)) (st_columns st)\<rparr>
      | _ \<Rightarrow> s)"

section \<open>Pages\<close>

lemma draw_rows_ok:
  "\<forall>j\<in>set js. 0 \<le> j \<and> j < int (length display) \<Longrightarrow> set display \<subseteq> {..<length data} \<Longrightarrow>
   \<exists>d. draw_rows display stripes n js data = Inr (d, map (\<lambda>j. DrawnRow (display ! nat j)) js) \<and>
     map aData d = map aData data \<and>
     (\<forall>i. i \<notin> (\<lambda>j. display ! nat j) ` set js \<longrightarrow> d ! i = data ! i) \<and>
     (distinct (map (\<lambda>j. display ! nat j) js) \<longrightarrow> stripes \<noteq> [] \<longrightarrow>
       (\<forall>k<length js. sRowStripe (d ! (display ! nat (js ! k))) = stripes ! ((n + k) mod length stripes)))"
proof (induction js arbitrary: n data)
  case (Cons j js)
  let ?i = "display ! nat j"
  let ?r = "(data ! ?i)\<lparr>nTr := True\<rparr>"
  let ?r1 = "if stripes \<noteq> [] then ?r\<lparr>sRowStripe := stripes ! (n mod length stripes)\<rparr> else ?r"
  let ?data = "data[?i := ?r1]"
  have "?i \<in> set display" using Cons.prems(1) by (intro nth_mem) (simp add: nat_less_iff)
  then have i: "?i < length data" using Cons.prems(2) by blast
  from Cons.IH [of ?data "Suc n"] Cons.prems obtain d where
    d: "draw_rows display stripes (Suc n) js ?data = Inr (d, map (\<lambda>j. DrawnRow (display ! nat j)) js)"
    "map aData d = map aData ?data"
    "\<forall>i. i \<notin> (\<lambda>j. display ! nat j) ` set js \<longrightarrow> d ! i = ?data ! i"
    "distinct (map (\<lambda>j. display ! nat j) js) \<longrightarrow> stripes \<noteq> [] \<longrightarrow>
       (\<forall>k<length js. sRowStripe (d ! (display ! nat (js ! k))) = stripes ! ((Suc n + k) mod length stripes))"
    by auto
  have "draw_rows display stripes n (j # js) data = Inr (d, map (\<lambda>j. DrawnRow (display ! nat j)) (j # js))"
    using Cons.prems(1) i d(1) by (simp add: Let_def)
  moreover have "map aData ?data = map aData data" using i by (simp add: map_update list_update_same_conv)
  moreover have "\<forall>i. i \<notin> (\<lambda>j. display ! nat j) ` set (j # js) \<longrightarrow> d ! i = data ! i" using d(3) by auto
  moreover have "sRowStripe (d ! (display ! nat ((j # js) ! k))) = stripes ! ((n + k) mod length stripes)"
    if "distinct (map (\<lambda>j. display ! nat j) (j # js))" "stripes \<noteq> []" "k < length (j # js)" for k
    using that d(3,4) i by (cases k) (auto simp: nat_less_iff)
  ultimately show ?case using d(2) by metis
qed simp

lemma map_upto_slice:
  assumes "0 \<le> a" "a \<le> b" "b \<le> int (length xs)"
  shows "map (\<lambda>j. xs ! nat j) [a..b - 1] = take (nat (b - a)) (drop (nat a) xs)"
proof (rule nth_equalityI)
  show "length (map (\<lambda>j. xs ! nat j) [a..b - 1]) = length (take (nat (b - a)) (drop (nat a) xs))"
    using assms by (auto simp: min_def)
  show "map (\<lambda>j. xs ! nat j) [a..b - 1] ! i = take (nat (b - a)) (drop (nat a) xs) ! i"
    if "i < length (map (\<lambda>j. xs ! nat j) [a..b - 1])" for i
    using that assms by (auto simp: nth_drop nat_add_distrib)
qed

text \<open>A table with client-side paging whose display array refers to rows that exist.\<close>

definition table_ok :: "('r, 'k) settings \<Rightarrow> bool" where
  "table_ok s \<longleftrightarrow> \<not> bServerSide s \<and> bPaginate s \<and> 0 < iDisplayLength s \<and> iInitDisplayStart s = -1 \<and>
     distinct (aiDisplay s) \<and> set (aiDisplay s) \<subseteq> {..<length (aoData s)}"

definition page_rows :: "('r, 'k) settings \<Rightarrow> nat list" where
  "page_rows s = take (nat (iDisplayLength s)) (drop (nat (iDisplayStart s)) (aiDisplay s))"

lemma ssp_iff [simp]: "fnDataSource s = Ssp \<longleftrightarrow> bServerSide s"
  by (simp add: fnDataSource_def)

lemma display_slice:
  assumes "table_ok s" "0 \<le> iDisplayStart s" "iDisplayStart s \<le> fnRecordsDisplay s"
  shows "map (\<lambda>j. aiDisplay s ! nat j) [iDisplayStart s..fnDisplayEnd s - 1] = page_rows s"
    "0 \<le> fnDisplayEnd s" "fnDisplayEnd s \<le> int (length (aiDisplay s))"
proof -
  show *: "0 \<le> fnDisplayEnd s" "fnDisplayEnd s \<le> int (length (aiDisplay s))"
    using assms by (auto simp: table_ok_def fnDisplayEnd_def fnRecordsDisplay_def Let_def)
  have "iDisplayStart s \<le> fnDisplayEnd s"
    using assms by (auto simp: table_ok_def fnDisplayEnd_def fnRecordsDisplay_def Let_def)
  from map_upto_slice [OF assms(2) this *(2)]
  show "map (\<lambda>j. aiDisplay s ! nat j) [iDisplayStart s..fnDisplayEnd s - 1] = page_rows s"
    using assms by (auto simp: page_rows_def table_ok_def fnDisplayEnd_def fnRecordsDisplay_def Let_def min_def)
qed

lemma fnDraw_rows:
  assumes "table_ok s" "0 \<le> iDisplayStart s" "iDisplayStart s \<le> fnRecordsDisplay s" "aiDisplay s \<noteq> []"
  shows "\<exists>s'. fnDraw False s = Inr s' \<and> tbody s' = map DrawnRow (page_rows s) \<and>
    map aData (aoData s') = map aData (aoData s) \<and> iDraw s' = iDraw s + 1 \<and>
    (asStripeClasses s \<noteq> [] \<longrightarrow> (\<forall>k<length (page_rows s).
       sRowStripe (aoData s' ! (page_rows s ! k)) = asStripeClasses s ! (k mod length (asStripeClasses s))))"
proof -
  let ?js = "[iDisplayStart s..fnDisplayEnd s - 1]"
  note sl = display_slice [OF assms(1-3)]
  have ini: "init_start s = s" "\<not> bServerSide s" using assms(1) by (simp_all add: table_ok_def init_start_def)
  have "\<forall>j\<in>set ?js. 0 \<le> j \<and> j < int (length (aiDisplay s))" using assms(2) sl(3) by auto
  moreover have "set (aiDisplay s) \<subseteq> {..<length (aoData s)}" using assms(1) by (simp add: table_ok_def)
  ultimately obtain d where d:
    "draw_rows (aiDisplay s) (asStripeClasses s) 0 ?js (aoData s) = Inr (d, map (\<lambda>j. DrawnRow (aiDisplay s ! nat j)) ?js)"
    "map aData d = map aData (aoData s)"
    "distinct (map (\<lambda>j. aiDisplay s ! nat j) ?js) \<longrightarrow> asStripeClasses s \<noteq> [] \<longrightarrow>
       (\<forall>k<length ?js. sRowStripe (d ! (aiDisplay s ! nat (?js ! k))) =
          asStripeClasses s ! ((0 + k) mod length (asStripeClasses s)))"
    using draw_rows_ok [of ?js "aiDisplay s" "aoData s" "asStripeClasses s" 0] by blast
  have rows: "map (\<lambda>j. DrawnRow (aiDisplay s ! nat j)) ?js = map DrawnRow (page_rows s)"
    using arg_cong [OF sl(1), of "map DrawnRow"] by (simp add: comp_def)
  have len: "length ?js = length (page_rows s)" using arg_cong [OF sl(1), of length] by simp
  have dist: "distinct (page_rows s)" using assms(1) by (simp add: page_rows_def table_ok_def)
  have nth: "aiDisplay s ! nat (?js ! k) = page_rows s ! k" if "k < length ?js" for k
    using that by (simp add: sl(1) [symmetric])
  have "asStripeClasses s \<noteq> [] \<longrightarrow> (\<forall>k<length (page_rows s).
       sRowStripe (d ! (page_rows s ! k)) = asStripeClasses s ! (k mod length (asStripeClasses s)))"
    using d(3) dist nth len unfolding sl(1) by simp
  moreover have "fnDraw False s = Inr (s\<lparr>iDraw := iDraw s + 1, aoData := d, tbody := map DrawnRow (page_rows s),
      bSorted := False, bFiltered := False, bDeferLoading := False\<rparr>)"
    using ini assms(4) d(1) rows by (auto simp: fnDraw_def Let_def)
  ultimately show ?thesis using d(2) by simp
qed


text \<open>
  Drawing a page. The table body holds the rows of the display array from the start of
  the page on, as many as a page has, in the order of the array; the stripe classes are given
  out cyclically from the top of the page, and no row's data changes.
\<close>

lemma fnDraw_page:
  assumes "table_ok s" "0 \<le> iDisplayStart s" "iDisplayStart s < fnRecordsDisplay s"
  shows "\<exists>s'. fnDraw False s = Inr s' \<and> tbody s' = map DrawnRow (page_rows s) \<and>
    map aData (aoData s') = map aData (aoData s) \<and> iDraw s' = iDraw s + 1 \<and>
    (asStripeClasses s \<noteq> [] \<longrightarrow> (\<forall>k<length (page_rows s).
       sRowStripe (aoData s' ! (page_rows s ! k)) = asStripeClasses s ! (k mod length (asStripeClasses s))))"
proof -
  have "aiDisplay s \<noteq> []" using assms by (auto simp: table_ok_def fnRecordsDisplay_def)
  then show ?thesis using fnDraw_rows [OF assms(1,2)] assms(3) by simp
qed

definition sample_page :: "int \<Rightarrow> int \<Rightarrow> (string, nat) settings" where
  "sample_page start len =
     (sample_settings [''a'', ''b'', ''c'', ''d'', ''e''] [] [4, 2, 0, 1, 3])\<lparr>iDisplayStart := start, iDisplayLength := len\<rparr>"

lemma sample_page_ok: "0 < len \<Longrightarrow> table_ok (sample_page start len)"
  by (auto simp: table_ok_def sample_page_def sample_settings_def)

lemma sample_page_simps:
  "fnRecordsDisplay (sample_page start len) = 5" "iDisplayStart (sample_page start len) = start"
  "iDisplayLength (sample_page start len) = len" "aiDisplay (sample_page start len) = [4, 2, 0, 1, 3]"
  by (simp_all add: fnRecordsDisplay_def sample_page_def sample_settings_def fnDataSource_def)

lemma slices_concat:
  assumes "0 < len"
  shows "concat (map (\<lambda>k. take len (drop (k * len) xs)) [0..<n]) = take (n * len) xs"
proof (induction n)
  case (Suc n)
  have "take (Suc n * len) xs = take (n * len) xs @ take len (drop (n * len) xs)"
    by (metis add.commute mult_Suc take_add)
  then show ?case using Suc by simp
qed simp

lemma ceil_div_cover: "0 < b \<Longrightarrow> a \<le> ceil_div a b * b"
  by (smt (verit, best) ceil_div_def div_mult_mod_eq minus_mult_left pos_mod_sign)

lemma ceil_div_bound:
  assumes "0 < b" "k < ceil_div a b"
  shows "k * b < a"
proof (rule ccontr)
  assume "\<not> k * b < a"
  then have "(- k) * b \<le> - a" by simp
  from zdiv_mono1 [OF this assms(1)] have "(- k * b) div b \<le> (- a) div b" .
  moreover have "(- k * b) div b = - k" using assms(1) by (intro nonzero_mult_div_cancel_right) simp
  ultimately show False using assms(2) by (simp add: ceil_div_def)
qed

text \<open>
  C37: the pages partition the display array: with the page size and the number of pages that
  \<open>_PAGES_\<close> shows, the bodies drawn for the pages one after the other are the whole
  display array, each row once and in order.
\<close>

theorem pages_partition:
  assumes "table_ok s" "aiDisplay s \<noteq> []"
  shows "concat (map (\<lambda>k. case fnDraw False (s\<lparr>iDisplayStart := int k * iDisplayLength s\<rparr>) of Inr s' \<Rightarrow> tbody s' | Inl _ \<Rightarrow> [])
           [0..<nat (iv_pages (fnInfoMacros s))]) = map DrawnRow (aiDisplay s)"
proof -
  let ?len = "iDisplayLength s" and ?n = "nat (iv_pages (fnInfoMacros s))" and ?r = "fnRecordsDisplay s"
  have pos: "0 < ?len" and r: "?r = int (length (aiDisplay s))"
    using assms(1) by (auto simp: table_ok_def fnRecordsDisplay_def)
  have pages: "iv_pages (fnInfoMacros s) = ceil_div ?r ?len" using pos by (simp add: fnInfoMacros_def Let_def)
  have body: "(case fnDraw False (s\<lparr>iDisplayStart := int k * ?len\<rparr>) of Inr s' \<Rightarrow> tbody s' | Inl _ \<Rightarrow> []) =
      map DrawnRow (take (nat ?len) (drop (k * nat ?len) (aiDisplay s)))" if "k < ?n" for k
  proof -
    let ?s = "s\<lparr>iDisplayStart := int k * ?len\<rparr>"
    have "int k < ceil_div ?r ?len" using that pages by linarith
    from ceil_div_bound [OF pos this] have "int k * ?len \<le> ?r" by simp
    moreover have "table_ok ?s" "fnRecordsDisplay ?s = ?r" "aiDisplay ?s \<noteq> []"
      using assms by (auto simp: table_ok_def fnRecordsDisplay_def fnDataSource_def)
    moreover have "page_rows ?s = take (nat ?len) (drop (k * nat ?len) (aiDisplay s))"
      using pos by (simp add: page_rows_def nat_mult_distrib)
    ultimately show ?thesis using fnDraw_rows [of ?s] pos by auto
  qed
  have "concat (map (\<lambda>k. case fnDraw False (s\<lparr>iDisplayStart := int k * ?len\<rparr>) of Inr s' \<Rightarrow> tbody s' | Inl _ \<Rightarrow> []) [0..<?n]) =
      map DrawnRow (concat (map (\<lambda>k. take (nat ?len) (drop (k * nat ?len) (aiDisplay s))) [0..<?n]))"
    unfolding map_concat map_map comp_def by (intro arg_cong [of _ _ concat] map_cong refl) (auto intro: body)
  also have "\<dots> = map DrawnRow (take (?n * nat ?len) (aiDisplay s))" using pos by (simp add: slices_concat)
  finally have "concat (map (\<lambda>k. case fnDraw False (s\<lparr>iDisplayStart := int k * ?len\<rparr>) of Inr s' \<Rightarrow> tbody s' | Inl _ \<Rightarrow> []) [0..<?n]) =
      map DrawnRow (take (?n * nat ?len) (aiDisplay s))" .
  moreover have "length (aiDisplay s) \<le> ?n * nat ?len"
    using nat_mono [OF ceil_div_cover [OF pos, of ?r]] pos r pages
    by (simp add: nat_mult_distrib mult.commute [of "ceil_div _ _"] mult.commute [of "nat (ceil_div _ _)"])
  ultimately show ?thesis by simp
qed


theorem pages_partition_witness:
  "concat (map (\<lambda>k. case fnDraw False ((sample_page 0 2)\<lparr>iDisplayStart := int k * 2\<rparr>) of Inr s' \<Rightarrow> tbody s' | Inl _ \<Rightarrow> []) [0..<3]) =
   map DrawnRow [4, 2, 0, 1, 3]"
proof -
  have "iv_pages (fnInfoMacros (sample_page 0 2)) = 3"
    by (simp add: fnInfoMacros_def ceil_div_def sample_page_simps Let_def)
  then show ?thesis using pages_partition [OF sample_page_ok [of 2 0]] by (simp add: sample_page_simps)
qed

text \<open>The start of a page: a multiple of the page length that lies inside the records.\<close>

definition start_ok :: "('r, 'k) settings \<Rightarrow> bool" where
  "start_ok s \<longleftrightarrow> 0 < iDisplayLength s \<and> 0 \<le> iDisplayStart s \<and> iDisplayLength s dvd iDisplayStart s \<and>
     iDisplayStart s < fnRecordsDisplay s"

fun action_ok :: "page_action \<Rightarrow> ('r, 'k) settings \<Rightarrow> bool" where
  "action_ok (PNum n) s \<longleftrightarrow> 0 \<le> n \<and> n < iv_pages (fnInfoMacros s)"
| "action_ok _ s \<longleftrightarrow> True"

lemma last_page_start:
  assumes "0 < len" "0 < (r::int)"
  shows "0 \<le> ((r - 1) div len) * len" "((r - 1) div len) * len < r" "r \<le> ((r - 1) div len) * len + len"
proof -
  show "0 \<le> ((r - 1) div len) * len" using assms by (simp add: pos_imp_zdiv_nonneg_iff)
  have "((r - 1) div len) * len + (r - 1) mod len = r - 1" by (rule div_mult_mod_eq)
  moreover have "0 \<le> (r - 1) mod len" "(r - 1) mod len < len" using assms(1) by simp_all
  ultimately show "((r - 1) div len) * len < r" "r \<le> ((r - 1) div len) * len + len" by linarith+
qed

text \<open>
  every page button leads to a page. From a page that starts at a multiple of the page
  length inside the records, first, previous, next, last and every page number that exists
  lead to such a page again; first leads to record 0, last to the page with the last record,
  and next moves on exactly when there is a record after this page.
\<close>

lemma page_change_valid:
  assumes "start_ok s" "action_ok action s"
  shows "let t = page_start action s; len = iDisplayLength s
    in start_ok (s\<lparr>iDisplayStart := t\<rparr>) \<and> (action = PFirst \<longrightarrow> t = 0) \<and>
       (action = PLast \<longrightarrow> fnRecordsDisplay s \<le> t + len) \<and>
       (action = PNext \<longrightarrow> t = (if iDisplayStart s + len < fnRecordsDisplay s then iDisplayStart s + len else iDisplayStart s))"
proof -
  let ?len = "iDisplayLength s" and ?r = "fnRecordsDisplay s" and ?st = "iDisplayStart s"
  have pos: "0 < ?len" "0 \<le> ?st" "?len dvd ?st" "?st < ?r" using assms(1) by (simp_all add: start_ok_def)
  have upd: "start_ok (s\<lparr>iDisplayStart := t\<rparr>) \<longleftrightarrow> 0 \<le> t \<and> ?len dvd t \<and> t < ?r" for t
    using pos(1) by (simp add: start_ok_def fnRecordsDisplay_def)
  have prv: "?len dvd ?st - ?len" using pos(3) by (intro dvd_diff) simp_all
  show ?thesis
  proof (cases action)
    case (PNum n)
    then have "n * ?len < ?r" using ceil_div_bound [OF pos(1), of n ?r] assms(2) pos(1) by (simp add: fnInfoMacros_def Let_def)
    then show ?thesis using PNum pos assms(2) by (auto simp: page_start_def upd Let_def)
  next
    case PLast
    then show ?thesis using pos last_page_start [of ?len ?r] by (auto simp: page_start_def upd Let_def)
  next
    case PPrevious
    then show ?thesis using pos prv by (auto simp: page_start_def upd Let_def)
  qed (use pos in \<open>auto simp: page_start_def upd Let_def\<close>)
qed

text \<open>
  asking for the page just after the last one. When the records fill the pages exactly,
  the test \<open>start > records\<close> lets the number of that page pass, and the table is drawn with
  an empty body, without a row and without the message for an empty table.
\<close>

lemma page_past_end_is_empty:
  assumes "table_ok s" "start_ok s" "iv_pages (fnInfoMacros s) * iDisplayLength s = fnRecordsDisplay s"
  shows "\<exists>s'. fnPageChange False (PNum (iv_pages (fnInfoMacros s))) True s = Inr (True, s') \<and> tbody s' = []"
proof -
  let ?r = "fnRecordsDisplay s"
  let ?s = "s\<lparr>iDisplayStart := ?r\<rparr>"
  have st: "page_start (PNum (iv_pages (fnInfoMacros s))) s = ?r"
    using assms(2,3) by (auto simp: page_start_def start_ok_def Let_def)
  have ok: "table_ok ?s" "fnRecordsDisplay ?s = ?r" "aiDisplay ?s \<noteq> []" "?r = int (length (aiDisplay s))"
    using assms(1,2) by (auto simp: table_ok_def start_ok_def fnRecordsDisplay_def)
  have "page_rows ?s = []" by (simp add: page_rows_def ok(4))
  moreover have "iDisplayStart s \<noteq> ?r" using assms(2) by (simp add: start_ok_def)
  ultimately show ?thesis
    using fnDraw_rows [OF ok(1)] ok(2,3) assms(2) st by (auto simp: fnPageChange_def start_ok_def Let_def)
qed

section \<open>The page buttons\<close>

lemma set_dt_range: "set (dt_range a (Some b)) = {a..<b}"
  by (auto simp: dt_range_def)

lemma length_dt_range: "length (dt_range a (Some b)) = nat (b - a)"
  by (simp add: dt_range_def)

definition button_pages :: "page_button list \<Rightarrow> int list" where
  "button_pages bs = concat (map (\<lambda>b. case b of PgNum n \<Rightarrow> [n] | PgEllipsis \<Rightarrow> []) bs)"

lemma button_pages_simps [simp]:
  "button_pages [] = []" "button_pages (PgNum n # bs) = n # button_pages bs"
  "button_pages (PgEllipsis # bs) = button_pages bs"
  "button_pages (xs @ ys) = button_pages xs @ button_pages ys"
  "button_pages (map PgNum ns) = ns"
  by (induction ns) (auto simp: button_pages_def)

lemma sorted_dt_range: "sorted_wrt (<) (dt_range a (Some b))"
  by (simp add: dt_range_def)

text \<open>
  C38: the page buttons. For a page that exists there are at most seven buttons; the page
  itself, the first and the last page are among them; the numbers increase and are pages
  that exist.
\<close>

theorem numbers_spec:
  assumes "0 \<le> page" "page < pages"
  shows "let ns = button_pages (numbers page pages)
    in length (numbers page pages) \<le> 7 \<and> {page, 0, pages - 1} \<subseteq> set ns \<and> set ns \<subseteq> {0..<pages} \<and>
       sorted_wrt (<) ns"
proof -
  consider "pages \<le> 7" | "7 < pages" "page \<le> 3" | "7 < pages" "3 < page" "pages - 4 \<le> page"
    | "7 < pages" "3 < page" "page < pages - 4" by linarith
  then show ?thesis
    using assms
    by cases (auto simp: numbers_def set_dt_range length_dt_range sorted_dt_range sorted_wrt_append Let_def)
qed

theorem numbers_spec_witness: "numbers 5 12 =
    [PgNum 0, PgEllipsis, PgNum 4, PgNum 5, PgNum 6, PgEllipsis, PgNum 11] \<and>
    {5, 0, 11} \<subseteq> set (button_pages (numbers 5 12))"
  using numbers_spec [of 5 12] by (simp add: numbers_def dt_range_def upto.simps Let_def)

section \<open>The saved view\<close>

lemma search_camel_hung [simp]: "fnSearchToHung (fnSearchToCamel x) = x"
  by (simp add: fnSearchToHung_def fnSearchToCamel_def)

text \<open>
  C39: the saved view. A state saved not longer ago than the configured duration, or any when
  no duration is configured, brings a table with as many columns back to the page start and
  length, the search texts and the visibility of the columns it was saved with, and to the
  sort order up to the memory of the position in a column's cycle of directions; loading
  changes neither rows nor display arrays.
\<close>

theorem save_load_roundtrip:
  assumes "fnSaveState True now s = Some st" "now \<noteq> 0" "length (aoColumns t) = length (aoColumns s)"
    "length (aoPreSearchCols s) = length (aoColumns s)" "\<forall>e\<in>set (aaSorting s). so_col e < length (aoColumns s)"
    "duration \<le> 0 \<or> later \<le> now + duration * 1000"
  shows "let u = fnLoadState True later duration (Some st) t
    in iDisplayStart u = iDisplayStart s \<and> iInitDisplayStart u = iDisplayStart s \<and>
       iDisplayLength u = iDisplayLength s \<and> oPreviousSearch u = oPreviousSearch s \<and>
       aoPreSearchCols u = aoPreSearchCols s \<and> map bVisible (aoColumns u) = map bVisible (aoColumns s) \<and>
       map (\<lambda>e. (so_col e, so_dir e)) (aaSorting u) = map (\<lambda>e. (so_col e, so_dir e)) (aaSorting s) \<and>
       aoData u = aoData t \<and> aiDisplay u = aiDisplay t \<and> aiDisplayMaster u = aiDisplayMaster t"
proof -
  have st: "st = \<lparr>st_time = now, st_start = iDisplayStart s, st_length = iDisplayLength s,
      st_order = map (\<lambda>e. e\<lparr>so_idx := None\<rparr>) (aaSorting s), st_search = fnSearchToCamel (oPreviousSearch s),
      st_columns = map (\<lambda>i. (bVisible (aoColumns s ! i), fnSearchToCamel (aoPreSearchCols s ! i))) [0..<length (aoColumns s)]\<rparr>"
    using assms(1) by (auto simp: fnSaveState_def split: if_splits)
  have vis: "map bVisible (map2 (\<lambda>c p. c\<lparr>bVisible := fst p\<rparr>) (aoColumns t) (st_columns st)) = map bVisible (aoColumns s)"
    using assms(3) by (intro nth_equalityI) (simp_all add: st)
  have pre: "map (\<lambda>p. fnSearchToHung (snd p)) (st_columns st) = aoPreSearchCols s"
    using assms(4) by (intro nth_equalityI) (simp_all add: st)
  have ord: "map (\<lambda>e. (so_col e, so_dir e)) (map (\<lambda>e. if so_col e \<ge> length (aoColumns t)
        then \<lparr>so_col = 0, so_dir = so_dir e, so_idx = None\<rparr> else e) (st_order st)) =
      map (\<lambda>e. (so_col e, so_dir e)) (aaSorting s)"
    using assms(3,5) by (auto simp: st)
  have "fnLoadState True later duration (Some st) t =
      t\<lparr>iDisplayStart := iDisplayStart s, iInitDisplayStart := iDisplayStart s, iDisplayLength := iDisplayLength s,
        aaSorting := map (\<lambda>e. if so_col e \<ge> length (aoColumns t)
          then \<lparr>so_col = 0, so_dir = so_dir e, so_idx = None\<rparr> else e) (st_order st),
        oPreviousSearch := oPreviousSearch s,
        aoColumns := map2 (\<lambda>c p. c\<lparr>bVisible := fst p\<rparr>) (aoColumns t) (st_columns st),
        aoPreSearchCols := map (\<lambda>p. fnSearchToHung (snd p)) (st_columns st)\<rparr>"
    using assms(2,3,6) by (auto simp: fnLoadState_def st)
  then show ?thesis using vis pre ord by (simp add: Let_def)
qed

theorem save_load_roundtrip_witness:
  "\<exists>st. fnSaveState True 1000 ((sample_page 2 2)\<lparr>aoPreSearchCols := [oPreviousSearch (sample_page 2 2)]\<rparr>) = Some st \<and>
     iDisplayStart (fnLoadState True 2000 60 (Some st) (sample_page 0 5)) = 2"
proof -
  let ?s = "(sample_page 2 2)\<lparr>aoPreSearchCols := [oPreviousSearch (sample_page 2 2)]\<rparr>"
  obtain st where st: "fnSaveState True 1000 ?s = Some st"
    by (auto simp: fnSaveState_def sample_page_def sample_settings_def)
  have "iDisplayStart (fnLoadState True 2000 60 (Some st) (sample_page 0 5)) = iDisplayStart ?s"
    using save_load_roundtrip [OF st, of "sample_page 0 5" 60 2000]
    by (simp add: Let_def sample_page_def sample_settings_def)
  then show ?thesis using st by (simp add: sample_page_simps)
qed


section \<open>Answers of the server\<close>

lemma fold_fnAddData:
  "let u = fold (\<lambda>d st. snd (fnAddData d st)) ds s
   in map aData (aoData u) = map aData (aoData s) @ ds \<and>
      aiDisplayMaster u = aiDisplayMaster s @ [length (aoData s)..<length (aoData s) + length ds] \<and>
      length (aoData u) = length (aoData s) + length ds \<and>
      bServerSide u = bServerSide s \<and> iDraw u = iDraw s \<and> bDeferLoading u = bDeferLoading s \<and>
      iInitDisplayStart u = iInitDisplayStart s"
proof (induction ds arbitrary: s)
  case (Cons d ds)
  show ?case using Cons [of "snd (fnAddData d s)"] by (simp add: fnAddData_def Let_def upt_rec)
qed simp

lemma fnDraw_ssp:
  assumes "bServerSide s" "\<not> bDeferLoading s" "\<not> bAjaxDataGet s" "aiDisplay s = [0..<length (aoData s)]"
  shows "\<exists>u. fnDraw False s = Inr u \<and> map aData (aoData u) = map aData (aoData s) \<and> iDraw u = iDraw s \<and>
    bServerSide u \<and> \<not> bDeferLoading u \<and>
    (aoData s \<noteq> [] \<longrightarrow> tbody u = map DrawnRow [0..<length (aoData s)])"
proof -
  let ?s = "init_start s" and ?js = "[0..int (length (aoData s)) - 1]"
  have f: "aoData ?s = aoData s" "aiDisplay ?s = aiDisplay s" "iDraw ?s = iDraw s" "bServerSide ?s" "\<not> bDeferLoading ?s"
      "\<not> bAjaxDataGet ?s" "asStripeClasses ?s = asStripeClasses s" "\<not> bServerSide ?s \<longleftrightarrow> False"
    using assms(1-3) by (simp_all add: init_start_def)
  have "map (\<lambda>j. aiDisplay s ! nat j) ?js = [0..<length (aoData s)]"
    using map_upto_slice [of 0 "int (length (aoData s))" "aiDisplay s"] assms(4) by simp
  then have rows: "map (\<lambda>j. DrawnRow (aiDisplay s ! nat j)) ?js = map DrawnRow [0..<length (aoData s)]"
    by (metis (no_types, lifting) comp_apply list.map_comp map_eq_conv)
  obtain d where d: "draw_rows (aiDisplay s) (asStripeClasses s) 0 ?js (aoData s) =
      Inr (d, map (\<lambda>j. DrawnRow (aiDisplay s ! nat j)) ?js)" "map aData d = map aData (aoData s)"
    using draw_rows_ok [of ?js "aiDisplay s" "aoData s" "asStripeClasses s" 0] assms(4) by (metis (no_types, lifting) atLeastAtMost_iff atLeast_upt length_upt minus_nat.diff_0 set_upto subset_refl zle_diff1_eq)
  show ?thesis
    using f d assms(4) rows by (cases "aoData s = []") (auto simp: fnDraw_def Let_def)
qed

text \<open>Answers as they arrive, each handled to the end.\<close>

fun ajax_answers :: "'r answer list \<Rightarrow> ('r, 'k) settings \<Rightarrow> ('r, 'k) settings js" where
  "ajax_answers [] s = Inr s"
| "ajax_answers (a # as) s = js_bind (fnAjaxUpdateDraw False a s) (ajax_answers as)"

lemma fnAjaxUpdateDraw_stale:
  "an_draw a = Some k \<Longrightarrow> k \<noteq> 0 \<Longrightarrow> k < iDraw s \<Longrightarrow> fnAjaxUpdateDraw veto a s = Inr s"
  by (simp add: fnAjaxUpdateDraw_def)

lemma fnAjaxUpdateDraw_shown:
  assumes "bServerSide s" "\<not> bDeferLoading s" "an_draw a = Some (iDraw s)"
  shows "\<exists>u. fnAjaxUpdateDraw False a s = Inr u \<and> map aData (aoData u) = an_data a \<and> iDraw u = iDraw s \<and>
    bServerSide u \<and> \<not> bDeferLoading u \<and> (an_data a \<noteq> [] \<longrightarrow> tbody u = map DrawnRow [0..<length (an_data a)])"
proof -
  let ?s2 = "(fnClearTable s)\<lparr>iRecordsTotal := an_total a, iRecordsDisplay := an_filtered a\<rparr>"
  let ?s3 = "fold (\<lambda>d st. snd (fnAddData d st)) (an_data a) ?s2"
  let ?s4 = "?s3\<lparr>aiDisplay := aiDisplayMaster ?s3, bAjaxDataGet := False\<rparr>"
  note s3 = fold_fnAddData [of "an_data a" ?s2]
  have s4: "map aData (aoData ?s4) = an_data a" "aiDisplay ?s4 = [0..<length (aoData ?s4)]" "bServerSide ?s4"
      "\<not> bDeferLoading ?s4" "iDraw ?s4 = iDraw s" "\<not> bAjaxDataGet ?s4" "length (aoData ?s4) = length (an_data a)"
    using s3 assms(1,2) by (simp_all add: fnClearTable_def Let_def)
  have eq: "fnAjaxUpdateDraw False a s = js_bind (fnDraw False ?s4) (\<lambda>s5. Inr (s5\<lparr>bAjaxDataGet := True\<rparr>))"
    using assms(3) by (simp add: fnAjaxUpdateDraw_def Let_def)
  from fnDraw_ssp [OF s4(3,4,6,2)] obtain u where u: "fnDraw False ?s4 = Inr u"
    "map aData (aoData u) = map aData (aoData ?s4)" "iDraw u = iDraw ?s4" "bServerSide u" "\<not> bDeferLoading u"
    "aoData ?s4 \<noteq> [] \<longrightarrow> tbody u = map DrawnRow [0..<length (aoData ?s4)]" by blast
  have "aoData ?s4 \<noteq> [] \<longleftrightarrow> an_data a \<noteq> []" using s4(7) by (metis length_0_conv)
  then show ?thesis unfolding eq u(1) using u(2-6) s4(1,5,7) by simp
qed

text \<open>
  C40: answers that arrive out of order. When the answers to the requests sent so far arrive
  in any order and number, none but those to the newest request changes the table: its rows
  are the data of the last of these, or what they were.
\<close>

theorem ajax_out_of_order:
  assumes "bServerSide s" "\<not> bDeferLoading s" "\<forall>a\<in>set as. \<exists>k. an_draw a = Some k \<and> 0 < k \<and> k \<le> iDraw s"
  shows "\<exists>u. ajax_answers as s = Inr u \<and> iDraw u = iDraw s \<and>
    map aData (aoData u) =
      (case filter (\<lambda>a. an_draw a = Some (iDraw s)) as of [] \<Rightarrow> map aData (aoData s) | b # bs \<Rightarrow> an_data (last (b # bs)))"
  using assms
proof (induction as arbitrary: s)
  case (Cons a as)
  obtain k where k: "an_draw a = Some k" "0 < k" "k \<le> iDraw s" using Cons.prems(3) by auto
  show ?case
  proof (cases "k = iDraw s")
    case True
    from fnAjaxUpdateDraw_shown [OF Cons.prems(1,2)] k(1) True obtain u where
      u: "fnAjaxUpdateDraw False a s = Inr u" "map aData (aoData u) = an_data a" "iDraw u = iDraw s"
         "bServerSide u" "\<not> bDeferLoading u" by auto
    from Cons.IH [OF u(4,5)] Cons.prems(3) u(3) show ?thesis
      using u(1,2) k(1) True by (auto split: list.splits)
  next
    case False
    then have "fnAjaxUpdateDraw False a s = Inr s" using k by (intro fnAjaxUpdateDraw_stale) auto
    then show ?thesis using Cons.IH [OF Cons.prems(1,2)] Cons.prems(3) k(1) False by simp
  qed
qed simp

theorem ajax_out_of_order_witness:
  "\<exists>u. ajax_answers [\<lparr>an_draw = Some 2, an_total = 2, an_filtered = 2, an_data = [''new'']\<rparr>,
        \<lparr>an_draw = Some 1, an_total = 2, an_filtered = 2, an_data = [''old'', ''x'']\<rparr>]
      ((sample_page 0 5)\<lparr>bServerSide := True, iDraw := 2\<rparr>) = Inr u \<and> map aData (aoData u) = [''new'']"
  using ajax_out_of_order [of "(sample_page 0 5)\<lparr>bServerSide := True, iDraw := 2\<rparr>"
      "[\<lparr>an_draw = Some 2, an_total = 2, an_filtered = 2, an_data = [''new'']\<rparr>,
        \<lparr>an_draw = Some 1, an_total = 2, an_filtered = 2, an_data = [''old'', ''x'']\<rparr>]"]
  by (auto simp: sample_page_def sample_settings_def simp del: ajax_answers.simps)

section \<open>Rows by position\<close>

text \<open>
  The row selectors. With the rows of the master array, those that pass the search and
  those removed by it partition all rows, in the order of display as in the order of data.
\<close>

lemma selector_partition:
  assumes "\<not> bServerSide s" "mset (aiDisplayMaster s) = mset [0..<length (aoData s)]"
    "distinct (aiDisplay s)" "set (aiDisplay s) \<subseteq> set (aiDisplayMaster s)"
  shows "mset (selector_row_indexes SApplied order False s) + mset (selector_row_indexes SRemoved order False s) =
    mset (selector_row_indexes SNone OIndex False s)"
proof -
  have idx: "0 \<le> js_indexOf x (aiDisplay s) \<longleftrightarrow> x \<in> set (aiDisplay s)" for x
  proof (cases "x \<in> set (aiDisplay s)")
    case False
    then have "js_indexOf x (aiDisplay s) = -1" by simp
    with False show ?thesis by linarith
  qed (simp add: js_indexOf_present)
  have master: "distinct (aiDisplayMaster s)"
    using assms(2) by (metis distinct_upt mset_eq_imp_distinct_iff)
  let ?P = "\<lambda>x. x \<in> set (aiDisplay s)"
  have part: "mset (filter ?P xs) + mset (filter (\<lambda>x. \<not> ?P x) xs) = mset xs" for xs
    by (induction xs) auto
  have "mset (aiDisplay s) = mset (filter ?P (aiDisplayMaster s))"
    using master assms(3,4) by (intro set_eq_iff_mset_eq_distinct [THEN iffD1]) auto
  then have "mset (aiDisplay s) + mset (filter (\<lambda>x. \<not> ?P x) (aiDisplayMaster s)) = mset [0..<length (aoData s)]"
    using part [of "aiDisplayMaster s"] assms(2) by (simp only:)
  then show ?thesis
    using assms(1) part [of "[0..<length (aoData s)]"]
    by (cases order) (simp_all add: selector_row_indexes_def idx del: mset_upt mset_filter)
qed

end
