(* ===== verification/Table_Api.thy ===== *)
theory Table_Api
  imports Table_View
begin

text \<open>
  The programming interface of \<open>jquery.dataTables.js\<close> over the parts below it: drawing,
  paging, adding, changing and removing rows, ordering, searching, hiding columns, reloading
  the data. An interface call runs over all tables of its context; the definitions here are
  what it does to one of them. At the end the calls are put together as a step relation.
\<close>

section \<open>Drawing and paging\<close>

text \<open>An argument that may be missing or \<open>null\<close>.\<close>

datatype arg = Undefined | Null | Given bool

definition api_draw ::
  "'r filter_env \<Rightarrow> 'k sort_env \<Rightarrow> arg \<Rightarrow> ('r, 'k::linorder) settings \<Rightarrow> ('r, 'k) settings js" where
  "api_draw F E resetPaging s = fnReDraw F E (resetPaging = Given False) s"

definition api_page :: "page_action \<Rightarrow> ('r, 'k) settings \<Rightarrow> ('r, 'k) settings js" where
  "api_page action s = js_bind (fnPageChange False action False s) (\<lambda>(changed, s'). Inr s')"

record page_info =
  pi_page :: int
  pi_pages :: int
  pi_start :: int
  pi_end :: int
  pi_length :: int
  pi_recordsTotal :: int
  pi_recordsDisplay :: int

definition api_page_info :: "('r, 'k) settings \<Rightarrow> page_info" where
  "api_page_info s =
     (let start = iDisplayStart s; len = iDisplayLength s; visRecords = fnRecordsDisplay s; all = (len = -1)
      in \<lparr>pi_page = (if all then 0 else start div len), pi_pages = (if all then 1 else ceil_div visRecords len),
          pi_start = start, pi_end = fnDisplayEnd s, pi_length = len,
          pi_recordsTotal = fnRecordsTotal s, pi_recordsDisplay = visRecords\<rparr>)"

definition api_page_len :: "int \<Rightarrow> ('r, 'k) settings \<Rightarrow> ('r, 'k) settings" where
  "api_page_len len s = fnLengthChange len s"

text \<open>The callback of \<open>__reload\<close>: the new data replaces the rows.\<close>

definition reload_answer ::
  "'r filter_env \<Rightarrow> 'k sort_env \<Rightarrow> bool \<Rightarrow> 'r list \<Rightarrow> ('r, 'k::linorder) settings \<Rightarrow> ('r, 'k) settings js" where
  "reload_answer F E holdPosition data s =
     fnReDraw F E holdPosition (fold (\<lambda>d st. snd (fnAddData d st)) data (fnClearTable s))"

section \<open>Rows\<close>

definition rows_add :: "'r list \<Rightarrow> ('r, 'k) settings \<Rightarrow> nat list \<times> ('r, 'k) settings" where
  "rows_add rows s =
     fold (\<lambda>row (out, st). let (i, st') = fnAddData row st in (out @ [i], st')) rows ([], s)"

definition row_remove :: "nat \<Rightarrow> ('r, 'k) settings \<Rightarrow> ('r, 'k) settings" where
  "row_remove row s =
     fnLengthOverflow
       (s\<lparr>aoData := take row (aoData s) @ drop (Suc row) (aoData s),
          aiDisplayMaster := fnDeleteIndex (aiDisplayMaster s) row False,
          aiDisplay := fnDeleteIndex (aiDisplay s) row False\<rparr>)"

lemma length_fnDeleteIndex_keep [simp]: "length (fnDeleteIndex a t True) = length a"
proof -
  have "length (snd (delete_loop t i f a)) = length a" for i f
    by (induction a arbitrary: i f) (auto simp: split_def Let_def)
  then show ?thesis by (simp add: fnDeleteIndex_def split_def)
qed

text \<open>
  \<open>rows().remove()\<close>: the iterator walks over the selected indices, which each removal
  adjusts (without splicing) in the very array that is walked over.
\<close>

function rows_remove :: "nat list \<Rightarrow> ('r, 'k) settings \<Rightarrow> ('r, 'k) settings" where
  "rows_remove [] s = s"
| "rows_remove (row # rows) s = rows_remove (fnDeleteIndex rows row True) (row_remove row s)"
  by pat_completeness auto
termination by (relation "measure (\<lambda>(rows, s). length rows)") simp_all

text \<open>
  \<open>_fnInvalidateRow\<close>: \<open>fromDom\<close> is the data read from the row's elements when these are the
  source of the row's data. The elements themselves are not modelled.
\<close>

definition fnInvalidateRow :: "'r option \<Rightarrow> nat \<Rightarrow> nat option \<Rightarrow> ('r, 'k) settings \<Rightarrow> ('r, 'k) settings" where
  "fnInvalidateRow fromDom rowIdx column s =
     (let row = aoData s ! rowIdx;
          row1 = (case fromDom of Some d \<Rightarrow> row\<lparr>aData := d\<rparr> | None \<Rightarrow> row)
      in s\<lparr>aoData := (aoData s)[rowIdx := row1\<lparr>aSortData := Map.empty, aFilterData := None\<rparr>],
           aoColumns := (case column of
                           Some c \<Rightarrow> (aoColumns s)[c := (aoColumns s ! c)\<lparr>sType := None\<rparr>]
                         | None \<Rightarrow> map (\<lambda>c. c\<lparr>sType := None\<rparr>) (aoColumns s))\<rparr>)"

definition row_data :: "'r \<Rightarrow> nat \<Rightarrow> ('r, 'k) settings \<Rightarrow> ('r, 'k) settings" where
  "row_data data row s =
     fnInvalidateRow None row None (s\<lparr>aoData := (aoData s)[row := (aoData s ! row)\<lparr>aData := data\<rparr>]\<rparr>)"

section \<open>Order, search and columns\<close>

definition api_order :: "sort_entry list \<Rightarrow> ('r, 'k) settings \<Rightarrow> ('r, 'k) settings" where
  "api_order order s = s\<lparr>aaSorting := order\<rparr>"

definition columns_order :: "nat list \<Rightarrow> string \<Rightarrow> ('r, 'k) settings \<Rightarrow> ('r, 'k) settings" where
  "columns_order cols dir s = s\<lparr>aaSorting := map (\<lambda>c. \<lparr>so_col = c, so_dir = dir, so_idx = None\<rparr>) cols\<rparr>"

text \<open>\<open>$.extend\<close> skips a value that is \<open>undefined\<close>; \<open>null\<close> asks for the default.\<close>

definition arg_val :: "bool \<Rightarrow> bool \<Rightarrow> arg \<Rightarrow> bool" where
  "arg_val dflt prev a = (case a of Undefined \<Rightarrow> prev | Null \<Rightarrow> dflt | Given b \<Rightarrow> b)"

definition extend_search :: "string \<Rightarrow> arg \<Rightarrow> arg \<Rightarrow> arg \<Rightarrow> search \<Rightarrow> search" where
  "extend_search input regex smart caseInsen prev =
     \<lparr>sSearch = input, bRegex = arg_val False (bRegex prev) regex, bSmart = arg_val True (bSmart prev) smart,
      bCaseInsensitive = arg_val True (bCaseInsensitive prev) caseInsen\<rparr>"

definition filter_complete ::
  "'r filter_env \<Rightarrow> 'k sort_env \<Rightarrow> search \<Rightarrow> bool \<Rightarrow> ('r, 'k) settings \<Rightarrow> ('r, 'k) settings js" where
  "filter_complete F E input force s =
     fnFilterComplete (fe_regex F) (fe_decode F) (se_types E) (fe_customs F) input force s"

definition api_search ::
  "'r filter_env \<Rightarrow> 'k sort_env \<Rightarrow> string \<Rightarrow> arg \<Rightarrow> arg \<Rightarrow> arg \<Rightarrow> ('r, 'k) settings \<Rightarrow> ('r, 'k) settings js" where
  "api_search F E input regex smart caseInsen s =
     (if \<not> bFilter s then Inr s
      else filter_complete F E (extend_search input regex smart caseInsen (oPreviousSearch s)) True s)"

definition column_search ::
  "'r filter_env \<Rightarrow> 'k sort_env \<Rightarrow> nat \<Rightarrow> string \<Rightarrow> arg \<Rightarrow> arg \<Rightarrow> arg \<Rightarrow> ('r, 'k) settings \<Rightarrow> ('r, 'k) settings js" where
  "column_search F E column input regex smart caseInsen s =
     (if \<not> bFilter s then Inr s
      else (let s1 = s\<lparr>aoPreSearchCols := (aoPreSearchCols s)[column :=
                         extend_search input regex smart caseInsen (aoPreSearchCols s ! column)]\<rparr>
            in filter_complete F E (oPreviousSearch s1) True s1))"

text \<open>What the user does: typing in the search box, and choosing from the length menu.\<close>

definition searchFn :: "'r filter_env \<Rightarrow> 'k sort_env \<Rightarrow> string \<Rightarrow> ('r, 'k) settings \<Rightarrow> ('r, 'k) settings js" where
  "searchFn F E val s =
     (let previousSearch = oPreviousSearch s
      in if val \<noteq> sSearch previousSearch
         then js_bind (filter_complete F E (previousSearch\<lparr>sSearch := val\<rparr>) False s)
                (\<lambda>s1. fnDraw (fe_veto F) (s1\<lparr>iDisplayStart := 0\<rparr>))
         else Inr s)"

definition length_menu :: "'r filter_env \<Rightarrow> int \<Rightarrow> ('r, 'k) settings \<Rightarrow> ('r, 'k) settings js" where
  "length_menu F len s = fnDraw (fe_veto F) (fnLengthChange len s)"

definition set_column_vis :: "nat \<Rightarrow> bool \<Rightarrow> ('r, 'k) settings \<Rightarrow> ('r, 'k) settings" where
  "set_column_vis column vis s =
     (let col = aoColumns s ! column
      in if bVisible col = vis then s else s\<lparr>aoColumns := (aoColumns s)[column := col\<lparr>bVisible := vis\<rparr>]\<rparr>)"

text \<open>
  The column selectors that name columns by position or name: everything, an index (from the
  right when negative), an index among the visible columns, a name. \<open>None\<close> in the result is
  a column that does not exist.
\<close>

datatype col_selector = SelAll | SelInt int | SelVisible int | SelName string

definition column_selector :: "col_selector \<Rightarrow> ('r, 'k) settings \<Rightarrow> int option list" where
  "column_selector sel s =
     (let columns = aoColumns s
      in case sel of
           SelAll \<Rightarrow> map (\<lambda>i. Some (int i)) [0..<length columns]
         | SelInt i \<Rightarrow> [Some (if i \<ge> 0 then i else int (length columns) + i)]
         | SelVisible idx \<Rightarrow>
             (if idx < 0
              then (let vis = fnGetColumns bVisible s; i = int (length vis) + idx
                    in [if 0 \<le> i then Some (int (vis ! nat i)) else None])
              else [map_option int (fnVisibleToColumnIndex s (nat idx))])
         | SelName n \<Rightarrow> map (\<lambda>i. Some (int i)) (filter (\<lambda>i. sName (columns ! i) = n) [0..<length columns]))"

section \<open>Well-formed tables\<close>

text \<open>
  A table whose data is in the browser is well formed when the master array is a permutation
  of the rows, the display array shows rows at most once, and the paging position makes sense.
\<close>

definition frame :: "('r, 'k) settings \<Rightarrow> bool \<times> nat \<times> nat list \<times> int \<times> int \<times> int" where
  "frame s = (bServerSide s, length (aoData s), aiDisplayMaster s, iDisplayStart s, iDisplayLength s, iInitDisplayStart s)"

definition table_wf :: "('r, 'k) settings \<Rightarrow> bool" where
  "table_wf s \<longleftrightarrow> \<not> bServerSide s \<and> mset (aiDisplayMaster s) = mset [0..<length (aoData s)] \<and>
     distinct (aiDisplay s) \<and> set (aiDisplay s) \<subseteq> {..<length (aoData s)} \<and> 0 \<le> iDisplayStart s \<and>
     (iDisplayLength s = -1 \<or> 0 < iDisplayLength s) \<and> (iInitDisplayStart s = -1 \<or> 0 \<le> iInitDisplayStart s)"

lemma wf_master:
  assumes "table_wf s"
  shows "distinct (aiDisplayMaster s)" "set (aiDisplayMaster s) = {..<length (aoData s)}"
proof -
  have m: "mset (aiDisplayMaster s) = mset [0..<length (aoData s)]" using assms by (simp add: table_wf_def)
  show "distinct (aiDisplayMaster s)" using mset_eq_imp_distinct_iff [OF m] by simp
  show "set (aiDisplayMaster s) = {..<length (aoData s)}" using mset_eq_setD [OF m] by (simp add: atLeast0LessThan)
qed

lemma subseq_distinct_set: "subseq xs ys \<Longrightarrow> distinct ys \<Longrightarrow> distinct xs \<and> set xs \<subseteq> set ys"
  by (auto simp: subseq_conv_nths intro: distinct_nthsI dest: in_set_nthsD)

lemma wf_frame: "table_wf s \<Longrightarrow> frame t = frame s \<Longrightarrow> aiDisplay t = aiDisplay s \<Longrightarrow> table_wf t"
  by (simp add: table_wf_def frame_def)

lemma wf_narrow:
  assumes "table_wf s" "frame t = frame s"
    "subseq (aiDisplay t) (aiDisplay s) \<or> subseq (aiDisplay t) (aiDisplayMaster s)"
  shows "table_wf t"
proof -
  have "distinct (aiDisplay t) \<and> set (aiDisplay t) \<subseteq> {..<length (aoData s)}"
    using assms(3)
  proof
    assume "subseq (aiDisplay t) (aiDisplay s)"
    from subseq_distinct_set [OF this] show ?thesis using assms(1) by (auto simp: table_wf_def)
  next
    assume "subseq (aiDisplay t) (aiDisplayMaster s)"
    from subseq_distinct_set [OF this] show ?thesis using wf_master [OF assms(1)] by simp
  qed
  then show ?thesis using assms(1,2) by (simp add: table_wf_def frame_def)
qed

subsection \<open>Filters narrow the display array\<close>

lemma fnColumnTypes_frame [simp]: "frame (fnColumnTypes types s) = frame s" "aiDisplay (fnColumnTypes types s) = aiDisplay s"
    "aiDisplayMaster (fnColumnTypes types s) = aiDisplayMaster s"
  by (simp_all add: fnColumnTypes_def frame_def)

lemma fnFilter_narrow:
  "fnFilter eng dec customs input force regex smart ci s = Inr t \<Longrightarrow>
   frame t = frame s \<and> (subseq (aiDisplay t) (aiDisplay s) \<or> subseq (aiDisplay t) (aiDisplayMaster s))"
  by (auto simp: fnFilter_def fnFilterData_def frame_def Let_def splice_loop_filter js_bind_Inr_iff split: if_splits)

lemma fnFilterColumn_narrow:
  "fnFilterColumn eng str col regex smart ci s = Inr t \<Longrightarrow> frame t = frame s \<and> subseq (aiDisplay t) (aiDisplay s)"
  by (auto simp: fnFilterColumn_def frame_def Let_def splice_loop_filter js_bind_Inr_iff split: if_splits)

lemma subseq_zip_filter: "subseq (map fst (filter P (zip xs ys))) xs"
  by (induction xs ys rule: list_induct2') auto

lemma fnFilterCustom_narrow: "frame (fnFilterCustom fs s) = frame s \<and> subseq (aiDisplay (fnFilterCustom fs s)) (aiDisplay s)"
proof (induction fs arbitrary: s)
  case (Cons f fs)
  let ?s = "s\<lparr>aiDisplay := map fst (filter (\<lambda>(rowIdx, j). f (the (aFilterData (aoData s ! rowIdx))) rowIdx
      (aData (aoData s ! rowIdx)) j) (zip (aiDisplay s) [0..<length (aiDisplay s)]))\<rparr>"
  have "fnFilterCustom (f # fs) s = fnFilterCustom fs ?s" by (simp add: fnFilterCustom_def)
  moreover have "frame ?s = frame s" "subseq (aiDisplay ?s) (aiDisplay s)"
    by (simp_all add: frame_def subseq_zip_filter)
  ultimately obtain u where u: "fnFilterCustom (f # fs) s = fnFilterCustom fs u" "frame u = frame s"
    "subseq (aiDisplay u) (aiDisplay s)" by blast
  show ?case unfolding u(1) using Cons [of u] u(2) subseq_order.trans [OF _ u(3)] by simp
qed (simp add: fnFilterCustom_def)

lemma column_filters_narrow:
  "foldl (\<lambda>m i. js_bind m (\<lambda>t. let p = aoPreSearchCols t ! i
       in fnFilterColumn eng (sSearch p) i (bRegex p) (bSmart p) (bCaseInsensitive p) t)) (Inr s) is = Inr t \<Longrightarrow>
   frame t = frame s \<and> subseq (aiDisplay t) (aiDisplay s)"
proof (induction "is" arbitrary: t rule: rev_induct)
  case (snoc i "is")
  then obtain u where u: "foldl (\<lambda>m i. js_bind m (\<lambda>t. let p = aoPreSearchCols t ! i
       in fnFilterColumn eng (sSearch p) i (bRegex p) (bSmart p) (bCaseInsensitive p) t)) (Inr s) is = Inr u"
    "(let p = aoPreSearchCols u ! i in fnFilterColumn eng (sSearch p) i (bRegex p) (bSmart p) (bCaseInsensitive p) u) = Inr t"
    by (auto simp: js_bind_Inr_iff)
  then show ?case using snoc.IH [OF u(1)] fnFilterColumn_narrow [of eng _ i _ _ _ u t] subseq_order.trans
    by (metis (no_types, lifting))
qed simp

lemma fnFilterComplete_narrow:
  assumes "fnFilterComplete eng dec types customs input force s = Inr t" "\<not> bServerSide s"
  shows "frame t = frame s \<and> (subseq (aiDisplay t) (aiDisplay s) \<or> subseq (aiDisplay t) (aiDisplayMaster s))"
proof -
  let ?s0 = "fnColumnTypes types s"
  have ssp: "\<not> bServerSide ?s0" using assms(2) by (simp add: fnColumnTypes_def)
  then obtain s1 u where s1: "fnFilter eng dec (customs \<noteq> []) (sSearch input) force (bRegex input) (bSmart input)
        (bCaseInsensitive input) ?s0 = Inr s1"
    and u: "foldl (\<lambda>m i. js_bind m (\<lambda>t. let p = aoPreSearchCols t ! i
        in fnFilterColumn eng (sSearch p) i (bRegex p) (bSmart p) (bCaseInsensitive p) t))
        (Inr (s1\<lparr>oPreviousSearch := input\<rparr>)) [0..<length (aoPreSearchCols s1)] = Inr u"
    and t: "t = (fnFilterCustom customs u)\<lparr>bFiltered := True\<rparr>"
    using assms(1) by (auto simp: fnFilterComplete_def js_bind_Inr_iff Let_def)
  have fr: "frame (s1\<lparr>oPreviousSearch := input\<rparr>) = frame s1" "frame t = frame (fnFilterCustom customs u)"
    by (simp_all add: frame_def t)
  have sub: "subseq (aiDisplay t) (aiDisplay s1)"
    using column_filters_narrow [OF u] fnFilterCustom_narrow [of customs u] subseq_order.trans by (auto simp: t)
  then show ?thesis
    using fnFilter_narrow [OF s1] column_filters_narrow [OF u] fnFilterCustom_narrow [of customs u] fr
      subseq_order.trans [OF sub] by auto
qed


lemma filter_complete_wf [wf_intros]:
  "table_wf s \<Longrightarrow> filter_complete F E input force s = Inr t \<Longrightarrow> table_wf t"
  using fnFilterComplete_narrow [of "fe_regex F" "fe_decode F" "se_types E" "fe_customs F" input force s t] wf_narrow [of s t]
  by (auto simp: filter_complete_def table_wf_def)

subsection \<open>Sorting permutes the master array\<close>

lemma fnSortData_other [simp]:
  "aiDisplay (fnSortData fmt falsy idx s) = aiDisplay s" "frame (fnSortData fmt falsy idx s) = frame s"
  by (simp_all add: fnSortData_def frame_def)

lemma fold_fnSortData_other:
  "frame (fold (\<lambda>sp. fnSortData fmt falsy (ss_col sp)) specs s) = frame s \<and>
   aiDisplay (fold (\<lambda>sp. fnSortData fmt falsy (ss_col sp)) specs s) = aiDisplay s"
  by (induction specs arbitrary: s) simp_all

lemma fnSort_wf [wf_intros]:
  assumes "array_sort (se_sort E)" "table_wf s"
  shows "table_wf (fnSort E s)"
proof -
  let ?s0 = "fnColumnTypes (se_types E) s"
  let ?specs = "fnSortFlatten (se_fixed E) (se_fmt E) ?s0"
  let ?s1 = "fold (\<lambda>sp. fnSortData (se_fmt E) (se_falsy E) (ss_col sp)) ?specs ?s0"
  have wf: "table_wf ?s1"
    using assms(2) fold_fnSortData_other [of "se_fmt E" "se_falsy E" ?specs ?s0] by (intro wf_frame [OF assms(2)]) simp_all
  have perm: "mset (se_sort E c xs) = mset xs" for c xs by (rule array_sort.sort_mset [OF assms(1)])
  obtain M where M: "fnSort E s = ?s1\<lparr>aiDisplayMaster := M, bSorted := True\<rparr>" "mset M = mset (aiDisplayMaster ?s1)"
  proof (cases "fnDataSource ?s1 \<noteq> Ssp \<and> ?specs \<noteq> []")
    case True
    show ?thesis by (rule that [of "se_sort E _ _"]) (use True in \<open>auto simp: fnSort_def Let_def perm\<close>)
  next
    case False
    then show ?thesis by (intro that [of "aiDisplayMaster ?s1"]) (auto simp: fnSort_def Let_def)
  qed
  then show ?thesis using wf by (simp add: table_wf_def)
qed

subsection \<open>Drawing\<close>

lemma init_start_data [simp]: "aoData (init_start s) = aoData s"
  by (simp add: init_start_def)

lemma init_start_wf: "table_wf s \<Longrightarrow> table_wf (init_start s)"
  by (auto simp: init_start_def table_wf_def)

lemma fnDisplayEnd_bound: "\<not> bServerSide s \<Longrightarrow> fnDisplayEnd s \<le> int (length (aiDisplay s))"
  by (auto simp: fnDisplayEnd_def Let_def)

lemma fnDraw_client:
  assumes "\<not> bServerSide s"
  shows "\<exists>s2. frame s2 = frame (init_start s) \<and> aiDisplay s2 = aiDisplay s \<and> aoData s2 = aoData s \<and>
    fnDraw False s =
      js_bind (if aiDisplay s2 \<noteq> []
               then draw_rows (aiDisplay s2) (asStripeClasses s2) 0 [iDisplayStart s2..fnDisplayEnd s2 - 1] (aoData s2)
               else Inr (aoData s2, [DrawnMessage (empty_message s2)]))
        (\<lambda>(data, body). Inr (s2\<lparr>aoData := data, tbody := body, bSorted := False, bFiltered := False\<rparr>))"
proof -
  let ?s = "init_start s"
  let ?s2 = "if bDeferLoading ?s then ?s\<lparr>bDeferLoading := False, iDraw := iDraw ?s + 1\<rparr> else ?s\<lparr>iDraw := iDraw ?s + 1\<rparr>"
  have cl: "\<not> bServerSide ?s" "aiDisplay ?s = aiDisplay s" using assms by (simp_all add: init_start_def)
  have same: "fnDisplayEnd (x\<lparr>iDraw := w\<rparr>) = fnDisplayEnd x"
    "fnDisplayEnd (x\<lparr>bDeferLoading := v, iDraw := w\<rparr>) = fnDisplayEnd x" for x :: "('a, 'b) settings" and v w
    by (simp_all add: fnDisplayEnd_def Let_def)
  show ?thesis
    by (rule exI [of _ ?s2]) (use cl same in \<open>simp add: frame_def fnDraw_def Let_def\<close>)
qed

lemma fnDraw_wf:
  assumes "table_wf s"
  shows "\<exists>u. fnDraw veto s = Inr u \<and> table_wf u \<and> map aData (aoData u) = map aData (aoData s)"
proof (cases veto)
  case False
  have "\<not> bServerSide s" using assms by (simp add: table_wf_def)
  from fnDraw_client [OF this] obtain s2 where s2: "frame s2 = frame (init_start s)" "aiDisplay s2 = aiDisplay s"
    "aoData s2 = aoData s" "fnDraw False s =
      js_bind (if aiDisplay s2 \<noteq> []
               then draw_rows (aiDisplay s2) (asStripeClasses s2) 0 [iDisplayStart s2..fnDisplayEnd s2 - 1] (aoData s2)
               else Inr (aoData s2, [DrawnMessage (empty_message s2)]))
        (\<lambda>(data, body). Inr (s2\<lparr>aoData := data, tbody := body, bSorted := False, bFiltered := False\<rparr>))" by blast
  have wf: "table_wf s2"
    by (rule wf_frame [OF init_start_wf [OF assms] s2(1)]) (simp add: s2(2) init_start_def)
  let ?js = "[iDisplayStart s2..fnDisplayEnd s2 - 1]"
  have cl: "\<not> bServerSide s2" "0 \<le> iDisplayStart s2" "set (aiDisplay s2) \<subseteq> {..<length (aoData s2)}"
    using wf by (simp_all add: table_wf_def)
  have "\<forall>j\<in>set ?js. 0 \<le> j \<and> j < int (length (aiDisplay s2))"
    using cl(2) fnDisplayEnd_bound [OF cl(1)] by auto
  from draw_rows_ok [OF this cl(3), of "asStripeClasses s2" 0] obtain d where
    d: "draw_rows (aiDisplay s2) (asStripeClasses s2) 0 ?js (aoData s2) = Inr (d, map (\<lambda>j. DrawnRow (aiDisplay s2 ! nat j)) ?js)"
      "map aData d = map aData (aoData s2)" by blast
  obtain d' body where b: "fnDraw False s = Inr (s2\<lparr>aoData := d', tbody := body, bSorted := False, bFiltered := False\<rparr>)"
      "map aData d' = map aData (aoData s2)"
  proof (cases "aiDisplay s2 = []")
    case True
    show ?thesis by (rule that [where d' = "aoData s2" and body = "[DrawnMessage (empty_message s2)]"]) (simp_all add: s2(4) True)
  qed (use d s2(4) in \<open>auto intro: that\<close>)
  have "length d' = length (aoData s2)" using arg_cong [OF b(2), of length] by simp
  then have "table_wf (s2\<lparr>aoData := d', tbody := body, bSorted := False, bFiltered := False\<rparr>)"
    by (intro wf_frame [OF wf]) (simp_all add: frame_def)
  then show ?thesis using False b s2(3) by simp
qed (use assms in \<open>simp add: fnDraw_def\<close>)

lemma fnReDraw_wf [wf_intros]:
  assumes "array_sort (se_sort E)" "table_wf s" "fnReDraw F E hold s = Inr t"
  shows "table_wf t"
proof -
  let ?s1 = "if bSort s then fnSort E s else s"
  have s1: "table_wf ?s1" using assms(1,2) by (simp add: fnSort_wf)
  have "\<exists>s2. table_wf s2 \<and> fnDraw (fe_veto F) (if hold then s2 else s2\<lparr>iDisplayStart := 0\<rparr>) = Inr t"
  proof (cases "bFilter ?s1")
    case True
    then obtain s2 where "filter_complete F E (oPreviousSearch ?s1) False ?s1 = Inr s2"
      "fnDraw (fe_veto F) (if hold then s2 else s2\<lparr>iDisplayStart := 0\<rparr>) = Inr t"
      using assms(3) unfolding fnReDraw_def Let_def filter_complete_def by (auto simp: js_bind_Inr_iff)
    then show ?thesis using filter_complete_wf [OF s1] by blast
  next
    case False
    moreover have "table_wf (?s1\<lparr>aiDisplay := aiDisplayMaster ?s1\<rparr>)"
      by (rule wf_narrow [OF s1]) (simp_all add: frame_def)
    ultimately show ?thesis using assms(3) unfolding fnReDraw_def Let_def by auto
  qed
  then obtain s2 where s2: "table_wf s2" "fnDraw (fe_veto F) (if hold then s2 else s2\<lparr>iDisplayStart := 0\<rparr>) = Inr t" by blast
  have "table_wf (if hold then s2 else s2\<lparr>iDisplayStart := 0\<rparr>)" using s2(1) by (simp add: table_wf_def)
  from fnDraw_wf [OF this, of "fe_veto F"] s2(2) show ?thesis by auto
qed


subsection \<open>Rows and pages\<close>

lemma fnAddData_wf [wf_intros]: "table_wf s \<Longrightarrow> table_wf (snd (fnAddData d s))"
  by (auto simp: fnAddData_def table_wf_def Let_def)

lemma fold_fnAddData_wf [wf_intros]: "table_wf s \<Longrightarrow> table_wf (fold (\<lambda>d st. snd (fnAddData d st)) ds s)"
  by (induction ds arbitrary: s) (simp_all add: fnAddData_wf)

lemma rows_add_fold: "snd (rows_add rows s) = fold (\<lambda>d st. snd (fnAddData d st)) rows s"
proof -
  have "snd (fold (\<lambda>row (out, st). let (i, st') = fnAddData row st in (out @ [i], st')) rows (out, s)) =
      fold (\<lambda>d st. snd (fnAddData d st)) rows s" for out
    by (induction rows arbitrary: out s) (auto simp: split_def Let_def)
  then show ?thesis by (simp add: rows_add_def)
qed

lemma fnClearTable_wf [wf_intros]: "table_wf s \<Longrightarrow> table_wf (fnClearTable s)"
  by (simp add: fnClearTable_def table_wf_def)

lemma fnLengthOverflow_wf [wf_intros]: "table_wf s \<Longrightarrow> table_wf (fnLengthOverflow s)"
  by (auto simp: fnLengthOverflow_def table_wf_def Let_def)

lemma fnLengthChange_wf [wf_intros]: "table_wf s \<Longrightarrow> len = -1 \<or> 0 < len \<Longrightarrow> table_wf (fnLengthChange len s)"
  unfolding fnLengthChange_def by (rule fnLengthOverflow_wf) (auto simp: table_wf_def)

lemma delete_perm:
  assumes "mset M = mset [0..<n]" "r < n"
  shows "mset (fnDeleteIndex M r False) = mset [0..<n - 1]"
proof -
  have M: "distinct M" "set M = {..<n}"
    using mset_eq_imp_distinct_iff [OF assms(1)] mset_eq_setD [OF assms(1)] by (simp_all add: atLeast0LessThan)
  let ?f = "\<lambda>x. if x > r then x - 1 else x"
  have inj: "inj_on ?f ({..<n} - {r})" by (auto simp: inj_on_def split: if_splits)
  have "?f ` ({..<n} - {r}) = {..<n - 1}"
  proof (intro equalityI subsetI)
    fix y assume y: "y \<in> {..<n - 1}"
    show "y \<in> ?f ` ({..<n} - {r})"
      by (rule image_eqI [of _ _ "if y < r then y else Suc y"]) (use y in auto)
  qed (use assms(2) in auto)
  moreover have "distinct (fnDeleteIndex M r False)"
    using M inj unfolding fnDeleteIndex_map [OF M(1)] by (simp add: distinct_map set_diff_eq inj_on_def)
  moreover have "set (fnDeleteIndex M r False) = ?f ` ({..<n} - {r})"
    unfolding fnDeleteIndex_map [OF M(1)] using M(2) by auto
  ultimately show ?thesis by (metis atLeast0LessThan distinct_upt set_eq_iff_mset_eq_distinct set_upt)
qed

lemma row_remove_wf [wf_intros]:
  assumes "table_wf s" "row < length (aoData s)"
  shows "table_wf (row_remove row s)"
  unfolding row_remove_def
proof (rule fnLengthOverflow_wf)
  have d: "distinct (aiDisplay s)" "set (aiDisplay s) \<subseteq> {..<length (aoData s)}" using assms(1) by (simp_all add: table_wf_def)
  have "inj_on (\<lambda>x. if x > row then x - 1 else x) (- {row})" by (auto simp: inj_on_def split: if_splits)
  then have "distinct (fnDeleteIndex (aiDisplay s) row False)"
    unfolding fnDeleteIndex_map [OF d(1)] using d(1) by (auto simp: distinct_map intro: inj_on_subset)
  moreover have "set (fnDeleteIndex (aiDisplay s) row False) \<subseteq> {..<length (aoData s) - 1}"
    unfolding fnDeleteIndex_map [OF d(1)] using d(2) assms(2) by auto
  moreover have "mset (fnDeleteIndex (aiDisplayMaster s) row False) = mset [0..<length (aoData s) - 1]"
    using assms by (intro delete_perm) (simp_all add: table_wf_def)
  moreover have "length (take row (aoData s) @ drop (Suc row) (aoData s)) = length (aoData s) - 1"
    using assms(2) by simp
  ultimately show "table_wf (s\<lparr>aoData := take row (aoData s) @ drop (Suc row) (aoData s),
      aiDisplayMaster := fnDeleteIndex (aiDisplayMaster s) row False, aiDisplay := fnDeleteIndex (aiDisplay s) row False\<rparr>)"
    using assms(1) by (simp add: table_wf_def del: mset_upt)
qed

lemma fnInvalidateRow_wf [wf_intros]: "table_wf s \<Longrightarrow> table_wf (fnInvalidateRow d row col s)"
  by (rule wf_frame) (simp_all add: fnInvalidateRow_def frame_def Let_def)

lemma row_data_wf [wf_intros]: "table_wf s \<Longrightarrow> table_wf (row_data d row s)"
  unfolding row_data_def by (rule fnInvalidateRow_wf, erule wf_frame) (simp_all add: frame_def)

lemma page_start_nonneg:
  assumes "table_wf s" "\<And>n. action = PNum n \<Longrightarrow> 0 \<le> n"
  shows "0 \<le> page_start action s"
proof -
  let ?r = "fnRecordsDisplay s" and ?len = "iDisplayLength s"
  have w: "0 \<le> iDisplayStart s" "?len = -1 \<or> 0 < ?len" "0 \<le> ?r"
    using assms(1) by (auto simp: table_wf_def fnRecordsDisplay_def)
  show ?thesis
  proof (cases "?r = 0 \<or> ?len = -1")
    case False
    then have "0 < ?len" "0 < ?r" using w by auto
    then show ?thesis
      using w assms(2) last_page_start(1) [of ?len ?r] by (cases action) (auto simp: page_start_def Let_def)
  qed (simp add: page_start_def Let_def)
qed

lemma fnPageChange_wf [wf_intros]:
  assumes "table_wf s" "\<And>n. action = PNum n \<Longrightarrow> 0 \<le> n"
  shows "\<exists>c t. fnPageChange veto action redraw s = Inr (c, t) \<and> table_wf t"
proof -
  have wf: "table_wf (s\<lparr>iDisplayStart := page_start action s\<rparr>)"
    using assms(1) page_start_nonneg [OF assms] by (simp add: table_wf_def)
  from fnDraw_wf [OF this, of veto] wf show ?thesis by (auto simp: fnPageChange_def Let_def)
qed


section \<open>Calls as steps\<close>

text \<open>
  One call of the interface or one user action on a table, with the arguments the
  documentation allows: page numbers are not negative, a page length is positive or \<open>-1\<close>,
  removed rows exist. A call that raises is no step.
\<close>

inductive table_step :: "'r filter_env \<Rightarrow> 'k sort_env \<Rightarrow> ('r, 'k::linorder) settings \<Rightarrow> ('r, 'k) settings \<Rightarrow> bool"
  for F E where
  step_add: "table_step F E s (snd (rows_add rows s))"
| step_clear: "table_step F E s (fnClearTable s)"
| step_remove: "row < length (aoData s) \<Longrightarrow> table_step F E s (row_remove row s)"
| step_data: "table_step F E s (row_data d row s)"
| step_invalidate: "table_step F E s (fnInvalidateRow d row col s)"
| step_order: "table_step F E s (api_order order s)"
| step_columns_order: "table_step F E s (columns_order cols dir s)"
| step_visible: "table_step F E s (set_column_vis column vis s)"
| step_len: "len = -1 \<or> 0 < len \<Longrightarrow> table_step F E s (api_page_len len s)"
| step_page: "(\<And>n. action = PNum n \<Longrightarrow> 0 \<le> n) \<Longrightarrow> fnPageChange veto action redraw s = Inr (c, t) \<Longrightarrow> table_step F E s t"
| step_search: "api_search F E input regex smart caseInsen s = Inr t \<Longrightarrow> table_step F E s t"
| step_column_search: "column_search F E column input regex smart caseInsen s = Inr t \<Longrightarrow> table_step F E s t"
| step_sort: "fnSortListener F E colIdx shift s = Inr t \<Longrightarrow> table_step F E s t"
| step_draw: "api_draw F E resetPaging s = Inr t \<Longrightarrow> table_step F E s t"
| step_reload: "reload_answer F E hold data s = Inr t \<Longrightarrow> table_step F E s t"
| step_type: "searchFn F E val s = Inr t \<Longrightarrow> table_step F E s t"
| step_menu: "len = -1 \<or> 0 < len \<Longrightarrow> length_menu F len s = Inr t \<Longrightarrow> table_step F E s t"

lemma sort_request_frame: "frame (sort_request col shift s) = frame s \<and> aiDisplay (sort_request col shift s) = aiDisplay s"
  by (simp add: sort_request_def frame_def Let_def)

lemma table_step_wf:
  assumes "array_sort (se_sort E)" "table_step F E s t" "table_wf s"
  shows "table_wf t"
  using assms(2,3)
proof (induction rule: table_step.induct)
  case (step_add s rows)
  then show ?case unfolding rows_add_fold by (rule fold_fnAddData_wf)
next
  case (step_order s order)
  then show ?case by (elim wf_frame) (simp_all add: api_order_def frame_def)
next
  case (step_columns_order s cols dir)
  then show ?case by (elim wf_frame) (simp_all add: columns_order_def frame_def)
next
  case (step_visible s column vis)
  then show ?case by (elim wf_frame) (simp_all add: set_column_vis_def frame_def Let_def)
next
  case (step_len len s)
  then show ?case unfolding api_page_len_def by (intro fnLengthChange_wf)
next
  case (step_page action veto redraw s c t)
  from step_page(1) have "\<exists>c t. fnPageChange veto action redraw s = Inr (c, t) \<and> table_wf t"
    by (rule fnPageChange_wf [OF step_page(3)])
  then show ?case using step_page(2) by auto
next
  case (step_search input regex smart caseInsen s t)
  then show ?case using filter_complete_wf [OF step_search(2)] by (auto simp: api_search_def split: if_splits)
next
  case (step_column_search column input regex smart caseInsen s t)
  have "table_wf (s\<lparr>aoPreSearchCols := x\<rparr>)" for x
    by (rule wf_frame [OF step_column_search(2)]) (simp_all add: frame_def)
  from filter_complete_wf [OF this] show ?case
    using step_column_search by (auto simp: column_search_def Let_def split: if_splits)
next
  case (step_sort colIdx shift s t)
  have "table_wf (sort_request colIdx shift s)"
    by (rule wf_frame [OF step_sort(2)]) (simp_all add: sort_request_frame)
  from fnReDraw_wf [OF assms(1) this] step_sort(1) show ?case by (simp add: fnSortListener_def)
next
  case (step_draw resetPaging s t)
  from fnReDraw_wf [OF assms(1) step_draw(2)] step_draw(1) show ?case by (simp add: api_draw_def)
next
  case (step_reload hold data s t)
  from fnReDraw_wf [OF assms(1) fold_fnAddData_wf [OF fnClearTable_wf [OF step_reload(2)]]] step_reload(1)
  show ?case by (simp add: reload_answer_def)
next
  case (step_type val s t)
  show ?case
  proof (cases "val = sSearch (oPreviousSearch s)")
    case False
    then obtain u where u: "filter_complete F E ((oPreviousSearch s)\<lparr>sSearch := val\<rparr>) False s = Inr u"
      "fnDraw (fe_veto F) (u\<lparr>iDisplayStart := 0\<rparr>) = Inr t" using step_type(1) by (auto simp: searchFn_def js_bind_Inr_iff)
    have "table_wf (u\<lparr>iDisplayStart := 0\<rparr>)" using filter_complete_wf [OF step_type(2) u(1)] by (simp add: table_wf_def)
    from fnDraw_wf [OF this, of "fe_veto F"] u(2) show ?thesis by auto
  qed (use step_type in \<open>simp add: searchFn_def\<close>)
next
  case (step_menu len s t)
  from fnDraw_wf [OF fnLengthChange_wf [OF step_menu(3,1)], of "fe_veto F"] step_menu(2) show ?case
    by (auto simp: length_menu_def)
qed (simp_all add: wf_intros)

text \<open>
  C2: the invariant of a table. Through every sequence of interface calls and user actions
  that do not raise, the master array stays a permutation of the rows, the display array
  holds rows that exist, each at most once, and the paging position is not negative; so
  drawing the table never raises, wherever the paging position was left.
\<close>

theorem table_invariant:
  assumes "array_sort (se_sort E)" "table_wf s" "(table_step F E)\<^sup>*\<^sup>* s t"
  shows "table_wf t \<and> (\<exists>u. fnDraw veto t = Inr u \<and> table_wf u)"
proof -
  from assms(3) have "table_wf t"
    by (induction rule: rtranclp_induct) (simp_all add: assms(2) table_step_wf [OF assms(1)])
  then show ?thesis using fnDraw_wf [of t veto] by blast
qed

definition sample_filter :: "string filter_env" where
  "sample_filter = \<lparr>fe_regex = (\<lambda>_ _ _. False), fe_decode = id, fe_customs = [], fe_veto = False\<rparr>"

theorem table_invariant_witness:
  "table_wf (row_remove 1 (snd (rows_add [''f''] (sample_page 4 2)))) \<and>
   aiDisplay (row_remove 1 (snd (rows_add [''f''] (sample_page 4 2)))) = [3, 1, 0, 2]"
proof -
  let ?s = "sample_page 4 2" and ?t = "snd (rows_add [''f''] (sample_page 4 2))"
  have wf: "table_wf ?s"
    by (auto simp: table_wf_def sample_page_def sample_settings_def)
  have len: "1 < length (aoData ?t)" by (simp add: rows_add_fold fnAddData_def sample_page_def sample_settings_def Let_def)
  have "(table_step sample_filter sample_env)\<^sup>*\<^sup>* ?s (row_remove 1 ?t)"
    using step_add step_remove [OF len] by (meson rtranclp.rtrancl_into_rtrancl rtranclp.rtrancl_refl)
  moreover have "array_sort (se_sort sample_env)" by (simp add: sample_env_def insort.array_sort_axioms)
  ultimately have "table_wf (row_remove 1 ?t)" using table_invariant wf by blast
  moreover have "aiDisplay (row_remove 1 ?t) = [3, 1, 0, 2]"
    by (simp add: row_remove_def rows_add_fold fnAddData_def sample_page_def sample_settings_def fnLengthOverflow_def fnDeleteIndex_def Let_def)
  ultimately show ?thesis by simp
qed


section \<open>Removing rows\<close>

lemma nths_cong: "(\<And>i. i < length xs \<Longrightarrow> i \<in> A \<longleftrightarrow> i \<in> B) \<Longrightarrow> nths xs A = nths xs B"
  unfolding nths_def by (intro arg_cong [of _ _ "map fst"] filter_cong refl) (auto dest: set_zip_rightD)

abbreviation shift_from :: "nat \<Rightarrow> nat \<Rightarrow> nat" where
  "shift_from r x \<equiv> (if x > r then x - 1 else x)"

lemma shift_from_inj: "x \<noteq> r \<Longrightarrow> y \<noteq> r \<Longrightarrow> shift_from r x = shift_from r y \<Longrightarrow> x = y"
  by (cases "r < x"; cases "r < y"; simp; linarith)

lemma nths_splice:
  assumes "r < length d" "r \<notin> R"
  shows "nths (take r d @ drop (Suc r) d) (- (shift_from r ` R)) = nths d (- insert r R)"
proof -
  have d: "d = take r d @ d ! r # drop (Suc r) d" using assms(1) by (simp add: id_take_nth_drop)
  have len: "length (take r d) = r" using assms(1) by simp
  have out: "shift_from r x = i \<longleftrightarrow> x = i" if "i < r" "x \<noteq> r" for x i using that by auto
  have 1: "nths (take r d) (- (shift_from r ` R)) = nths (take r d) (- insert r R)"
  proof (rule nths_cong)
    fix i assume "i < length (take r d)"
    then show "i \<in> - (shift_from r ` R) \<longleftrightarrow> i \<in> - insert r R"
      using out [of i] assms(2) len by (auto simp: image_iff)
  qed
  have 2: "{j. j + r \<in> - (shift_from r ` R)} = {j. Suc j + r \<in> - insert r R}"
  proof -
    have "(\<exists>x\<in>R. j + r = shift_from r x) \<longleftrightarrow> Suc (j + r) \<in> R" for j
    proof
      assume "\<exists>x\<in>R. j + r = shift_from r x"
      then obtain x where "x \<in> R" "j + r = shift_from r x" by blast
      moreover from this have "x \<noteq> r" using assms(2) by blast
      ultimately show "Suc (j + r) \<in> R" by (cases "r < x") auto
    qed (auto intro!: bexI [of _ "Suc (j + r)"])
    then have mem: "j + r \<in> shift_from r ` R \<longleftrightarrow> Suc j + r \<in> R" for j unfolding image_iff by simp
    have "j + r \<in> - (shift_from r ` R) \<longleftrightarrow> Suc j + r \<in> - insert r R" for j
      unfolding Compl_iff mem by simp
    then show ?thesis by (rule Collect_cong)
  qed
  have "nths d (- insert r R) = nths (take r d @ d ! r # drop (Suc r) d) (- insert r R)" using d by simp
  also have "\<dots> = nths (take r d) (- insert r R) @ nths (drop (Suc r) d) {j. Suc j + r \<in> - insert r R}"
    using assms by (simp add: nths_append nths_Cons min_absorb2)
  also have "\<dots> = nths (take r d @ drop (Suc r) d) (- (shift_from r ` R))"
    by (simp only: nths_append len 1 2)
  finally show ?thesis by simp
qed

lemma fnDeleteIndex_keep: "r \<notin> set rs \<Longrightarrow> fnDeleteIndex rs r True = map (shift_from r) rs"
  by (simp add: fnDeleteIndex_def delete_loop_absent)

lemma fnLengthOverflow_other [simp]:
  "aoData (fnLengthOverflow s) = aoData s" "aiDisplay (fnLengthOverflow s) = aiDisplay s"
  by (simp_all add: fnLengthOverflow_def Let_def)

lemma row_remove_shown:
  assumes "table_wf s" "row < length (aoData s)"
  shows "map (\<lambda>i. aoData (row_remove row s) ! i) (aiDisplay (row_remove row s)) =
    map (\<lambda>i. aoData s ! i) (filter (\<lambda>i. i \<noteq> row) (aiDisplay s))"
  using delete_keeps_rows [of "aiDisplay s" "aoData s" row] assms by (simp add: row_remove_def table_wf_def)


lemma row_remove_data: "aoData (row_remove row s) = take row (aoData s) @ drop (Suc row) (aoData s)"
  by (simp add: row_remove_def)

lemma row_remove_filter:
  assumes "table_wf s" "row < length (aoData s)" "row \<notin> R"
  shows "map ((!) (aoData (row_remove row s))) (filter (\<lambda>i. i \<notin> shift_from row ` R) (aiDisplay (row_remove row s))) =
    map ((!) (aoData s)) (filter (\<lambda>i. i \<notin> insert row R) (aiDisplay s))"
proof -
  have d: "distinct (aiDisplay s)" "set (aiDisplay s) \<subseteq> {..<length (aoData s)}" using assms(1) by (simp_all add: table_wf_def)
  have inv: "shift_from row i \<in> shift_from row ` R \<longleftrightarrow> i \<in> R" if "i \<noteq> row" for i
  proof
    assume "shift_from row i \<in> shift_from row ` R"
    then obtain x where "x \<in> R" "shift_from row i = shift_from row x" by blast
    moreover from this have "x \<noteq> row" using assms(3) by blast
    ultimately show "i \<in> R" using shift_from_inj [OF that] by blast
  qed blast
  have eq: "aiDisplay (row_remove row s) = map (shift_from row) (filter (\<lambda>i. i \<noteq> row) (aiDisplay s))"
    by (simp add: row_remove_def fnDeleteIndex_map [OF d(1)])
  have nth: "aoData (row_remove row s) ! shift_from row i = aoData s ! i" if "i \<noteq> row" "i < length (aoData s)" for i
    using that assms(2) by (auto simp: row_remove_data nth_append min_def)
  have "filter (\<lambda>i. i \<notin> shift_from row ` R) (aiDisplay (row_remove row s)) =
      map (shift_from row) (filter (\<lambda>i. i \<notin> insert row R) (aiDisplay s))"
    unfolding eq filter_map filter_filter comp_def by (intro arg_cong [of _ _ "map _"] filter_cong refl) (use inv in blast)
  note f = this
  show ?thesis
    unfolding f map_map comp_def
  proof (intro map_cong refl)
    fix i assume "i \<in> set (filter (\<lambda>i. i \<notin> insert row R) (aiDisplay s))"
    then have "i \<noteq> row" "i < length (aoData s)" using d(2) by auto
    then show "aoData (row_remove row s) ! shift_from row i = aoData s ! i" by (rule nth)
  qed
qed

text \<open>
  C35: removing rows. \<open>rows().remove()\<close> for different existing rows, in whatever order they
  were selected, removes exactly their data, keeps the order of the rest, and the display
  array goes on to show what it showed, without them.
\<close>

theorem rows_remove_spec:
  assumes "table_wf s" "distinct rs" "set rs \<subseteq> {..<length (aoData s)}"
  shows "aoData (rows_remove rs s) = nths (aoData s) (- set rs) \<and>
    map ((!) (aoData (rows_remove rs s))) (aiDisplay (rows_remove rs s)) =
      map ((!) (aoData s)) (filter (\<lambda>i. i \<notin> set rs) (aiDisplay s)) \<and>
    table_wf (rows_remove rs s)"
  using assms
proof (induction rs s rule: rows_remove.induct)
  case (2 row rows s)
  have r: "row < length (aoData s)" "row \<notin> set rows" using "2.prems" by auto
  let ?rows = "map (shift_from row) rows"
  have rows: "fnDeleteIndex rows row True = ?rows" by (rule fnDeleteIndex_keep [OF r(2)])
  have wf: "table_wf (row_remove row s)" by (rule row_remove_wf [OF "2.prems"(1) r(1)])
  have len: "length (aoData (row_remove row s)) = length (aoData s) - 1" using r(1) by (simp add: row_remove_data)
  have "distinct ?rows" using "2.prems"(2) shift_from_inj [of _ row] r(2) unfolding distinct_map inj_on_def by (metis distinct.simps(2))
  moreover have "set ?rows \<subseteq> {..<length (aoData (row_remove row s))}"
  proof
    fix y assume "y \<in> set ?rows"
    then obtain x where x: "x \<in> set rows" "y = shift_from row x" by auto
    then have "x < length (aoData s)" "x \<noteq> row" using "2.prems"(3) r by auto
    then show "y \<in> {..<length (aoData (row_remove row s))}" using r(1) x(2) unfolding len by (cases "row < x") auto
  qed
  ultimately have IH: "aoData (rows_remove ?rows (row_remove row s)) = nths (aoData (row_remove row s)) (- set ?rows) \<and>
      map ((!) (aoData (rows_remove ?rows (row_remove row s)))) (aiDisplay (rows_remove ?rows (row_remove row s))) =
        map ((!) (aoData (row_remove row s))) (filter (\<lambda>i. i \<notin> set ?rows) (aiDisplay (row_remove row s))) \<and>
      table_wf (rows_remove ?rows (row_remove row s))"
    using "2.IH" wf unfolding rows by blast
  have "nths (aoData (row_remove row s)) (- set ?rows) = nths (aoData s) (- set (row # rows))"
    unfolding row_remove_data using nths_splice [OF r] by simp
  moreover have "map ((!) (aoData (row_remove row s))) (filter (\<lambda>i. i \<notin> set ?rows) (aiDisplay (row_remove row s))) =
      map ((!) (aoData s)) (filter (\<lambda>i. i \<notin> set (row # rows)) (aiDisplay s))"
    using row_remove_filter [OF "2.prems"(1) r] by simp
  ultimately show ?case using IH unfolding rows_remove.simps(2) rows by metis
qed (simp add: nths_all)

theorem rows_remove_spec_witness:
  "map aData (aoData (rows_remove [3, 0] (sample_page 0 2))) = [''b'', ''c'', ''e'']"
proof -
  have "table_wf (sample_page 0 2)" by (auto simp: table_wf_def sample_page_def sample_settings_def)
  moreover have "length (aoData (sample_page 0 2)) = 5" by (simp add: sample_page_def sample_settings_def)
  ultimately have "aoData (rows_remove [3, 0] (sample_page 0 2)) = nths (aoData (sample_page 0 2)) (- set [3, 0])"
    using rows_remove_spec [of "sample_page 0 2" "[3, 0]"] by simp
  then show ?thesis by (simp add: sample_page_def sample_settings_def sample_row_def nths_Cons)
qed


section \<open>A full redraw\<close>

text \<open>The text of a row that a search looks at, from the cache or from its cells.\<close>

definition row_text :: "(string \<Rightarrow> string) \<Rightarrow> ('r, 'k) settings \<Rightarrow> nat \<Rightarrow> string" where
  "row_text dec s i = sFilterRow (filter_row dec (aoColumns s) (aoData s ! i))"

lemma type_update_fields:
  "bSearchable (col\<lparr>sType := t\<rparr>) = bSearchable col" "fnFilterCell (col\<lparr>sType := t\<rparr>) = fnFilterCell col"
  by simp_all

lemma filter_cell_type: "filter_cell dec (col\<lparr>sType := t\<rparr>) d = filter_cell dec col d"
  unfolding filter_cell_def type_update_fields by (rule refl)

lemma column_types_filter:
  "map (\<lambda>c. filter_cell dec c d) (column_types types data old cols) = map (\<lambda>c. filter_cell dec c d) cols"
proof (induction cols arbitrary: old)
  case (Cons col cols)
  have upd: "filter_cell dec (col\<lparr>sType := t\<rparr>) d = filter_cell dec col d" for t by (rule filter_cell_type)
  show ?case
  proof (cases "sType col")
    case None
    show ?thesis
    proof (cases "sManualType col")
      case None
      then show ?thesis using \<open>sType col = None\<close> Cons
        by (cases "detect_types types old (map (\<lambda>r. fnTypeCell col (aData r)) data)") (simp add: upd)
    qed (use None Cons upd in simp)
  qed (use Cons in simp)
qed simp

lemma filter_row_types: "filter_row dec (column_types types data old cols) r = filter_row dec cols r"
  by (simp add: filter_row_def column_types_filter split: option.splits)

definition same_rows :: "('r, 'k) row list \<Rightarrow> ('r, 'k) row list \<Rightarrow> bool" where
  "same_rows d e \<longleftrightarrow> length e = length d \<and>
     (\<forall>i<length d. aData (e ! i) = aData (d ! i) \<and> aFilterData (e ! i) = aFilterData (d ! i) \<and>
        sFilterRow (e ! i) = sFilterRow (d ! i))"

lemma same_rows_text: "same_rows d e \<Longrightarrow> i < length d \<Longrightarrow>
   sFilterRow (filter_row dec cols (e ! i)) = sFilterRow (filter_row dec cols (d ! i))"
  by (simp add: same_rows_def filter_row_def Let_def split: option.splits)

lemma fold_fnSortData_rows:
  "\<exists>d. fold (\<lambda>sp. fnSortData fmt falsy (ss_col sp)) specs s = s\<lparr>aoData := d\<rparr> \<and> same_rows (aoData s) d"
proof (induction specs arbitrary: s)
  case Nil
  show ?case by (rule exI [of _ "aoData s"]) (simp add: same_rows_def)
next
  case (Cons sp specs)
  obtain e where e: "fnSortData fmt falsy (ss_col sp) s = s\<lparr>aoData := e\<rparr>" "same_rows (aoData s) e"
    by (rule that [OF fnSortData_def]) (auto simp: same_rows_def Let_def)
  obtain d where d: "fold (\<lambda>sp. fnSortData fmt falsy (ss_col sp)) specs (s\<lparr>aoData := e\<rparr>) = s\<lparr>aoData := d\<rparr>" "same_rows e d"
    using Cons [of "s\<lparr>aoData := e\<rparr>"] by auto
  moreover have "same_rows (aoData s) d" using e(2) d(2) by (simp add: same_rows_def)
  ultimately show ?case using e(1) by auto
qed

lemma fnSort_shape:
  "\<exists>d M. fnSort E s = s\<lparr>aoColumns := column_types (se_types E) (aoData s) None (aoColumns s), aoData := d,
      aiDisplayMaster := M, bSorted := True\<rparr> \<and> same_rows (aoData s) d"
proof -
  let ?s0 = "fnColumnTypes (se_types E) s"
  let ?specs = "fnSortFlatten (se_fixed E) (se_fmt E) ?s0"
  obtain d where d: "fold (\<lambda>sp. fnSortData (se_fmt E) (se_falsy E) (ss_col sp)) ?specs ?s0 = ?s0\<lparr>aoData := d\<rparr>"
    "same_rows (aoData ?s0) d" using fold_fnSortData_rows by blast
  let ?M = "if fnDataSource s \<noteq> Ssp \<and> ?specs \<noteq> []
    then se_sort E (compare_rows (length (filter ss_formatter ?specs) = length ?specs) (se_ext E) d ?specs (aiDisplayMaster s)) (aiDisplayMaster s)
    else aiDisplayMaster s"
  show ?thesis
    by (rule exI [of _ d], rule exI [of _ ?M])
       (use d in \<open>auto simp: fnSort_def Let_def fnColumnTypes_def fnDataSource_def\<close>)
qed

lemma fnFilter_sorted:
  assumes "CHR 0x22 \<notin> set input" "bSorted s"
  shows "fnFilter eng dec customs input force False smart ci s =
    Inr (s\<lparr>aoData := map (filter_row dec (aoColumns s)) (aoData s),
           aiDisplay := filter (\<lambda>i. row_matches smart ci input
              (sFilterRow (map (filter_row dec (aoColumns s)) (aoData s) ! i))) (aiDisplayMaster s)\<rparr>)"
proof -
  obtain re where re: "fnFilterCreateSearch input False smart ci = Inr re" "re_test eng re = row_matches smart ci input"
    using create_plain [OF assms(1)] by blast
  have "row_matches smart ci [] data" for data
    by (cases data) (auto simp: row_matches_def match_runs_nil contains_ci_def js_contains_def js_lower_def list_ex_iff)
  then show ?thesis
    using re assms(2) by (auto simp: fnFilter_def fnFilterData_def Let_def splice_loop_filter)
qed

lemma column_filters_empty:
  "list_all (\<lambda>p. sSearch p = []) (aoPreSearchCols s) \<Longrightarrow>
   foldl (\<lambda>m i. js_bind m (\<lambda>t. let p = aoPreSearchCols t ! i
       in fnFilterColumn eng (sSearch p) i (bRegex p) (bSmart p) (bCaseInsensitive p) t)) (Inr s)
     [0..<length (aoPreSearchCols s)] = Inr s"
proof -
  assume e: "list_all (\<lambda>p. sSearch p = []) (aoPreSearchCols s)"
  have "foldl (\<lambda>m i. js_bind m (\<lambda>t. let p = aoPreSearchCols t ! i
       in fnFilterColumn eng (sSearch p) i (bRegex p) (bSmart p) (bCaseInsensitive p) t)) (Inr s) js = Inr s"
    if "set js \<subseteq> {..<length (aoPreSearchCols s)}" for js
    using that e by (induction js) (auto simp: fnFilterColumn_def list_all_length Let_def)
  then show ?thesis by (simp add: lessThan_atLeast0)
qed


lemma filter_after_sort:
  assumes "array_sort (se_sort E)" "table_wf s" "CHR 0x22 \<notin> set (sSearch p)" "\<not> bRegex p"
    "list_all (\<lambda>p. sSearch p = []) (aoPreSearchCols s)" "fe_customs F = []"
  shows "\<exists>u. filter_complete F E p False (fnSort E s) = Inr u \<and>
    aiDisplayMaster u = aiDisplayMaster (fnSort E s) \<and>
    aiDisplay u = filter (\<lambda>i. row_matches (bSmart p) (bCaseInsensitive p) (sSearch p) (row_text (fe_decode F) s i))
      (aiDisplayMaster (fnSort E s)) \<and>
    bPaginate u = bPaginate s \<and> iDisplayLength u = iDisplayLength s \<and> iInitDisplayStart u = iInitDisplayStart s"
proof -
  let ?cols = "column_types (se_types E) (aoData s) None (aoColumns s)"
  obtain d M where s1: "fnSort E s = s\<lparr>aoColumns := ?cols, aoData := d, aiDisplayMaster := M, bSorted := True\<rparr>"
    and same: "same_rows (aoData s) d" using fnSort_shape [of E s] by blast
  have M: "set M = {..<length (aoData s)}"
    using wf_master(2) [OF fnSort_wf [OF assms(1,2)]] same by (simp add: s1 same_rows_def)
  let ?s0 = "fnColumnTypes (se_types E) (fnSort E s)"
  let ?D = "map (filter_row (fe_decode F) (aoColumns ?s0)) (aoData ?s0)"
  have srt: "bSorted ?s0" "\<not> bServerSide ?s0" "aiDisplayMaster ?s0 = M" "aoData ?s0 = d"
    "aoPreSearchCols ?s0 = aoPreSearchCols s" using assms(2) by (simp_all add: s1 fnColumnTypes_def table_wf_def)
  have cell: "sFilterRow (?D ! i) = row_text (fe_decode F) s i" if "i \<in> set M" for i
  proof -
    have "i < length d" "i < length (aoData s)" using that M same by (simp_all add: same_rows_def)
    then show ?thesis
      using same_rows_text [OF same, of i "fe_decode F" "aoColumns s"]
      by (simp add: srt(4)) (simp add: s1 fnColumnTypes_def row_text_def filter_row_types)
  qed
  let ?u = "?s0\<lparr>aoData := ?D, aiDisplay := filter (\<lambda>i. row_matches (bSmart p) (bCaseInsensitive p) (sSearch p)
      (sFilterRow (?D ! i))) M, oPreviousSearch := p\<rparr>"
  have "filter_complete F E p False (fnSort E s) = Inr (?u\<lparr>bFiltered := True\<rparr>)"
    using column_filters_empty [of ?u] fnFilter_sorted [OF assms(3) srt(1)] assms(4-6) srt(2,3,5)
    by (simp add: filter_complete_def fnFilterComplete_def fnFilterCustom_def Let_def)
  moreover have "filter (\<lambda>i. row_matches (bSmart p) (bCaseInsensitive p) (sSearch p) (sFilterRow (?D ! i))) M =
      filter (\<lambda>i. row_matches (bSmart p) (bCaseInsensitive p) (sSearch p) (row_text (fe_decode F) s i)) M"
    by (rule filter_cong) (simp_all add: cell)
  ultimately show ?thesis by (auto simp: s1 fnColumnTypes_def)
qed

lemma fnDraw_message:
  assumes "\<not> bServerSide s" "aiDisplay s = []"
  shows "\<exists>t m. fnDraw False s = Inr t \<and> tbody t = [DrawnMessage m] \<and> aiDisplay t = [] \<and> aiDisplayMaster t = aiDisplayMaster s"
  using fnDraw_client [OF assms(1)] assms(2) by (auto simp: frame_def init_start_def)

lemma fnDraw_display:
  assumes "table_wf s" "fnDraw veto s = Inr t"
  shows "aiDisplay t = aiDisplay s \<and> aiDisplayMaster t = aiDisplayMaster s"
proof (cases veto)
  case False
  have "\<not> bServerSide s" using assms(1) by (simp add: table_wf_def)
  from fnDraw_client [OF this] obtain s2 where "frame s2 = frame (init_start s)" "aiDisplay s2 = aiDisplay s"
    "\<exists>d b. t = s2\<lparr>aoData := d, tbody := b, bSorted := False, bFiltered := False\<rparr>"
    using assms(2) False by (fastforce simp: js_bind_Inr_iff)
  then show ?thesis by (auto simp: frame_def init_start_def)
qed (use assms(2) in \<open>simp add: fnDraw_def\<close>)

end
