(* ===== verification/Spec2Isabelle.thy ===== *)
theory Spec2Isabelle
  imports Lru_Cache Search_Index Persistent_Storage Transport Event_Emitter Typeahead_Widget Date_Range Datepicker Tags_Input Form_Validator Form_Wizard Multi_Select Toastr Pagination Table_Api
begin

text \<open>
  \<^bold>\<open>Verification of the browser code of the SRGP game's administration console.\<close>

  The game's back end is a set of Java and Kotlin servers; its operators work with a web
  console (\<open>game_gm/Manager\<close>) whose behaviour is JavaScript under
  \<open>src/game_gm/Manager/src/main/webapp/assets/js\<close>. This development models the components of
  that code that keep state or compute something, function by function, and proves what makes
  them correct. File names below are relative to that directory.

  \<^bold>\<open>The parts and how they interact.\<close> Tables of players, orders and logs are shown by
  \<open>datatables/js/jquery.dataTables.js\<close>: an array of rows, a sorted master array, a filtered
  display array, and the page drawn from it. Dates are entered with
  \<open>datepicker/bootstrap-datepicker.js\<close>. Search boxes complete names with
  \<open>typeahead.bundle.js\<close>: a widget over data sets, which ask an index of prefetched data and a
  transport of remote requests, which uses a cache of responses and the browser's storage.
  Lists of words are entered with \<open>tagsinput/bootstrap-tagsinput.js\<close>, several of many options are
  chosen with \<open>multiselect/js/jquery.multi-select.js\<close>, forms in several steps
  are led through by \<open>formwizard/jquery.bootstrap.wizard.js\<close>, and forms are checked by
  \<open>jquery-validate/jquery.validate.js\<close> with the rules of \<open>additional-methods.js\<close> before they are
  sent. Messages appear as toasts (\<open>toastr/toastr.js\<close>), and long lists have page links
  (\<open>uikit/js/addons/pagination.js\<close>).

  \<^bold>\<open>Theories.\<close>
  \<^item> \<open>Js_Prelude\<close>, \<open>Js_Number\<close>, \<open>Js_Regex\<close>, \<open>Js_Pattern\<close>, \<open>Js_Date\<close>: what the code uses of the
    language. Errors are values of \<open>js_error + 'a\<close>, strings are lists of Latin-1 code units,
    \<open>None\<close> stands for \<open>NaN\<close> or \<open>undefined\<close>; \<open>Js_Pattern\<close> has the backtracking matcher of
    regular expressions (\<open>rests\<close>) and the relation it decides (\<open>matches\<close>), \<open>Js_Date\<close> the
    calendar of the language standard. The prelude also has the locales \<open>step_invariant\<close>
    (a predicate kept by a step function holds after every run) and \<open>response_cache\<close>.
  \<^item> \<open>Lru_Cache\<close> (\<open>LruCache\<close>, \<open>List\<close>): the cache of responses, its linked list as a store of
    nodes with \<open>prev\<close> and \<open>next\<close> references. It answers only with what was last stored and
    keeps the newest entries; reading one entry twice breaks the list and the bound. It
    interprets \<open>response_cache\<close>.
  \<^item> \<open>Search_Index\<close> (\<open>SearchIndex\<close>, \<open>Bloodhound\<close>), \<open>Persistent_Storage\<close>, \<open>Transport\<close>,
    \<open>Event_Emitter\<close>: the trie of tokens answers exactly the data whose tokens the query's
    tokens are prefixes of; values live until their time; requests in flight are bounded
    over all runs and every waiting caller is answered once.
  \<^item> \<open>Typeahead_Widget\<close> (\<open>Input\<close>, \<open>Dataset\<close>, \<open>Dropdown\<close>, \<open>Typeahead\<close>): the widget as a state
    with a step per user event, response or timer tick, and the invariant of menu and cursor.
  \<^item> \<open>Date_Format\<close>, \<open>Date_Range\<close>, \<open>Datepicker\<close>: months and years, formats and their round trip,
    the sheet of 42 days, clicks, keys, ranges. \<open>Js_Date\<close> and with it these theories compute with
    unbounded time values; \<open>Date_Range\<close> has \<open>moveMonth\<close> on the bounded dates of the language and
    shows where the two agree and that the loop does not end beyond the bounds.
  \<^item> \<open>Tags_Input\<close>: tags, the elements shown and the value of the field under every sequence of
    keys, clicks and calls, an initial value that is refused included, and the round trip through
    the value.
  \<^item> \<open>Validator_Methods\<close>, \<open>Additional_Methods\<close>: the rules on texts; the check sums (Luhn, IBAN,
    vehicle numbers) against their definitions, and which slips they find.
  \<^item> \<open>Form_Rules\<close>, \<open>Form_Validator\<close>: how the rules of a field are merged and ordered; checking
    fields and forms, questions to the server and submission, as a step function over the
    actions of the user and the network. A form is sent exactly when every rule passes and no
    question is open; a failed request blocks it until a field is edited or validation cancelled.
  \<^item> \<open>Form_Wizard\<close>: the active tab, the tab the page shows, the history and the buttons. The wizard
    stays on an existing tab and steps back undo; disabled and removed tabs break the agreement.
  \<^item> \<open>Multi_Select\<close> (\<open>multiselect/js/jquery.multi-select.js\<close>): the element, its two lists and the ids made
    from 32-bit hashes (\<open>32 word\<close>). The lists show the selection of the element while hashes
    differ, and without groups in the order of choosing; colliding hashes, disabled options or
    elements and options added to groups break it.
  \<^item> \<open>Toastr\<close>: toasts, their container, timers and animations, as a step function over calls and
    events. A toast with a time limit always has a way out unless it has the focus.
  \<^item> \<open>Pagination\<close>: the links before, in and after the displayed interval, and the dots between.
  \<^item> \<open>Data_Table\<close>, \<open>Table_Sort\<close>, \<open>Table_View\<close>, \<open>Table_Api\<close>: rows, types and search, the
    words and phrases a user types against what is found; the sort, with its cache of keys, against the contract of \<open>Array.prototype.sort\<close>, which is the locale \<open>array_sort\<close> (a
    browser may use any algorithm; a stable insertion sort interprets it) and the
    abstract order it implements; paging, drawing, server-side answers in any order, saved
    views; the programming interface and the invariant over all its interleavings, a step
    relation. The last section below composes them: what a redraw shows.

  \<^bold>\<open>Bounds and loops.\<close> Loops are recursive functions with termination proofs. \<open>month_back\<close> steps
  back at most 31 days, which is enough because setting a month overshoots by at most three;
  \<open>month_loop\<close> and the loops of range pickers are proved to return, and \<open>reset_loop\<close>, a partial
  function, exactly within the range of dates. \<open>YearFromDay\<close> starts from
  an estimate that is at most one off. The matcher refuses empty rounds of a repetition, as
  the language standard does.

  \<^bold>\<open>Parameters.\<close> What is outside this code is an argument: handlers that applications
  register (known by what they veto), the order of network events, the clock, the time zone,
  the browser's sort, the decoder of HTML entities, and the conversion of mixed texts to
  numbers in the vehicle number rule.

  \<^bold>\<open>Simplifications.\<close> An empty object is an empty map: names every object inherits, such as
  \<open>constructor\<close>, are not keys. Sort keys come from one linear order, so keys of mixed types and NaN
  do not occur; the search formatter of a column does not depend on its type. A table call that
  raises and a \<open>TypeError\<close> in the suggestion widget end a run of the model.

  \<^bold>\<open>Not modelled.\<close> The servers are not JavaScript. Drawing in the proper sense (HTML of controls,
  sizes, colours, animation), the DOM, jQuery and the browser are the environment of the code.
  Third-party libraries that the console only includes, most of them minified or generated
  (the editors, charts, maps, \<open>devexpress\<close>, \<open>jquery-ui\<close>, \<open>fullcalendar\<close>, \<open>uikit\<close> but for its
  page links), and the glue of
  the theme (\<open>xenon-*\<close>, \<open>joinable\<close>, \<open>resizeable\<close>) have no logic of the console.
\<close>

section \<open>A table from search to screen\<close>

text \<open>
  C1: a full redraw. For a search text without quotes, without column searches and plug-in
  filters, \<open>draw()\<close> sorts, filters and draws: the display array is the master array in the
  order \<open>_fnSort\<close> gave it, cut down to the rows whose text matches the search, and the table
  body shows its first page, or a message when no row matches.
\<close>

theorem redraw_shows:
  assumes "array_sort (se_sort E)" "table_wf s" "bSort s" "bFilter s" "bPaginate s" "0 < iDisplayLength s"
    "iInitDisplayStart s = -1" "CHR 0x22 \<notin> set (sSearch (oPreviousSearch s))" "\<not> bRegex (oPreviousSearch s)"
    "list_all (\<lambda>p. sSearch p = []) (aoPreSearchCols s)" "fe_customs F = []" "\<not> fe_veto F"
  shows "\<exists>t. api_draw F E Undefined s = Inr t \<and>
    aiDisplay t = filter (\<lambda>i. row_matches (bSmart (oPreviousSearch s)) (bCaseInsensitive (oPreviousSearch s))
        (sSearch (oPreviousSearch s)) (row_text (fe_decode F) s i)) (aiDisplayMaster (fnSort E s)) \<and>
    (if aiDisplay t = [] then \<exists>m. tbody t = [DrawnMessage m]
     else tbody t = map DrawnRow (take (nat (iDisplayLength s)) (aiDisplay t)))"
proof -
  let ?p = "oPreviousSearch s"
  obtain d M where s1: "fnSort E s = s\<lparr>aoColumns := column_types (se_types E) (aoData s) None (aoColumns s),
      aoData := d, aiDisplayMaster := M, bSorted := True\<rparr>" using fnSort_shape [of E s] by blast
  from filter_after_sort [OF assms(1,2,8-11)] obtain u where u:
    "filter_complete F E ?p False (fnSort E s) = Inr u"
    "aiDisplay u = filter (\<lambda>i. row_matches (bSmart ?p) (bCaseInsensitive ?p) (sSearch ?p) (row_text (fe_decode F) s i))
      (aiDisplayMaster (fnSort E s))"
    "bPaginate u = bPaginate s" "iDisplayLength u = iDisplayLength s" "iInitDisplayStart u = iInitDisplayStart s" by blast
  let ?u = "u\<lparr>iDisplayStart := 0\<rparr>"
  have wfu: "table_wf u" by (rule filter_complete_wf [OF fnSort_wf [OF assms(1,2)] u(1)])
  then have wf: "table_wf ?u" "table_ok ?u" using u(3-5) assms(5-7) by (simp_all add: table_wf_def table_ok_def)
  have "api_draw F E Undefined s = fnDraw False ?u"
    using assms(3,4,12) u(1) by (simp add: api_draw_def fnReDraw_def filter_complete_def Let_def s1)
  moreover obtain t where t: "fnDraw False ?u = Inr t" using fnDraw_wf [OF wf(1), of False] by blast
  moreover have "aiDisplay t = aiDisplay u" using fnDraw_display [OF wf(1) t] by simp
  moreover have "if aiDisplay u = [] then \<exists>m. tbody t = [DrawnMessage m]
      else tbody t = map DrawnRow (take (nat (iDisplayLength s)) (aiDisplay u))"
    using fnDraw_message [of ?u] fnDraw_rows [OF wf(2)] wf(1) t u(4)
    by (auto simp: table_wf_def fnRecordsDisplay_def page_rows_def)
  ultimately show ?thesis using u(2) by simp
qed

theorem redraw_shows_witness:
  "\<exists>t. api_draw sample_filter sample_env Undefined (sample_settings [''ccc'', ''b'', ''cd'', ''d''] ''c'' []) = Inr t \<and>
     tbody t = [DrawnRow 2, DrawnRow 0]"
proof -
  let ?s = "sample_settings [''ccc'', ''b'', ''cd'', ''d''] ''c'' []"
  have "aiDisplayMaster (fnSort sample_env ?s) = [1, 3, 2, 0]" by code_simp
  moreover have "filter (\<lambda>i. row_matches True True ''c'' (row_text id ?s i)) [1, 3, 2, 0] = [2, 0]" by code_simp
  moreover have "array_sort (se_sort sample_env)" by (simp add: sample_env_def insort.array_sort_axioms)
  moreover have "table_wf ?s" by (simp add: table_wf_def sample_settings_def)
  moreover have "bSort ?s" "bFilter ?s" "bPaginate ?s" "0 < iDisplayLength ?s" "iInitDisplayStart ?s = -1"
    "oPreviousSearch ?s = \<lparr>sSearch = ''c'', bRegex = False, bSmart = True, bCaseInsensitive = True\<rparr>"
    "aoPreSearchCols ?s = []" "iDisplayLength ?s = 10" by (simp_all add: sample_settings_def)
  ultimately show ?thesis
    using redraw_shows [of sample_env ?s sample_filter] by (auto simp: sample_filter_def)
qed

end
